(* ===== verification/Prelude.thy ===== *)
theory Prelude
  imports Main "HOL-Library.Word"
begin

unbundle bit_operations_syntax

text \<open>
  Shared vocabulary of the development: the machine types of the C sources, the little-endian
  wire format of 16- and 32-bit integers, the errno values the daemons return, and the generic
  lemmas (cyclic probing of an array, counting slots, splitting byte lists) that several
  components use. The collections \<open>wire_simps\<close> and \<open>probe_simps\<close> carry the automation.
\<close>

section \<open>Machine types\<close>

type_synonym u8 = "8 word"
type_synonym u16 = "16 word"
type_synonym u32 = "32 word"
type_synonym u64 = "64 word"
type_synonym bytes = "8 word list"

named_theorems wire_simps
named_theorems probe_simps

section \<open>Errno values (Linux, asm-generic)\<close>

abbreviation (input) "ENOENT \<equiv> (2 :: int)"
abbreviation (input) "EINTR \<equiv> (4 :: int)"
abbreviation (input) "ENOMEM \<equiv> (12 :: int)"
abbreviation (input) "EFAULT \<equiv> (14 :: int)"
abbreviation (input) "EINVAL \<equiv> (22 :: int)"
abbreviation (input) "EMSGSIZE \<equiv> (90 :: int)"
abbreviation (input) "EADDRINUSE \<equiv> (98 :: int)"
abbreviation (input) "ENETRESET \<equiv> (102 :: int)"

section \<open>Little-endian integers\<close>

definition le16 :: "u16 \<Rightarrow> bytes" where
  "le16 w = [ucast w, ucast (drop_bit 8 w)]"

definition le32 :: "u32 \<Rightarrow> bytes" where
  "le32 w = [ucast w, ucast (drop_bit 8 w), ucast (drop_bit 16 w), ucast (drop_bit 24 w)]"

definition rd16 :: "bytes \<Rightarrow> u16" where
  "rd16 bs = (case bs of a # b # _ \<Rightarrow> ucast a OR push_bit 8 (ucast b) | _ \<Rightarrow> 0)"

definition rd32 :: "bytes \<Rightarrow> u32" where
  "rd32 bs = (case bs of
     a # b # c # d # _ \<Rightarrow>
       ucast a OR push_bit 8 (ucast b) OR push_bit 16 (ucast c) OR push_bit 24 (ucast d)
   | _ \<Rightarrow> 0)"

lemma length_le16 [simp]: "length (le16 w) = 2"
  by (simp add: le16_def)

lemma length_le32 [simp]: "length (le32 w) = 4"
  by (simp add: le32_def)

lemma rd16_le16 [simp, wire_simps]: "rd16 (le16 w @ bs) = w"
  unfolding rd16_def le16_def
  by (simp, rule bit_word_eqI) (auto simp: bit_simps)

lemma rd32_le32 [simp, wire_simps]: "rd32 (le32 w @ bs) = w"
proof -
  have "bit (rd32 (le32 w @ bs)) n = bit w n" if "n < 32" for n
  proof -
    consider "n < 8" | "8 \<le> n" "n < 16" | "16 \<le> n" "n < 24" | "24 \<le> n" by linarith
    then show ?thesis using that unfolding rd32_def le32_def by cases (auto simp: bit_simps)
  qed
  then show ?thesis by (intro bit_word_eqI) simp
qed

lemma rd16_le16' [simp, wire_simps]: "rd16 (le16 w) = w"
  using rd16_le16 [of w "[]"] by simp

lemma rd32_le32' [simp, wire_simps]: "rd32 (le32 w) = w"
  using rd32_le32 [of w "[]"] by simp

lemma le32_rd32 [wire_simps]: "le32 (rd32 [a, b, c, d]) = [a, b, c, d]"
  unfolding rd32_def le32_def
  by (simp, intro conjI; rule bit_word_eqI) (auto simp: bit_simps dest: bit_imp_le_length)

lemma le16_rd16 [wire_simps]: "le16 (rd16 [a, b]) = [a, b]"
  unfolding rd16_def le16_def
  by (simp, intro conjI; rule bit_word_eqI) (auto simp: bit_simps dest: bit_imp_le_length)

lemma le32_inj [simp]: "le32 a = le32 b \<longleftrightarrow> a = b"
  by (metis rd32_le32')

lemma drop_le32 [simp]: "drop 4 (le32 w @ bs) = bs"
  by (simp add: le32_def)

section \<open>Cyclic probing of an array\<close>

text \<open>The slot visited at step \<open>j\<close> of a linear probe that starts at \<open>h\<close> in an array of \<open>n\<close> slots.\<close>

definition probe :: "nat \<Rightarrow> nat \<Rightarrow> nat \<Rightarrow> nat" where
  "probe n h j = (h + j) mod n"

lemma probe_less [simp, probe_simps]: "0 < n \<Longrightarrow> probe n h j < n"
  by (simp add: probe_def)

lemma probe_Suc [probe_simps]: "(probe n h j + 1) mod n = probe n h (Suc j)"
  by (simp add: probe_def mod_Suc_eq)

lemma probe_0 [probe_simps]: "h < n \<Longrightarrow> probe n h 0 = h"
  by (simp add: probe_def)

lemma probe_surj:
  assumes "i < n" "h < n"
  shows "\<exists>j<n. probe n h j = i"
proof (cases "h \<le> i")
  case True
  then show ?thesis using assms by (intro exI [of _ "i - h"]) (auto simp: probe_def)
next
  case False
  then have "probe n h (n - h + i) = i" "n - h + i < n" using assms by (auto simp: probe_def)
  then show ?thesis by blast
qed

lemma probe_inj:
  assumes "probe n h j = probe n h j'" "j < n" "j' < n"
  shows "j = j'"
proof -
  have "\<And>a b. a \<le> b \<Longrightarrow> b < n \<Longrightarrow> probe n h a = probe n h b \<Longrightarrow> a = b"
  proof -
    fix a b assume ab: "a \<le> b" "b < n" "probe n h a = probe n h b"
    then have "n dvd (b - a)"
      by (metis add_diff_cancel_left mod_eq_dvd_iff_nat nat_add_left_cancel_le probe_def)
    then have "b - a = 0" using ab by (metis dvd_imp_le gr0I le_less_trans less_irrefl diff_le_self)
    then show "a = b" using ab by simp
  qed
  then show ?thesis using assms by (metis nat_le_linear)
qed

section \<open>Counting list elements\<close>

lemma length_filter_update:
  assumes "i < length xs"
  shows "length (filter P (xs[i := x])) + (if P (xs ! i) then 1 else 0) =
         length (filter P xs) + (if P x then 1 else 0)"
  using assms
proof (induction xs arbitrary: i)
  case (Cons y ys)
  then show ?case by (cases i) auto
qed simp

lemma length_filter_less_ex:
  "length (filter P xs) < length xs \<Longrightarrow> \<exists>i<length xs. \<not> P (xs ! i)"
  by (metis filter_True in_set_conv_nth less_irrefl)

lemma in_set_list_update_iff:
  "i < length xs \<Longrightarrow> x \<in> set (xs[i := y]) \<longleftrightarrow> x = y \<or> (\<exists>j<length xs. j \<noteq> i \<and> xs ! j = x)"
  by (auto simp: in_set_conv_nth nth_list_update)

lemma in_set_update_other:
  "x \<in> set (xs[i := y]) \<Longrightarrow> x \<noteq> y \<Longrightarrow> x \<in> set xs"
  by (metis insertE set_update_subset_insert subsetD)


lemma option_eqI: "(\<And>v. a = Some v \<longleftrightarrow> b = Some v) \<Longrightarrow> a = b"
  by (cases a; cases b) auto

end
