(* ===== verification/Qrtr_Hash.thy ===== *)
theory Qrtr_Hash
  imports Prelude
begin

unbundle bit_operations_syntax

text \<open>
  The hash functions of \<open>qcom/qrtr/src/hash.c\<close>. The name server keys its node and service
  tables with \<open>hash_u32\<close> and never compares the original identifiers again, so its lookups are
  right only because \<open>hash_u32\<close> is injective, which is shown here together with the inverse
  multiplier. \<open>hash_mem\<close> rotates and xors; it tells apart buffers of one length that differ in
  one byte.
\<close>

section \<open>Definitions\<close>

fun hash_mem_loop :: "u32 \<Rightarrow> bytes \<Rightarrow> u32" where
  "hash_mem_loop h [] = h"
| "hash_mem_loop h (b # bs) =
     hash_mem_loop ((drop_bit 27 h XOR push_bit 5 h) XOR ucast b) bs"

text \<open>\<open>data\<close> is the memory at the pointer; the loop reads its first \<open>len\<close> bytes.\<close>

definition hash_mem :: "bytes \<Rightarrow> u32 \<Rightarrow> u32" where
  "hash_mem data len = hash_mem_loop len (take (unat len) data)"

text \<open>\<open>value\<close> is a NUL-terminated string, given without its terminator.\<close>

definition hash_string :: "bytes \<Rightarrow> u32" where
  "hash_string str = hash_mem str (of_nat (length str))"

definition hash_u32 :: "u32 \<Rightarrow> u32" where
  "hash_u32 w = ucast ((ucast w :: u64) * 2654435761)"

definition hash_u64 :: "u64 \<Rightarrow> u32" where
  "hash_u64 w = hash_u32 (ucast (w AND 0xffffffff)) XOR hash_u32 (ucast (drop_bit 32 w))"

text \<open>\<open>pointer_size\<close> is \<open>sizeof(void *)\<close> of the target.\<close>

definition hash_pointer :: "nat \<Rightarrow> u64 \<Rightarrow> u32" where
  "hash_pointer pointer_size p = (if pointer_size = 8 then hash_u64 p else hash_u32 (ucast p))"

section \<open>Injectivity of the integer hash\<close>

lemma hash_u32_mult: "hash_u32 w = w * 2654435761"
  unfolding hash_u32_def
  by (simp add: word_uint_eq_iff unsigned_ucast_eq uint_word_ariths take_bit_eq_mod
      mod_mod_cancel mod_mult_left_eq)

lemma multiplier_inverse: "(2654435761 :: u32) * 244002641 = 1"
  by (simp add: word_uint_eq_iff uint_word_ariths)

lemma hash_u32_inverse: "hash_u32 w * 244002641 = w"
  using multiplier_inverse by (simp only: hash_u32_mult mult.assoc mult_1_right)

lemma hash_u32_eq_iff [simp]: "hash_u32 a = hash_u32 b \<longleftrightarrow> a = b"
  by (metis hash_u32_inverse)

text \<open>
  C38: The integer hash is a permutation of the 32-bit words: distinct node identifiers and
  distinct ports never share a key, and every key is the hash of some identifier.
\<close>
theorem hash_u32_bij: "bij hash_u32"
proof (rule bijI)
  show "inj hash_u32" by (simp add: inj_def)
  show "surj hash_u32"
  proof (rule surjI)
    fix w :: u32
    show "hash_u32 (w * 244002641) = w"
      using multiplier_inverse
      by (simp only: hash_u32_mult mult.assoc mult.commute [of "244002641 :: u32"] mult_1_right)
  qed
qed

section \<open>Sensitivity of the byte hash\<close>

lemma rotate5_inj:
  assumes "drop_bit 27 h XOR push_bit 5 h = drop_bit 27 h' XOR push_bit 5 (h' :: u32)"
  shows "h = h'"
proof (rule bit_word_eqI)
  fix n
  assume "n < LENGTH(32)"
  moreover have "bit (drop_bit 27 h XOR push_bit 5 h) (if n < 27 then n + 5 else n - 27) =
      bit (drop_bit 27 h' XOR push_bit 5 h') (if n < 27 then n + 5 else n - 27)"
    using assms by simp
  ultimately show "bit h n = bit h' n"
    by (auto simp: bit_simps split: if_splits dest: bit_imp_le_length)
qed

lemma hash_mem_loop_inj: "hash_mem_loop h bs = hash_mem_loop h' bs \<Longrightarrow> h = h'"
proof (induction bs arbitrary: h h')
  case (Cons b bs)
  then have "(drop_bit 27 h XOR push_bit 5 h) XOR ucast b =
      (drop_bit 27 h' XOR push_bit 5 h') XOR (ucast b :: u32)"
    using Cons.IH [OF Cons.prems [simplified]] by simp
  then have "drop_bit 27 h XOR push_bit 5 h = drop_bit 27 h' XOR push_bit 5 h'"
    by (metis (no_types) xor.assoc xor_self_eq xor.right_neutral)
  then show ?case by (rule rotate5_inj)
qed simp

lemma hash_mem_loop_append:
  "hash_mem_loop h (xs @ ys) = hash_mem_loop (hash_mem_loop h xs) ys"
  by (induction xs arbitrary: h) auto

lemma ucast_u8_u32_inj: "(ucast (a :: u8) :: u32) = ucast b \<longleftrightarrow> a = b"
  by (simp add: word_uint_eq_iff uint_up_ucast is_up)

text \<open>
  Two buffers of the same length that differ in exactly one byte have different hashes,
  wherever that byte is and whatever surrounds it.
\<close>
theorem hash_mem_one_byte:
  assumes "a \<noteq> b"
    and "n = unat len" "n = length pre + Suc (length post)"
  shows "hash_mem (pre @ a # post) len \<noteq> hash_mem (pre @ b # post) len"
proof
  let ?h = "hash_mem_loop len pre"
  assume "hash_mem (pre @ a # post) len = hash_mem (pre @ b # post) len"
  then have "(drop_bit 27 ?h XOR push_bit 5 ?h) XOR (ucast a :: u32) =
      (drop_bit 27 ?h XOR push_bit 5 ?h) XOR ucast b"
    using assms(2,3) by (auto simp: hash_mem_def hash_mem_loop_append dest: hash_mem_loop_inj)
  then have "(ucast a :: u32) = ucast b"
    by (metis (no_types) xor.assoc xor_self_eq xor.left_neutral)
  then show False using assms(1) by (simp add: ucast_u8_u32_inj)
qed

end
