(* ===== verification/Table_Spec.thy ===== *)
theory Table_Spec
  imports Prelude
begin

text \<open>
  The contract of the keyed tables the daemons rely on, as locales: \<open>insert_table\<close> is a table that
  can be filled, \<open>key_table\<close> adds removal (\<open>map.c\<close> of the name service) and \<open>replace_table\<close> adds
  overwriting (\<open>assoc.c\<close> of the domain mapper). What a client may conclude from the contract is
  proved here once, over whole sequences of operations, and reached through the interpretations in
  the theories of the providers.
\<close>

section \<open>Sequences of operations\<close>

datatype ('k, 'v) table_op = Put 'k 'v | Remove 'k

text \<open>A client that gives up at the first insertion that fails.\<close>

fun run_ops :: "('t \<Rightarrow> 'k \<Rightarrow> 'v \<Rightarrow> 't option) \<Rightarrow> ('t \<Rightarrow> 'k \<Rightarrow> 't) \<Rightarrow> 't \<Rightarrow>
    ('k, 'v) table_op list \<Rightarrow> 't option" where
  "run_ops put remove t [] = Some t"
| "run_ops put remove t (Put k v # ops) = (case put t k v of
     None \<Rightarrow> None | Some t' \<Rightarrow> run_ops put remove t' ops)"
| "run_ops put remove t (Remove k # ops) = run_ops put remove (remove t k) ops"

fun map_ops :: "('k \<rightharpoonup> 'v) \<Rightarrow> ('k, 'v) table_op list \<Rightarrow> ('k \<rightharpoonup> 'v)" where
  "map_ops f [] = f"
| "map_ops f (Put k v # ops) = map_ops (f(k \<mapsto> v)) ops"
| "map_ops f (Remove k # ops) = map_ops (f(k := None)) ops"

text \<open>No insertion of a key that is present.\<close>

fun fresh_ops :: "('k \<rightharpoonup> 'v) \<Rightarrow> ('k, 'v) table_op list \<Rightarrow> bool" where
  "fresh_ops f [] = True"
| "fresh_ops f (Put k v # ops) = (f k = None \<and> fresh_ops (f(k \<mapsto> v)) ops)"
| "fresh_ops f (Remove k # ops) = fresh_ops (f(k := None)) ops"

fun put_all :: "('t \<Rightarrow> 'k \<Rightarrow> 'v \<Rightarrow> 't option) \<Rightarrow> 't \<Rightarrow> ('k \<times> 'v) list \<Rightarrow> 't option" where
  "put_all put t [] = Some t"
| "put_all put t ((k, v) # kvs) = (case put t k v of
     None \<Rightarrow> None | Some t' \<Rightarrow> put_all put t' kvs)"

section \<open>The contracts\<close>

locale insert_table =
  fixes ok :: "'t \<Rightarrow> bool" and emp :: 't and get :: "'t \<Rightarrow> 'k \<Rightarrow> 'v option"
    and put :: "'t \<Rightarrow> 'k \<Rightarrow> 'v \<Rightarrow> 't option"
  assumes ok_emp: "ok emp"
    and get_emp: "get emp k = None"
    and put_fresh: "ok t \<Longrightarrow> get t k = None \<Longrightarrow> put t k v = Some t' \<Longrightarrow>
      ok t' \<and> get t' = (get t)(k \<mapsto> v)"
begin

lemma put_all_fresh:
  assumes "ok t" "distinct (map fst kvs)" "\<And>k. k \<in> fst ` set kvs \<Longrightarrow> get t k = None"
    "put_all put t kvs = Some t'"
  shows "ok t' \<and> get t' = get t ++ map_of kvs"
  using assms
proof (induction kvs arbitrary: t)
  case (Cons kv kvs)
  obtain k v where kv: "kv = (k, v)" by fastforce
  with Cons.prems(4) obtain t1 where t1: "put t k v = Some t1" "put_all put t1 kvs = Some t'"
    by (auto split: option.splits)
  have t1': "ok t1 \<and> get t1 = (get t)(k \<mapsto> v)"
    by (rule put_fresh [OF Cons.prems(1) _ t1(1)]) (use Cons.prems(3) kv in simp)
  have "ok t' \<and> get t' = get t1 ++ map_of kvs"
  proof (rule Cons.IH [OF _ _ _ t1(2)])
    show "get t1 k' = None" if "k' \<in> fst ` set kvs" for k'
      using that t1' Cons.prems(2,3) kv by auto
  qed (use t1' Cons.prems(2) in auto)
  moreover have "map_of kvs k = None"
    using Cons.prems(2) kv by (simp add: map_of_eq_None_iff)
  ultimately show ?case using t1' kv by (auto simp: fun_eq_iff map_add_def split: option.splits)
qed simp

end

locale key_table = insert_table +
  fixes remove :: "'a \<Rightarrow> 'b \<Rightarrow> 'a"
  assumes remove_ok: "ok t \<Longrightarrow> ok (remove t k) \<and> get (remove t k) = (get t)(k := None)"
begin

lemma run_ops_refines:
  assumes "ok t" "fresh_ops (get t) ops" "run_ops put remove t ops = Some t'"
  shows "ok t' \<and> get t' = map_ops (get t) ops"
  using assms
proof (induction ops arbitrary: t)
  case (Cons op ops)
  show ?case
  proof (cases op)
    case (Put k v)
    with Cons.prems(3) obtain t1 where "put t k v = Some t1" "run_ops put remove t1 ops = Some t'"
      by (auto split: option.splits)
    with put_fresh [OF Cons.prems(1), of k v t1] Cons.IH [of t1] Cons.prems(2) Put
    show ?thesis by (simp del: fun_upd_apply)
  next
    case (Remove k)
    with remove_ok [OF Cons.prems(1), of k] Cons.IH [of "remove t k"] Cons.prems
    show ?thesis by (simp del: fun_upd_apply)
  qed
qed simp

lemma put_remove:
  assumes "ok t" "get t k = None" "put t k v = Some t'"
  shows "get (remove t' k) = get t"
  using put_fresh [OF assms] remove_ok [of t' k] assms(2) by auto

end

locale replace_table = insert_table +
  assumes put_replace: "ok t \<Longrightarrow> put t k v = Some t' \<Longrightarrow> ok t' \<and> get t' = (get t)(k \<mapsto> v)"
begin

lemma put_all_replace:
  assumes "ok t" "put_all put t kvs = Some t'"
  shows "ok t' \<and> get t' = get t ++ map_of (rev kvs)"
  using assms
proof (induction kvs arbitrary: t)
  case (Cons kv kvs)
  obtain k v where kv: "kv = (k, v)" by fastforce
  with Cons.prems(2) obtain t1 where "put t k v = Some t1" "put_all put t1 kvs = Some t'"
    by (auto split: option.splits)
  with put_replace [OF Cons.prems(1), of k v t1] Cons.IH [of t1] kv
  show ?case by (auto simp: fun_eq_iff map_add_def split: option.splits)
qed simp

end

end
