(* ===== verification/Qrtr_Map.thy ===== *)
theory Qrtr_Map
  imports Table_Spec
begin

text \<open>
  The open-addressing hash table of \<open>qcom/qrtr/src/map.c\<close>. A slot is empty (\<open>NULL\<close>), a tombstone
  (the address of the static marker \<open>deleted\<close>) or a stored item with its key. \<open>map_reput\<close> and
  \<open>map_rehash\<close> call each other, so they carry fuel; two units are always enough
  (\<open>map_reput_total\<close>). \<open>alloc n\<close> says whether \<open>calloc\<close> can provide a table of \<open>n\<close> entries.
\<close>

section \<open>Data\<close>

datatype 'a slot = Empty | Deleted | Item (item_key: u32) (item_val: 'a)

record 'a hmap =
  msize :: nat
  mcount :: nat
  mdata :: "'a slot list"

fun is_item :: "'a slot \<Rightarrow> bool" where
  "is_item (Item k v) = True"
| "is_item s = False"

section \<open>Operations\<close>

definition map_create :: "'a hmap" where
  "map_create = \<lparr>msize = 0, mcount = 0, mdata = []\<rparr>"

text \<open>\<open>map_clear\<close> returns the cleared table and the items handed to \<open>release\<close>, in order.\<close>

fun clear_slots :: "'a slot list \<Rightarrow> 'a slot list \<times> 'a list" where
  "clear_slots [] = ([], [])"
| "clear_slots (s # ss) = (let (cs, rel) = clear_slots ss in
     case s of Empty \<Rightarrow> (Empty # cs, rel)
     | Deleted \<Rightarrow> (Empty # cs, rel)
     | Item k v \<Rightarrow> (Empty # cs, v # rel))"

definition map_clear :: "'a hmap \<Rightarrow> 'a hmap \<times> 'a list" where
  "map_clear m = (let (cs, rel) = clear_slots (take (msize m) (mdata m)) in
     (m\<lparr>mdata := cs @ drop (msize m) (mdata m), mcount := 0\<rparr>, rel))"

fun map_hash_loop :: "'a hmap \<Rightarrow> u32 \<Rightarrow> nat \<Rightarrow> nat \<Rightarrow> int \<times> 'a hmap" where
  "map_hash_loop m key 0 idx = (-2, m)"
| "map_hash_loop m key (Suc todo) idx = (case mdata m ! idx of
     Item k v \<Rightarrow> if k = key then (int idx, m)
       else map_hash_loop m key todo ((idx + 1) mod msize m)
   | _ \<Rightarrow> (int idx, m\<lparr>mcount := mcount m + 1\<rparr>))"

definition map_hash :: "'a hmap \<Rightarrow> u32 \<Rightarrow> int \<times> 'a hmap" where
  "map_hash m key = (if mcount m = msize m then (-1, m)
     else map_hash_loop m key (msize m) (unat key mod msize m))"

text \<open>
  The result of \<open>map_reput\<close> is the return code, the replaced item (\<open>*old\<close>) and the table;
  \<open>None\<close> is a run that needs more fuel. \<open>put_at\<close> is the tail of the function, after the loop.
\<close>

definition put_at :: "'a hmap \<Rightarrow> u32 \<Rightarrow> 'a option \<Rightarrow> nat \<Rightarrow> 'a option \<times> 'a hmap" where
  "put_at m key v i =
     ((case mdata m ! i of Item k x \<Rightarrow> Some x | _ \<Rightarrow> None),
      m\<lparr>mdata := (mdata m)[i := (case v of Some x \<Rightarrow> Item key x | None \<Rightarrow> Empty)]\<rparr>)"

function (sequential) map_reput ::
    "nat \<Rightarrow> (nat \<Rightarrow> bool) \<Rightarrow> 'a hmap \<Rightarrow> u32 \<Rightarrow> 'a option \<Rightarrow> (int \<times> 'a option \<times> 'a hmap) option"
  and map_rehash :: "nat \<Rightarrow> (nat \<Rightarrow> bool) \<Rightarrow> 'a hmap \<Rightarrow> (int \<times> 'a hmap) option"
  and rehash_loop ::
    "nat \<Rightarrow> (nat \<Rightarrow> bool) \<Rightarrow> 'a slot list \<Rightarrow> 'a hmap \<Rightarrow> (int \<times> 'a hmap) option" where
  "map_reput 0 alloc m key v = None"
| "map_reput (Suc fuel) alloc m key v = (case map_hash m key of (rc, m1) \<Rightarrow>
     if rc < 0 then
       (case map_rehash fuel alloc m1 of
          None \<Rightarrow> None
        | Some (rc', m2) \<Rightarrow>
            if rc' < 0 then Some (rc', None, m2) else map_reput fuel alloc m2 key v)
     else let (old, m2) = put_at m1 key v (nat rc) in Some (0, old, m2))"
| "map_rehash fuel alloc m =
     (if \<not> alloc (msize m + 256) then Some (-1, m)
      else rehash_loop fuel alloc (take (msize m) (mdata m))
        \<lparr>msize = msize m + 256, mcount = 0, mdata = replicate (msize m + 256) Empty\<rparr>)"
| "rehash_loop fuel alloc [] m = Some (0, m)"
| "rehash_loop fuel alloc (s # ss) m = (case s of
     Item k v \<Rightarrow> (case map_reput fuel alloc m k (Some v) of
         None \<Rightarrow> None
       | Some (rc, old, m') \<Rightarrow> if rc < 0 then Some (rc, m') else rehash_loop fuel alloc ss m')
   | _ \<Rightarrow> rehash_loop fuel alloc ss m)"
  by pat_completeness auto
termination
  by (relation "measures
      [\<lambda>x. case x of Inl (f, _) \<Rightarrow> f | Inr (Inl (f, _)) \<Rightarrow> f | Inr (Inr (f, _)) \<Rightarrow> f,
       \<lambda>x. case x of Inl _ \<Rightarrow> 0 | Inr (Inl _) \<Rightarrow> 2 | Inr (Inr _) \<Rightarrow> 1,
       \<lambda>x. case x of Inl _ \<Rightarrow> 0 | Inr (Inl _) \<Rightarrow> 0 | Inr (Inr (_, _, ss, _)) \<Rightarrow> length ss]") auto

definition map_put ::
    "nat \<Rightarrow> (nat \<Rightarrow> bool) \<Rightarrow> 'a hmap \<Rightarrow> u32 \<Rightarrow> 'a option \<Rightarrow> (int \<times> 'a hmap) option" where
  "map_put fuel alloc m key v =
     map_option (\<lambda>(rc, old, m'). (rc, m')) (map_reput fuel alloc m key v)"

fun map_find_loop :: "'a hmap \<Rightarrow> u32 \<Rightarrow> nat \<Rightarrow> nat \<Rightarrow> nat option" where
  "map_find_loop m key 0 idx = None"
| "map_find_loop m key (Suc todo) idx = (case mdata m ! idx of
     Empty \<Rightarrow> None
   | Deleted \<Rightarrow> map_find_loop m key todo ((idx + 1) mod msize m)
   | Item k v \<Rightarrow> if k = key then Some idx
       else map_find_loop m key todo ((idx + 1) mod msize m))"

definition map_find :: "'a hmap \<Rightarrow> u32 \<Rightarrow> nat option" where
  "map_find m key = (if msize m = 0 then None
     else map_find_loop m key (msize m) (unat key mod msize m))"

definition map_contains :: "'a hmap \<Rightarrow> u32 \<Rightarrow> bool" where
  "map_contains m key = (map_find m key \<noteq> None)"

definition map_get :: "'a hmap \<Rightarrow> u32 \<Rightarrow> 'a option" where
  "map_get m key = (case map_find m key of
     None \<Rightarrow> None
   | Some i \<Rightarrow> Some (item_val (mdata m ! i)))"

text \<open>\<open>map_remove\<close> returns 1 (\<open>!e\<close>) when the key is absent.\<close>

definition map_remove :: "'a hmap \<Rightarrow> u32 \<Rightarrow> int \<times> 'a hmap" where
  "map_remove m key = (case map_find m key of
     None \<Rightarrow> (1, m)
   | Some i \<Rightarrow> (0, m\<lparr>mdata := (mdata m)[i := Deleted], mcount := mcount m - 1\<rparr>))"

definition map_length :: "'a hmap option \<Rightarrow> nat" where
  "map_length mo = (case mo of None \<Rightarrow> 0 | Some m \<Rightarrow> mcount m)"

text \<open>An iterator is the index of its entry; \<open>None\<close> is the \<open>NULL\<close> that ends the loop.\<close>

function map_iter_from :: "'a hmap \<Rightarrow> nat \<Rightarrow> nat option" where
  "map_iter_from m i = (if i < msize m
     then (if is_item (mdata m ! i) then Some i else map_iter_from m (i + 1))
     else None)"
  by pat_completeness auto
termination
  by (relation "measure (\<lambda>(m, i). msize m - i)") auto

definition map_iter_first :: "'a hmap \<Rightarrow> nat option" where
  "map_iter_first m = map_iter_from m 0"

definition map_iter_next :: "'a hmap \<Rightarrow> nat option \<Rightarrow> nat option" where
  "map_iter_next m it = (case it of None \<Rightarrow> None | Some i \<Rightarrow> map_iter_from m (i + 1))"

definition map_iter_item :: "'a hmap \<Rightarrow> nat \<Rightarrow> 'a" where
  "map_iter_item m i = item_val (mdata m ! i)"

declare map_iter_from.simps [simp del]


section \<open>Well-formed tables\<close>

text \<open>
  \<open>map_wf\<close>: the size is the length of the array, the count is the number of items, and every item
  can be reached from the home slot of its key without crossing an empty slot.
  \<open>map_ok\<close> adds that no key is stored twice.
\<close>

abbreviation home :: "'a hmap \<Rightarrow> u32 \<Rightarrow> nat" where
  "home m k \<equiv> unat k mod msize m"

abbreviation slot_at :: "'a hmap \<Rightarrow> u32 \<Rightarrow> nat \<Rightarrow> 'a slot" where
  "slot_at m k j \<equiv> mdata m ! probe (msize m) (home m k) j"

definition probe_closed :: "'a hmap \<Rightarrow> bool" where
  "probe_closed m = (\<forall>i<msize m. \<forall>k v. mdata m ! i = Item k v \<longrightarrow>
     (\<exists>j<msize m. probe (msize m) (home m k) j = i \<and> (\<forall>j'<j. slot_at m k j' \<noteq> Empty)))"

definition map_wf :: "'a hmap \<Rightarrow> bool" where
  "map_wf m = (msize m = length (mdata m) \<and>
     mcount m = length (filter is_item (mdata m)) \<and> probe_closed m)"

definition keys_distinct :: "'a slot list \<Rightarrow> bool" where
  "keys_distinct ss = (\<forall>i<length ss. \<forall>j<length ss. \<forall>k v w.
     ss ! i = Item k v \<longrightarrow> ss ! j = Item k w \<longrightarrow> i = j)"

definition map_ok :: "'a hmap \<Rightarrow> bool" where
  "map_ok m = (map_wf m \<and> keys_distinct (mdata m))"

lemma map_okD [dest]: "map_ok m \<Longrightarrow> map_wf m"
  by (simp add: map_ok_def)

lemma map_wf_create [simp, intro]: "map_wf map_create"
  by (simp add: map_wf_def map_create_def probe_closed_def)

lemma map_ok_create [simp, intro]: "map_ok map_create"
  by (simp add: map_ok_def keys_distinct_def map_create_def map_wf_def probe_closed_def)

lemma is_item_iff: "is_item s \<longleftrightarrow> (\<exists>k v. s = Item k v)"
  by (cases s) auto

subsection \<open>The probe loops\<close>

lemma map_find_loop_Some:
  assumes "map_find_loop m key todo (probe (msize m) h j) = Some i"
  shows "\<exists>j'. j \<le> j' \<and> j' < j + todo \<and> i = probe (msize m) h j' \<and> (\<exists>v. mdata m ! i = Item key v)"
  using assms
proof (induction todo arbitrary: j)
  case (Suc todo)
  show ?case
  proof (cases "\<exists>v. mdata m ! probe (msize m) h j = Item key v")
    case True
    then show ?thesis using Suc.prems by (intro exI [of _ j]) auto
  next
    case False
    then have "map_find_loop m key todo (probe (msize m) h (Suc j)) = Some i"
      using Suc.prems by (auto simp: probe_simps [simplified] split: slot.splits if_splits)
    from Suc.IH [OF this] obtain j' where "Suc j \<le> j'" "j' < Suc j + todo"
      "i = probe (msize m) h j'" "\<exists>v. mdata m ! i = Item key v" by blast
    then show ?thesis by (intro exI [of _ j']) auto
  qed
qed simp

lemma map_find_loop_None:
  assumes "map_find_loop m key todo (probe (msize m) h j) = None"
    and "j \<le> j'" "j' < j + todo" "mdata m ! probe (msize m) h j' = Item key v"
  shows "\<exists>j''. j \<le> j'' \<and> j'' < j' \<and> mdata m ! probe (msize m) h j'' = Empty"
  using assms
proof (induction todo arbitrary: j)
  case (Suc todo)
  show ?case
  proof (cases "mdata m ! probe (msize m) h j = Empty")
    case True
    with Suc.prems have "j \<noteq> j'" by auto
    with True Suc.prems show ?thesis by (intro exI [of _ j]) auto
  next
    case False
    with Suc.prems have rest: "map_find_loop m key todo (probe (msize m) h (Suc j)) = None"
      by (auto simp: probe_simps [simplified] split: slot.splits if_splits)
    from Suc.prems False have "j \<noteq> j'" by (auto split: slot.splits if_splits)
    with Suc.prems have "Suc j \<le> j'" "j' < Suc j + todo" by auto
    from Suc.IH [OF rest this Suc.prems(4)] obtain j'' where "Suc j \<le> j''" "j'' < j'"
      "mdata m ! probe (msize m) h j'' = Empty" by blast
    then show ?thesis by (intro exI [of _ j'']) auto
  qed
qed simp

lemma map_hash_loop_cases:
  assumes "map_hash_loop m key todo (probe (msize m) h j) = (rc, m')"
  shows "(rc = -2 \<and> m' = m \<and>
      (\<forall>j'. j \<le> j' \<longrightarrow> j' < j + todo \<longrightarrow> is_item (mdata m ! probe (msize m) h j'))) \<or>
    (\<exists>j'. j \<le> j' \<and> j' < j + todo \<and> rc = int (probe (msize m) h j') \<and>
      (\<forall>t. j \<le> t \<longrightarrow> t < j' \<longrightarrow> (\<exists>k v. mdata m ! probe (msize m) h t = Item k v \<and> k \<noteq> key)) \<and>
      (if is_item (mdata m ! nat rc) then item_key (mdata m ! nat rc) = key \<and> m' = m
       else m' = m\<lparr>mcount := mcount m + 1\<rparr>))"
  using assms
proof (induction todo arbitrary: j)
  case (Suc todo)
  let ?s = "mdata m ! probe (msize m) h j"
  show ?case
  proof (cases "\<exists>k v. ?s = Item k v \<and> k \<noteq> key")
    case True
    then have rec: "map_hash_loop m key todo (probe (msize m) h (Suc j)) = (rc, m')"
      using Suc.prems by (auto simp: probe_simps [simplified])
    from Suc.IH [OF rec] show ?thesis
    proof (elim disjE conjE exE)
      assume "rc = -2" "m' = m"
        and all: "\<forall>j'. Suc j \<le> j' \<longrightarrow> j' < Suc j + todo \<longrightarrow> is_item (mdata m ! probe (msize m) h j')"
      moreover have "is_item (mdata m ! probe (msize m) h j')" if "j \<le> j'" "j' < j + Suc todo" for j'
        using that all True by (cases "j' = j") (auto simp: is_item_iff)
      ultimately show ?thesis by blast
    next
      fix j'
      assume j': "Suc j \<le> j'" "j' < Suc j + todo" "rc = int (probe (msize m) h j')"
        and before: "\<forall>t. Suc j \<le> t \<longrightarrow> t < j' \<longrightarrow>
          (\<exists>k v. mdata m ! probe (msize m) h t = Item k v \<and> k \<noteq> key)"
        and res: "if is_item (mdata m ! nat rc) then item_key (mdata m ! nat rc) = key \<and> m' = m
          else m' = m\<lparr>mcount := mcount m + 1\<rparr>"
      have "\<exists>k v. mdata m ! probe (msize m) h t = Item k v \<and> k \<noteq> key" if "j \<le> t" "t < j'" for t
        using that before True by (cases "t = j") auto
      with j' res show ?thesis by (intro disjI2 exI [of _ j']) auto
    qed
  next
    case False
    with Suc.prems show ?thesis
      by (intro disjI2 exI [of _ j]) (auto split: slot.splits if_splits)
  qed
qed auto


subsection \<open>Lookup\<close>

lemma map_find_Some:
  assumes "map_wf m" "map_find m key = Some i"
  shows "i < msize m \<and> (\<exists>v. mdata m ! i = Item key v)"
proof -
  from assms(2) have n: "0 < msize m" and
    "map_find_loop m key (msize m) (probe (msize m) (home m key) 0) = Some i"
    by (auto simp: map_find_def probe_def split: if_splits)
  from map_find_loop_Some [OF this(2)] n show ?thesis by auto
qed

lemma map_find_None:
  assumes "map_wf m" "map_find m key = None" "i < msize m"
  shows "mdata m ! i \<noteq> Item key v"
proof
  assume item: "mdata m ! i = Item key v"
  from assms(1,3) item obtain j where j: "j < msize m" "probe (msize m) (home m key) j = i"
    "\<forall>j'<j. slot_at m key j' \<noteq> Empty"
    unfolding map_wf_def probe_closed_def by blast
  have "map_find_loop m key (msize m) (probe (msize m) (home m key) 0) = None"
    using assms(2,3) by (auto simp: map_find_def probe_def split: if_splits)
  from map_find_loop_None [OF this _ _ item [folded j(2)]] j show False by auto
qed

lemma map_get_None:
  "map_wf m \<Longrightarrow> map_get m key = None \<longleftrightarrow> (\<forall>v. Item key v \<notin> set (mdata m))"
proof -
  assume wf: "map_wf m"
  then have len: "msize m = length (mdata m)" by (simp add: map_wf_def)
  show ?thesis
  proof (cases "map_find m key")
    case None
    then show ?thesis using map_find_None [OF wf None] len
      by (auto simp: map_get_def in_set_conv_nth)
  next
    case (Some i)
    then show ?thesis using map_find_Some [OF wf Some] len
      by (auto simp: map_get_def) (metis nth_mem)
  qed
qed

lemma map_get_Some:
  assumes "map_ok m"
  shows "map_get m key = Some v \<longleftrightarrow> Item key v \<in> set (mdata m)"
proof -
  from assms have wf: "map_wf m" and dist: "keys_distinct (mdata m)"
    and len: "msize m = length (mdata m)" by (auto simp: map_ok_def map_wf_def)
  show ?thesis
  proof (cases "map_find m key")
    case None
    then show ?thesis using map_find_None [OF wf None] len
      by (auto simp: map_get_def in_set_conv_nth)
  next
    case (Some i)
    then obtain w where i: "i < length (mdata m)" "mdata m ! i = Item key w"
      using map_find_Some [OF wf Some] len by auto
    have "w = v" if "Item key v \<in> set (mdata m)"
      using that i dist unfolding in_set_conv_nth keys_distinct_def by (metis slot.inject)
    with Some i show ?thesis by (auto simp: map_get_def) (metis nth_mem)
  qed
qed

lemma map_contains_iff: "map_contains m key \<longleftrightarrow> map_get m key \<noteq> None"
  by (simp add: map_contains_def map_get_def split: option.splits)

subsection \<open>Removing\<close>

lemma probe_closed_update:
  assumes "probe_closed m" "i < msize m" "length (mdata m) = msize m" "s \<noteq> Empty"
    and "\<And>k v. s = Item k v \<Longrightarrow>
      \<exists>j<msize m. probe (msize m) (home m k) j = i \<and> (\<forall>j'<j. slot_at m k j' \<noteq> Empty)"
  shows "probe_closed (m\<lparr>mdata := (mdata m)[i := s], mcount := c\<rparr>)"
  unfolding probe_closed_def
proof (intro allI impI)
  fix i' k v
  let ?d = "(mdata m)[i := s]" and ?n = "msize m"
  assume "i' < msize (m\<lparr>mdata := ?d, mcount := c\<rparr>)"
    and it: "mdata (m\<lparr>mdata := ?d, mcount := c\<rparr>) ! i' = Item k v"
  then have i': "i' < ?n" by simp
  have "\<exists>j<?n. probe ?n (home m k) j = i' \<and> (\<forall>j'<j. slot_at m k j' \<noteq> Empty)"
  proof (cases "i' = i")
    case True
    with it assms(2,3) have "s = Item k v" by simp
    with assms(5) True show ?thesis by simp
  next
    case False
    with it have "mdata m ! i' = Item k v" by simp
    with assms(1) i' show ?thesis by (simp add: probe_closed_def)
  qed
  then obtain j where "j < ?n" "probe ?n (home m k) j = i'" "\<forall>j'<j. slot_at m k j' \<noteq> Empty"
    by blast
  moreover have "?d ! x \<noteq> Empty" if "mdata m ! x \<noteq> Empty" "x < ?n" for x
    using that assms(3,4) by (cases "x = i") auto
  ultimately show "\<exists>j<msize (m\<lparr>mdata := ?d, mcount := c\<rparr>).
      probe (msize (m\<lparr>mdata := ?d, mcount := c\<rparr>)) (home (m\<lparr>mdata := ?d, mcount := c\<rparr>) k) j = i' \<and>
      (\<forall>j'<j. slot_at (m\<lparr>mdata := ?d, mcount := c\<rparr>) k j' \<noteq> Empty)"
    using i' by auto
qed

lemma map_remove_wf:
  assumes "map_wf m" "map_remove m key = (rc, m')"
  shows "map_wf m'"
proof (cases "map_find m key")
  case (Some i)
  with assms have i: "i < msize m" "is_item (mdata m ! i)" "msize m = length (mdata m)"
    using map_find_Some [OF assms(1) Some] by (auto simp: map_wf_def)
  have m': "m' = m\<lparr>mdata := (mdata m)[i := Deleted], mcount := mcount m - 1\<rparr>"
    using assms(2) Some by (simp add: map_remove_def)
  have "probe_closed m'"
    unfolding m' using assms(1) i by (intro probe_closed_update) (auto simp: map_wf_def)
  moreover have "mcount m' = length (filter is_item (mdata m'))"
    using length_filter_update [of i "mdata m" is_item Deleted] i assms(1)
    by (simp add: m' map_wf_def)
  ultimately show ?thesis using i by (simp add: map_wf_def m')
qed (use assms in \<open>auto simp: map_remove_def\<close>)

lemma keys_distinct_update:
  assumes "keys_distinct ss" "i < length ss"
    and "\<And>k v w j. s = Item k v \<Longrightarrow> j < length ss \<Longrightarrow> ss ! j = Item k w \<Longrightarrow> j = i"
  shows "keys_distinct (ss[i := s])"
  unfolding keys_distinct_def
proof (intro allI impI)
  fix a b k v w
  assume "a < length (ss[i := s])" "b < length (ss[i := s])"
    "ss[i := s] ! a = Item k v" "ss[i := s] ! b = Item k w"
  then have ab: "a < length ss" "b < length ss"
    "(if a = i then s else ss ! a) = Item k v" "(if b = i then s else ss ! b) = Item k w"
    by (auto simp: nth_list_update)
  show "a = b"
  proof (cases "a = i \<or> b = i")
    case True
    then show ?thesis using ab assms(3) by (auto split: if_splits)
  next
    case False
    then show ?thesis using ab assms(1) by (simp add: keys_distinct_def)
  qed
qed

lemma map_remove_ok:
  assumes "map_ok m" "map_remove m key = (rc, m')"
  shows "map_ok m' \<and> map_get m' = (map_get m)(key := None) \<and>
         (rc = 0 \<longleftrightarrow> map_get m key \<noteq> None)"
proof (cases "map_find m key")
  case None
  then have "map_get m key = None" by (simp add: map_get_def)
  with None assms show ?thesis by (auto simp: map_remove_def fun_upd_idem)
next
  case (Some i)
  note ok = assms(1)
  have wf: "map_wf m" and len: "msize m = length (mdata m)"
    using ok by (auto simp: map_wf_def map_ok_def)
  obtain v where i: "i < length (mdata m)" "mdata m ! i = Item key v"
    using map_find_Some [OF wf Some] len by auto
  have m': "m' = m\<lparr>mdata := (mdata m)[i := Deleted], mcount := mcount m - 1\<rparr>" and rc: "rc = 0"
    using assms(2) Some by (auto simp: map_remove_def)
  have ok': "map_ok m'"
    using map_remove_wf [OF wf assms(2)] ok i
    by (auto simp: map_ok_def m' intro!: keys_distinct_update)
  have items: "Item k x \<in> set (mdata m') \<longleftrightarrow> Item k x \<in> set (mdata m) \<and> k \<noteq> key" for k x
  proof -
    have "Item k x \<in> set (mdata m') \<longleftrightarrow> (\<exists>j<length (mdata m). j \<noteq> i \<and> mdata m ! j = Item k x)"
      using i by (simp add: m' in_set_list_update_iff)
    also have "\<dots> \<longleftrightarrow> Item k x \<in> set (mdata m) \<and> k \<noteq> key"
      using i ok unfolding map_ok_def keys_distinct_def in_set_conv_nth by (metis slot.inject)
    finally show ?thesis .
  qed
  have "map_get m' k = ((map_get m)(key := None)) k" for k
  proof (cases "k = key")
    case True
    with items map_get_None [of m' k] ok' show ?thesis by auto
  next
    case False
    with items map_get_Some [OF ok', of k] map_get_Some [OF ok, of k]
    have "map_get m' k = Some x \<longleftrightarrow> map_get m k = Some x" for x by simp
    with False show ?thesis by (metis fun_upd_other not_Some_eq)
  qed
  moreover have "map_get m key \<noteq> None" using Some by (simp add: map_get_def)
  ultimately show ?thesis using ok' rc by auto
qed


subsection \<open>Storing where there is room\<close>

lemma map_hash_room:
  assumes wf: "map_wf m" and room: "mcount m < msize m"
  obtains i j m1 where "map_hash m key = (int i, m1)" "i < msize m" "j < msize m"
    "i = probe (msize m) (home m key) j"
    "\<forall>t<j. \<exists>k v. slot_at m key t = Item k v \<and> k \<noteq> key"
    "m1 = m\<lparr>mcount := mcount m + (if is_item (mdata m ! i) then 0 else 1)\<rparr>"
    "is_item (mdata m ! i) \<longrightarrow> item_key (mdata m ! i) = key"
proof -
  obtain rc m1 where h: "map_hash m key = (rc, m1)" by fastforce
  let ?h = "home m key"
  from h room have loop: "map_hash_loop m key (msize m) (probe (msize m) ?h 0) = (rc, m1)"
    by (simp add: map_hash_def probe_def)
  have full: False if "\<forall>j<msize m. is_item (mdata m ! probe (msize m) ?h j)"
  proof -
    have "is_item (mdata m ! i)" if "i < msize m" for i
      using that \<open>\<forall>j<msize m. _\<close> probe_surj [of i "msize m" ?h] by force
    moreover obtain i where "i < length (mdata m)" "\<not> is_item (mdata m ! i)"
      using length_filter_less_ex [of is_item "mdata m"] wf room by (auto simp: map_wf_def)
    ultimately show False using wf by (simp add: map_wf_def)
  qed
  from map_hash_loop_cases [OF loop] full obtain j where j: "j < msize m"
    "rc = int (probe (msize m) ?h j)"
    "\<forall>t<j. \<exists>k v. slot_at m key t = Item k v \<and> k \<noteq> key"
    "if is_item (mdata m ! nat rc) then item_key (mdata m ! nat rc) = key \<and> m1 = m
     else m1 = m\<lparr>mcount := mcount m + 1\<rparr>" by auto
  let ?i = "probe (msize m) ?h j"
  show ?thesis
  proof (rule that)
    show "map_hash m key = (int ?i, m1)" using h j(2) by simp
    show "?i < msize m" using j(1) by simp
    show "m1 = m\<lparr>mcount := mcount m + (if is_item (mdata m ! ?i) then 0 else 1)\<rparr>"
      using j(2,4) by (auto split: if_splits)
    show "is_item (mdata m ! ?i) \<longrightarrow> item_key (mdata m ! ?i) = key"
      using j(2,4) by (auto split: if_splits)
  qed (use j in auto)
qed

lemma map_reput_room:
  assumes wf: "map_wf m" and room: "mcount m < msize m"
  obtains i old m' where "map_reput (Suc fuel) alloc m key (Some v) = Some (0, old, m')"
    "i < msize m" "mdata m' = (mdata m)[i := Item key v]" "msize m' = msize m"
    "mcount m' \<le> mcount m + 1" "map_wf m'"
    "old = (if is_item (mdata m ! i) then Some (item_val (mdata m ! i)) else None)"
    "is_item (mdata m ! i) \<longrightarrow> item_key (mdata m ! i) = key"
    "mdata m ! i = Empty \<longrightarrow> (\<forall>p<msize m. \<forall>w. mdata m ! p \<noteq> Item key w)"
proof -
  obtain i j m1 where h: "map_hash m key = (int i, m1)"
    "i < msize m" "j < msize m" "i = probe (msize m) (home m key) j"
    "\<forall>t<j. \<exists>k v. slot_at m key t = Item k v \<and> k \<noteq> key"
    "m1 = m\<lparr>mcount := mcount m + (if is_item (mdata m ! i) then 0 else 1)\<rparr>"
    "is_item (mdata m ! i) \<longrightarrow> item_key (mdata m ! i) = key"
    by (rule map_hash_room [OF wf room, of key])
  have len: "length (mdata m) = msize m" using wf by (simp add: map_wf_def)
  let ?old = "if is_item (mdata m ! i) then Some (item_val (mdata m ! i)) else None"
  let ?m' = "m\<lparr>mdata := (mdata m)[i := Item key v],
    mcount := mcount m + (if is_item (mdata m ! i) then 0 else 1)\<rparr>"
  have run: "map_reput (Suc fuel) alloc m key (Some v) = Some (0, ?old, ?m')"
    using h(1,6) by (auto simp: put_at_def split: slot.splits)
  have "probe_closed ?m'"
    using wf h(2-5) len by (intro probe_closed_update) (fastforce simp: map_wf_def)+
  then have wf': "map_wf ?m'"
    using length_filter_update [of i "mdata m" is_item "Item key v"] h(2) wf len
    by (auto simp: map_wf_def)
  have absent: "\<forall>p<msize m. \<forall>w. mdata m ! p \<noteq> Item key w" if "mdata m ! i = Empty"
  proof (intro allI impI notI)
    fix p w assume p: "p < msize m" "mdata m ! p = Item key w"
    with wf obtain jp where jp: "jp < msize m" "probe (msize m) (home m key) jp = p"
      "\<forall>j'<jp. slot_at m key j' \<noteq> Empty" unfolding map_wf_def probe_closed_def by blast
    have "\<not> jp < j" using h(5) jp(2) p(2) by fastforce
    moreover have "jp \<noteq> j" using that h(4) jp(2) p(2) by auto
    ultimately have "slot_at m key j \<noteq> Empty" using jp(3) by simp
    with that h(4) show False by simp
  qed
  show ?thesis
    by (rule that [OF run h(2)]) (use wf' h(7) absent in auto)
qed

lemma map_reput_room_ok:
  assumes ok: "map_ok m" and room: "mcount m < msize m"
    and fresh: "map_get m key = None \<or> Deleted \<notin> set (mdata m)"
  obtains m' where "map_reput (Suc fuel) alloc m key (Some v) = Some (0, map_get m key, m')"
    "map_ok m'" "msize m' = msize m" "mcount m' \<le> mcount m + 1"
    "map_get m' = (map_get m)(key \<mapsto> v)"
    "Deleted \<notin> set (mdata m) \<Longrightarrow> Deleted \<notin> set (mdata m')"
    "\<And>k x. Item k x \<in> set (mdata m') \<longleftrightarrow>
       (if k = key then x = v else Item k x \<in> set (mdata m))"
proof -
  have wf: "map_wf m" and len: "length (mdata m) = msize m"
    using ok by (auto simp: map_ok_def map_wf_def)
  obtain i old m' where
    run: "map_reput (Suc fuel) alloc m key (Some v) = Some (0, old, m')"
    and i: "i < msize m" and d: "mdata m' = (mdata m)[i := Item key v]" "msize m' = msize m"
    "mcount m' \<le> mcount m + 1" "map_wf m'"
    and old: "old = (if is_item (mdata m ! i) then Some (item_val (mdata m ! i)) else None)"
    and key: "is_item (mdata m ! i) \<longrightarrow> item_key (mdata m ! i) = key"
    and absent: "mdata m ! i = Empty \<longrightarrow> (\<forall>p<msize m. \<forall>w. mdata m ! p \<noteq> Item key w)"
    by (rule map_reput_room [OF wf room])
  have only: "p = i" if "p < msize m" "mdata m ! p = Item key w" for p w
  proof (cases "mdata m ! i")
    case Empty
    with absent that show ?thesis by blast
  next
    case Deleted
    with fresh i len have "map_get m key = None" by (metis nth_mem)
    with map_get_None [OF wf] that len show ?thesis by (metis nth_mem)
  next
    case (Item k x)
    with key have "k = key" by simp
    with Item that ok i len show ?thesis by (auto simp: map_ok_def keys_distinct_def)
  qed
  have ok': "map_ok m'"
    unfolding map_ok_def d(1) using d(4) ok i only len
    by (auto simp: map_ok_def intro!: keys_distinct_update)
  have items: "Item k x \<in> set (mdata m') \<longleftrightarrow> (if k = key then x = v else Item k x \<in> set (mdata m))"
    for k x
  proof -
    have "Item k x \<in> set (mdata m') \<longleftrightarrow>
        (k = key \<and> x = v) \<or> (\<exists>j<msize m. j \<noteq> i \<and> mdata m ! j = Item k x)"
      using i len by (simp add: d(1) in_set_list_update_iff)
    moreover have "(\<exists>j<msize m. j \<noteq> i \<and> mdata m ! j = Item k x) \<longleftrightarrow>
        Item k x \<in> set (mdata m) \<and> k \<noteq> key"
      using key only len unfolding in_set_conv_nth by (metis is_item.simps(1) slot.sel(1))
    ultimately show ?thesis by auto
  qed
  have get: "map_get m' = (map_get m)(key \<mapsto> v)"
    by (rule ext, rule option_eqI) (auto simp: map_get_Some [OF ok'] map_get_Some [OF ok] items)
  have "old = map_get m key"
  proof (cases "is_item (mdata m ! i)")
    case True
    then have "Item key (item_val (mdata m ! i)) \<in> set (mdata m)"
      using key i len by (metis is_item_iff nth_mem slot.sel(2) slot.sel(1))
    then show ?thesis using old True by (simp flip: map_get_Some [OF ok])
  next
    case False
    then have "map_get m key = None"
      using only len unfolding map_get_None [OF wf] by (metis in_set_conv_nth is_item.simps(1))
    then show ?thesis using old False by simp
  qed
  with run have run': "map_reput (Suc fuel) alloc m key (Some v) = Some (0, map_get m key, m')"
    by simp
  have "Deleted \<notin> set (mdata m')" if "Deleted \<notin> set (mdata m)"
    using that set_update_subset_insert [of "mdata m" i "Item key v"] by (auto simp: d(1))
  then show ?thesis by (rule that [OF run' ok' d(2,3) get _ items])
qed


subsection \<open>Growing the table\<close>

lemma map_wf_fresh: "map_wf \<lparr>msize = n, mcount = 0, mdata = replicate n Empty\<rparr>"
  by (auto simp: map_wf_def probe_closed_def)

lemma map_ok_fresh: "map_ok \<lparr>msize = n, mcount = 0, mdata = replicate n Empty\<rparr>"
  using map_wf_fresh by (auto simp: map_ok_def keys_distinct_def)

lemma keys_distinct_Cons:
  assumes "keys_distinct (s # ss)"
  shows "keys_distinct ss" and "s = Item k v \<Longrightarrow> Item k w \<notin> set ss"
proof -
  show "keys_distinct ss"
    unfolding keys_distinct_def
  proof (intro allI impI)
    fix i j k v w
    assume "i < length ss" "j < length ss" "ss ! i = Item k v" "ss ! j = Item k w"
    then have "Suc i = Suc j"
      using assms unfolding keys_distinct_def
      by (metis Suc_less_eq length_Cons nth_Cons_Suc)
    then show "i = j" by simp
  qed
  show "Item k w \<notin> set ss" if "s = Item k v"
  proof
    assume "Item k w \<in> set ss"
    then obtain i where "i < length ss" "ss ! i = Item k w" by (auto simp: in_set_conv_nth)
    then have "0 = Suc i"
      using assms that unfolding keys_distinct_def
      by (metis Suc_less_eq length_Cons nth_Cons_0 nth_Cons_Suc zero_less_Suc)
    then show False by simp
  qed
qed

lemma rehash_loop_wf:
  assumes "map_wf m" "mcount m + length (filter is_item ss) \<le> msize m"
  shows "\<exists>m'. rehash_loop (Suc fuel) alloc ss m = Some (0, m') \<and> map_wf m' \<and>
     msize m' = msize m \<and> mcount m' \<le> mcount m + length (filter is_item ss) \<and>
     (\<forall>k x. Item k x \<in> set (mdata m') \<longrightarrow> Item k x \<in> set (mdata m) \<union> set ss)"
  using assms
proof (induction ss arbitrary: m)
  case (Cons s ss)
  show ?case
  proof (cases s)
    case (Item k v)
    with Cons.prems have "mcount m < msize m" by simp
    obtain i old m' where m': "map_reput (Suc fuel) alloc m k (Some v) = Some (0, old, m')" "map_wf m'"
      "msize m' = msize m" "mcount m' \<le> mcount m + 1" "mdata m' = (mdata m)[i := Item k v]"
      using map_reput_room [OF Cons.prems(1) \<open>mcount m < msize m\<close>, of fuel alloc k v] by metis
    then have "set (mdata m') \<subseteq> insert (Item k v) (set (mdata m))"
      by (simp add: set_update_subset_insert)
    then show ?thesis using Cons.IH [of m'] Cons.prems Item m' by fastforce
  qed (use Cons in auto)
qed simp

lemma rehash_loop_ok:
  assumes "map_ok m" "mcount m + length (filter is_item ss) \<le> msize m"
    "Deleted \<notin> set (mdata m)" "keys_distinct ss"
    "\<And>k v w. Item k v \<in> set ss \<Longrightarrow> Item k w \<notin> set (mdata m)"
  shows "\<exists>m'. rehash_loop (Suc fuel) alloc ss m = Some (0, m') \<and> map_ok m' \<and>
     Deleted \<notin> set (mdata m') \<and>
     (\<forall>k v. Item k v \<in> set (mdata m') \<longleftrightarrow> Item k v \<in> set (mdata m) \<or> Item k v \<in> set ss)"
  using assms
proof (induction ss arbitrary: m)
  case (Cons s ss)
  note kd = keys_distinct_Cons [OF Cons.prems(4)]
  show ?case
  proof (cases s)
    case (Item k v)
    have wf: "map_wf m" using Cons.prems(1) by (simp add: map_ok_def)
    from Item Cons.prems have room: "mcount m < msize m" by simp
    have none: "map_get m k = None" using Cons.prems(5) Item by (auto simp: map_get_None [OF wf])
    from map_reput_room_ok [OF Cons.prems(1) room disjI1, OF none, of fuel alloc v] obtain m' where
      put: "map_reput (Suc fuel) alloc m k (Some v) = Some (0, map_get m k, m')"
      and ok': "map_ok m'" and sz: "msize m' = msize m" "mcount m' \<le> mcount m + 1"
      and nodel: "Deleted \<notin> set (mdata m')"
      and items: "\<And>k' x. Item k' x \<in> set (mdata m') \<longleftrightarrow>
        (if k' = k then x = v else Item k' x \<in> set (mdata m))"
      using Cons.prems(3) by metis
    have "mcount m' + length (filter is_item ss) \<le> msize m'"
      using Cons.prems(2) Item sz by simp
    moreover have "Item k' w' \<notin> set (mdata m')" if "Item k' w \<in> set ss" for k' w w'
      using that Item kd(2) Cons.prems(5) items by (metis list.set_intros(2))
    ultimately obtain m'' where "rehash_loop (Suc fuel) alloc ss m' = Some (0, m'')"
      "map_ok m''" "Deleted \<notin> set (mdata m'')"
      "\<forall>k v. Item k v \<in> set (mdata m'') \<longleftrightarrow> Item k v \<in> set (mdata m') \<or> Item k v \<in> set ss"
      using Cons.IH [OF ok' _ nodel kd(1)] by blast
    moreover have "Item k w \<notin> set (mdata m)" for w
      using Cons.prems(5) Item by (metis list.set_intros(1))
    ultimately show ?thesis using put Item items by auto
  qed (use Cons kd in auto)
qed simp

lemma map_hash_full:
  assumes "map_wf m" "map_hash m key = (rc, m1)" "rc < 0"
  shows "m1 = m" "mcount m = msize m"
proof -
  have "\<not> mcount m < msize m"
    using map_hash_room [OF assms(1), of key] assms(2,3) by (metis of_nat_less_0_iff prod.inject)
  moreover have "mcount m \<le> msize m" using assms(1) by (simp add: map_wf_def)
  ultimately show full: "mcount m = msize m" by simp
  with assms(2) show "m1 = m" by (simp add: map_hash_def)
qed

lemma map_rehash_ok:
  assumes ok: "map_ok m" and al: "alloc (msize m + 256)"
  obtains m' where "map_rehash (Suc fuel) alloc m = Some (0, m')" "map_ok m'"
    "Deleted \<notin> set (mdata m')" "msize m' = msize m + 256" "mcount m' < msize m'"
    "map_get m' = map_get m"
proof -
  let ?m0 = "\<lparr>msize = msize m + 256, mcount = 0, mdata = replicate (msize m + 256) Empty\<rparr> :: 'a hmap"
  have len: "length (mdata m) = msize m" and kd: "keys_distinct (mdata m)"
    using ok by (auto simp: map_ok_def map_wf_def)
  have fl: "length (filter is_item (mdata m)) \<le> msize m" using len length_filter_le by metis
  have run: "map_rehash (Suc fuel) alloc m = rehash_loop (Suc fuel) alloc (mdata m) ?m0"
    using al len by simp
  from rehash_loop_ok [OF map_ok_fresh, of "msize m + 256" "mdata m" fuel alloc] kd fl
  obtain m' where m': "rehash_loop (Suc fuel) alloc (mdata m) ?m0 = Some (0, m')" "map_ok m'"
    "Deleted \<notin> set (mdata m')"
    "\<And>k v. Item k v \<in> set (mdata m') \<longleftrightarrow> Item k v \<in> set (mdata m)" by auto
  from rehash_loop_wf [OF map_wf_fresh, of "msize m + 256" "mdata m" fuel alloc] fl m'(1)
  have sz: "msize m' = msize m + 256" "mcount m' < msize m'" by auto
  have "map_get m' = map_get m"
    by (rule ext, rule option_eqI) (simp add: map_get_Some [OF m'(2)] map_get_Some [OF ok] m'(4))
  with that run m' sz show ?thesis by simp
qed


lemma map_wf_count: "map_wf m \<Longrightarrow> mcount m \<le> msize m"
  by (simp add: map_wf_def)

lemma map_reput_total:
  assumes wf: "map_wf m"
  obtains rc old m' where "map_reput (Suc (Suc fuel)) alloc m key (Some v) = Some (rc, old, m')"
    "rc = 0 \<or> rc = -1 \<and> m' = m \<and> mcount m = msize m \<and> \<not> alloc (msize m + 256)"
    "map_wf m'"
    "\<forall>k x. Item k x \<in> set (mdata m') \<longrightarrow> Item k x \<in> set (mdata m) \<or> k = key \<and> x = v"
proof (cases "mcount m < msize m")
  case True
  obtain i old m' where m': "map_reput (Suc (Suc fuel)) alloc m key (Some v) = Some (0, old, m')"
    "map_wf m'" "mdata m' = (mdata m)[i := Item key v]"
    using map_reput_room [OF wf True, of "Suc fuel" alloc key v] by metis
  then have "set (mdata m') \<subseteq> insert (Item key v) (set (mdata m))"
    by (simp add: set_update_subset_insert)
  with m' show ?thesis by (intro that) auto
next
  case False
  then have full: "mcount m = msize m" using map_wf_count [OF wf] by simp
  then have h: "map_hash m key = (-1, m)" by (simp add: map_hash_def)
  show ?thesis
  proof (cases "alloc (msize m + 256)")
    case True
    have len: "length (mdata m) = msize m" using wf by (simp add: map_wf_def)
    have fl: "length (filter is_item (mdata m)) \<le> msize m" using len length_filter_le by metis
    with rehash_loop_wf [OF map_wf_fresh, of "msize m + 256" "mdata m" fuel alloc]
    obtain m2 where m2: "map_rehash (Suc fuel) alloc m = Some (0, m2)" "map_wf m2" "mcount m2 < msize m2"
      "\<forall>k x. Item k x \<in> set (mdata m2) \<longrightarrow> Item k x \<in> set (mdata m)"
      using True len by auto
    obtain i old m' where m': "map_reput (Suc fuel) alloc m2 key (Some v) = Some (0, old, m')"
      "map_wf m'" "mdata m' = (mdata m2)[i := Item key v]"
      using map_reput_room [OF m2(2,3), of fuel alloc key v] by metis
    then have "set (mdata m') \<subseteq> insert (Item key v) (set (mdata m2))"
      by (simp add: set_update_subset_insert)
    moreover have "map_reput (Suc (Suc fuel)) alloc m key (Some v) = Some (0, old, m')"
      using h m2(1) m'(1) by simp
    ultimately show ?thesis using m2(4) m'(2) by (intro that) auto
  next
    case False
    then show ?thesis using h full wf that by simp
  qed
qed

lemma map_reput_ok:
  assumes ok: "map_ok m" and fresh: "map_get m key = None \<or> Deleted \<notin> set (mdata m)"
    and al: "mcount m < msize m \<or> alloc (msize m + 256)"
  obtains m' where
    "map_reput (Suc (Suc fuel)) alloc m key (Some v) = Some (0, map_get m key, m')"
    "map_ok m'" "map_get m' = (map_get m)(key \<mapsto> v)"
proof (cases "mcount m < msize m")
  case True
  from map_reput_room_ok [OF ok True fresh, of "Suc fuel" alloc v] show ?thesis using that by metis
next
  case False
  then have "mcount m = msize m" using map_wf_count [of m] ok by (simp add: map_ok_def)
  then have h: "map_hash m key = (-1, m)" by (simp add: map_hash_def)
  from False al have "alloc (msize m + 256)" by simp
  from map_rehash_ok [where alloc = alloc, OF ok this, of fuel] obtain m2 where m2:
    "map_rehash (Suc fuel) alloc m = Some (0, m2)" "map_ok m2"
    "Deleted \<notin> set (mdata m2)" "mcount m2 < msize m2" "map_get m2 = map_get m" by metis
  from map_reput_room_ok [OF m2(2,4) disjI2, OF m2(3), of fuel alloc key v] obtain m' where
    "map_reput (Suc fuel) alloc m2 key (Some v) = Some (0, map_get m2 key, m')"
    "map_ok m'" "map_get m' = (map_get m2)(key \<mapsto> v)" by metis
  with h m2(1,5) that show ?thesis by simp
qed

lemma map_put_ok:
  assumes "map_ok m" "map_get m key = None"
    "mcount m < msize m \<or> alloc (msize m + 256)"
  obtains m' where "map_put (Suc (Suc fuel)) alloc m key (Some v) = Some (0, m')"
    "map_ok m'" "map_get m' = (map_get m)(key \<mapsto> v)"
  using map_reput_ok [where alloc = alloc, OF assms(1) disjI1, OF assms(2,3), of fuel v] that
  by (auto simp: map_put_def)

lemma map_put_total:
  assumes "map_wf m"
  obtains rc m' where "map_put (Suc (Suc fuel)) alloc m key (Some v) = Some (rc, m')"
    "rc = 0 \<or> rc = -1 \<and> m' = m \<and> mcount m = msize m \<and> \<not> alloc (msize m + 256)"
    "map_wf m'"
proof -
  from map_reput_total [OF assms, of fuel alloc key v] obtain rc old m' where
    "map_reput (Suc (Suc fuel)) alloc m key (Some v) = Some (rc, old, m')"
    "rc = 0 \<or> rc = -1 \<and> m' = m \<and> mcount m = msize m \<and> \<not> alloc (msize m + 256)"
    "map_wf m'" by metis
  then show ?thesis by (intro that) (simp_all add: map_put_def)
qed

lemma map_put_cases:
  assumes ok: "map_ok m" and none: "map_get m key = None"
    and run: "map_put (Suc (Suc fuel)) alloc m key (Some v) = Some (rc, m')"
  shows "(rc = 0 \<and> map_ok m' \<and> map_get m' = (map_get m)(key \<mapsto> v)) \<or> (rc = -1 \<and> m' = m)"
proof (cases "mcount m < msize m \<or> alloc (msize m + 256)")
  case True
  from map_put_ok [where alloc = alloc, OF ok none True, of fuel v] run show ?thesis by auto
next
  case False
  then have "mcount m = msize m" using map_wf_count [of m] ok by (simp add: map_ok_def)
  with False run show ?thesis by (simp add: map_put_def map_hash_def)
qed

section \<open>Iteration and clearing\<close>

text \<open>The body of \<open>map_for_each\<close> sees the items in slot order, starting from an iterator.\<close>

function map_for_each :: "'a hmap \<Rightarrow> nat option \<Rightarrow> 'a list" where
  "map_for_each m None = []"
| "map_for_each m (Some i) = (if i < msize m
     then map_iter_item m i # map_for_each m (map_iter_next m (Some i)) else [])"
  by pat_completeness auto

lemma map_iter_from_Some:
  "map_iter_from m i = Some j \<Longrightarrow> i \<le> j \<and> j < msize m \<and> is_item (mdata m ! j)"
proof (induction "msize m - i" arbitrary: i)
  case (Suc n)
  then have i: "i < msize m" by simp
  show ?case
  proof (cases "is_item (mdata m ! i)")
    case False
    with Suc i have "map_iter_from m (i + 1) = Some j" by (simp add: map_iter_from.simps [of m i])
    with Suc.hyps(1) [of "i + 1"] Suc.hyps(2) have "i + 1 \<le> j \<and> j < msize m \<and> is_item (mdata m ! j)"
      by simp
    then show ?thesis by simp
  qed (use Suc in \<open>simp add: map_iter_from.simps [of m i] split: if_splits\<close>)
qed (simp add: map_iter_from.simps)

termination map_for_each
  by (relation "measure (\<lambda>(m, it). case it of None \<Rightarrow> 0 | Some i \<Rightarrow> Suc (msize m - i))")
    (auto simp: map_iter_next_def split: option.splits dest!: map_iter_from_Some)

definition map_items :: "'a hmap \<Rightarrow> 'a list" where
  "map_items m = map_for_each m (map_iter_first m)"

lemma map_for_each_from:
  assumes "msize m = length (mdata m)" "i \<le> msize m"
  shows "map_for_each m (map_iter_from m i) = map item_val (filter is_item (drop i (mdata m)))"
  using assms
proof (induction "msize m - i" arbitrary: i)
  case (Suc n)
  then have d: "drop i (mdata m) = mdata m ! i # drop (i + 1) (mdata m)"
    by (simp add: Cons_nth_drop_Suc)
  have IH: "map_for_each m (map_iter_from m (i + 1)) =
      map item_val (filter is_item (drop (i + 1) (mdata m)))"
    using Suc by simp
  show ?case
  proof (cases "is_item (mdata m ! i)")
    case True
    then have "map_iter_from m i = Some i" using Suc.hyps(2) by (simp add: map_iter_from.simps)
    then show ?thesis using Suc.hyps(2) True IH d by (simp add: map_iter_next_def map_iter_item_def)
  next
    case False
    then show ?thesis using Suc.hyps(2) IH d by (simp add: map_iter_from.simps [of m i])
  qed
qed (simp add: map_iter_from.simps)

lemma map_items_eq: "map_wf m \<Longrightarrow> map_items m = map item_val (filter is_item (mdata m))"
  using map_for_each_from [of m 0] by (simp add: map_items_def map_iter_first_def map_wf_def)

lemma clear_slots_eq:
  "clear_slots ss = (replicate (length ss) Empty, map item_val (filter is_item ss))"
  by (induction ss) (auto split: slot.splits)

lemma map_items_iff:
  assumes "map_ok m"
  shows "v \<in> set (map_items m) \<longleftrightarrow> (\<exists>k. map_get m k = Some v)"
proof -
  have "map_wf m" using assms by (simp add: map_ok_def)
  then show ?thesis
    by (auto simp: map_get_Some [OF assms] map_items_eq is_item_iff image_iff)
qed

lemma item_keys_distinct:
  "keys_distinct ss \<Longrightarrow> distinct (map item_key (filter is_item ss))"
proof (induction ss)
  case (Cons s ss)
  show ?case
  proof (cases s)
    case (Item k v)
    with keys_distinct_Cons(2) [OF Cons.prems] have "k \<notin> item_key ` (set ss \<inter> Collect is_item)"
      by (auto simp: is_item_iff)
    with Cons keys_distinct_Cons(1) Item show ?thesis by auto
  qed (use Cons keys_distinct_Cons(1) in auto)
qed simp

lemma map_count_card:
  assumes "map_ok m"
  shows "mcount m = card (dom (map_get m))"
proof -
  let ?is = "filter is_item (mdata m)"
  have "dom (map_get m) = set (map item_key ?is)"
    by (auto simp: dom_def map_get_Some [OF assms] is_item_iff image_iff)
      (metis is_item.simps(1) slot.sel(1))
  moreover have "distinct (map item_key ?is)"
    using assms by (simp add: map_ok_def item_keys_distinct)
  ultimately have "card (dom (map_get m)) = length ?is" using distinct_card by fastforce
  then show ?thesis using assms by (simp add: map_ok_def map_wf_def)
qed


section \<open>Writing to a stored item\<close>

text \<open>A client that holds a pointer to a stored item changes the item in place.\<close>

definition item_write :: "'a hmap \<Rightarrow> u32 \<Rightarrow> 'a \<Rightarrow> 'a hmap" where
  "item_write m key v = (case map_find m key of
     None \<Rightarrow> m
   | Some i \<Rightarrow> m\<lparr>mdata := (mdata m)[i := Item key v]\<rparr>)"

lemma item_write_ok:
  assumes ok: "map_ok m" and old: "map_get m key \<noteq> None"
  shows "map_ok (item_write m key v)" "map_get (item_write m key v) = (map_get m)(key \<mapsto> v)"
proof -
  have wf: "map_wf m" and len: "length (mdata m) = msize m" and kd: "keys_distinct (mdata m)"
    using ok by (auto simp: map_ok_def map_wf_def)
  from old obtain i where i: "map_find m key = Some i" by (auto simp: map_get_def split: option.splits)
  with map_find_Some [OF wf] obtain x where x: "i < msize m" "mdata m ! i = Item key x" by blast
  let ?m = "m\<lparr>mdata := (mdata m)[i := Item key v]\<rparr>"
  have "probe_closed ?m"
  proof -
    have "\<exists>j<msize m. probe (msize m) (home m key) j = i \<and> (\<forall>j'<j. slot_at m key j' \<noteq> Empty)"
      using wf x unfolding map_wf_def probe_closed_def by blast
    with probe_closed_update [of m i "Item key v" "mcount m"] wf x(1) len show ?thesis
      by (simp add: map_wf_def)
  qed
  moreover have "length (filter is_item (mdata ?m)) = length (filter is_item (mdata m))"
    using length_filter_update [of i "mdata m" is_item "Item key v"] x len by simp
  moreover have "keys_distinct (mdata ?m)"
  proof -
    have "keys_distinct ((mdata m)[i := Item key v])"
    proof (rule keys_distinct_update [OF kd])
      show "j = i" if "Item key v = Item k y" "j < length (mdata m)" "mdata m ! j = Item k w" for k y w j
        using kd that x len unfolding keys_distinct_def by (metis slot.inject)
    qed (use x len in simp)
    then show ?thesis by simp
  qed
  ultimately have ok': "map_ok ?m" using wf by (simp add: map_ok_def map_wf_def)
  then show "map_ok (item_write m key v)" using i by (simp add: item_write_def)
  have only: "mdata m ! j = Item key w \<longrightarrow> j = i" if "j < msize m" for j w
    using kd that x len unfolding keys_distinct_def by metis
  have "Item k y \<in> set (mdata ?m) \<longleftrightarrow> (if k = key then y = v else Item k y \<in> set (mdata m))" for k y
  proof -
    have "Item k y \<in> set (mdata ?m) \<longleftrightarrow>
        (k = key \<and> y = v) \<or> (\<exists>j<msize m. j \<noteq> i \<and> mdata m ! j = Item k y)"
      using x(1) len by (simp add: in_set_list_update_iff)
    moreover have "(\<exists>j<msize m. j \<noteq> i \<and> mdata m ! j = Item k y) \<longleftrightarrow>
        Item k y \<in> set (mdata m) \<and> k \<noteq> key"
      using only len x(2) unfolding in_set_conv_nth by (metis slot.inject)
    ultimately show ?thesis by auto
  qed
  then have "map_get ?m = (map_get m)(key \<mapsto> v)"
    by (intro ext option_eqI) (auto simp: map_get_Some [OF ok'] map_get_Some [OF ok])
  then show "map_get (item_write m key v) = (map_get m)(key \<mapsto> v)" using i by (simp add: item_write_def)
qed

section \<open>The contract\<close>

definition table_put :: "(nat \<Rightarrow> bool) \<Rightarrow> 'a hmap \<Rightarrow> u32 \<Rightarrow> 'a \<Rightarrow> 'a hmap option" where
  "table_put alloc m key v = (case map_put 2 alloc m key (Some v) of
     None \<Rightarrow> None
   | Some (rc, m') \<Rightarrow> if rc = 0 then Some m' else None)"

definition table_remove :: "'a hmap \<Rightarrow> u32 \<Rightarrow> 'a hmap" where
  "table_remove m key = snd (map_remove m key)"

lemma table_put_fresh:
  assumes "map_ok m" "map_get m k = None" "table_put alloc m k v = Some m'"
  shows "map_ok m' \<and> map_get m' = (map_get m)(k \<mapsto> v)"
proof -
  from assms(3) have "map_put (Suc (Suc 0)) alloc m k (Some v) = Some (0, m')"
    by (auto simp: table_put_def numeral_2_eq_2 split: option.splits if_splits)
  from map_put_cases [OF assms(1,2) this] show ?thesis by simp
qed

interpretation qmap: key_table map_ok map_create map_get "table_put alloc" table_remove for alloc
proof unfold_locales
  show "map_ok map_create" by (rule map_ok_create)
  show "map_get map_create k = None" for k :: u32
    by (simp add: map_get_def map_find_def map_create_def)
  show "map_ok (table_remove m k) \<and> map_get (table_remove m k) = (map_get m)(k := None)"
    if "map_ok m" for m :: "'b hmap" and k
    using map_remove_ok [OF that, of k] by (metis prod.collapse table_remove_def)
qed (rule table_put_fresh)

section \<open>Reusing a tombstone\<close>

lemma map_find_loop_hit:
  assumes "\<forall>t. j \<le> t \<and> t < j' \<longrightarrow> (\<exists>k v. mdata m ! probe (msize m) h t = Item k v \<and> k \<noteq> key)"
    "mdata m ! probe (msize m) h j' = Item key v" "j \<le> j'" "j' < j + todo"
  shows "map_find_loop m key todo (probe (msize m) h j) = Some (probe (msize m) h j')"
  using assms
proof (induction todo arbitrary: j)
  case (Suc todo)
  show ?case
  proof (cases "j = j'")
    case False
    with Suc.prems(1,3) obtain k w where "mdata m ! probe (msize m) h j = Item k w" "k \<noteq> key"
      by (metis le_neq_implies_less order_refl)
    moreover have "map_find_loop m key todo (probe (msize m) h (Suc j)) = Some (probe (msize m) h j')"
      using Suc.prems False by (intro Suc.IH) auto
    ultimately show ?thesis by (simp add: probe_Suc [simplified])
  qed (use Suc.prems in simp)
qed simp

lemma map_hash_loop_hit:
  assumes "\<forall>t. j \<le> t \<and> t < j' \<longrightarrow> (\<exists>k v. mdata m ! probe (msize m) h t = Item k v \<and> k \<noteq> key)"
    "mdata m ! probe (msize m) h j' = Deleted" "j \<le> j'" "j' < j + todo"
  shows "map_hash_loop m key todo (probe (msize m) h j) =
    (int (probe (msize m) h j'), m\<lparr>mcount := mcount m + 1\<rparr>)"
  using assms
proof (induction todo arbitrary: j)
  case (Suc todo)
  show ?case
  proof (cases "j = j'")
    case False
    with Suc.prems(1,3) obtain k w where "mdata m ! probe (msize m) h j = Item k w" "k \<noteq> key"
      by (metis le_neq_implies_less order_refl)
    moreover have "map_hash_loop m key todo (probe (msize m) h (Suc j)) =
        (int (probe (msize m) h j'), m\<lparr>mcount := mcount m + 1\<rparr>)"
      using Suc.prems False by (intro Suc.IH) auto
    ultimately show ?thesis by (simp add: probe_Suc [simplified])
  qed (use Suc.prems in simp)
qed simp

lemma map_put_tombstone:
  assumes len: "length (mdata m) = msize m" and room: "mcount m < msize m"
    and j: "j < msize m" "slot_at m key j = Deleted"
    "\<forall>t<j. \<exists>k x. slot_at m key t = Item k x \<and> k \<noteq> key"
  obtains m' where "map_put (Suc fuel) alloc m key (Some v) = Some (0, m')"
    "map_remove m' key = (0, m)"
proof
  let ?i = "probe (msize m) (home m key) j"
  let ?m' = "m\<lparr>mcount := mcount m + 1, mdata := (mdata m)[?i := Item key v]\<rparr>"
  have i: "?i < length (mdata m)" using j(1) len by simp
  have "map_hash_loop m key (msize m) (probe (msize m) (home m key) 0) =
      (int ?i, m\<lparr>mcount := mcount m + 1\<rparr>)"
    by (rule map_hash_loop_hit) (use j in auto)
  then show "map_put (Suc fuel) alloc m key (Some v) = Some (0, ?m')"
    using room j(2) by (simp add: map_put_def map_hash_def put_at_def probe_def)
  have "probe (msize m) (home m key) t \<noteq> ?i" if "t < j" for t
    using j that by fastforce
  then have "map_find_loop ?m' key (msize ?m') (probe (msize ?m') (home ?m' key) 0) =
      Some (probe (msize ?m') (home ?m' key) j)"
    by (intro map_find_loop_hit [where v = v]) (use j i in \<open>auto simp: nth_list_update\<close>)
  then have "map_find ?m' key = Some ?i" using j(1) by (simp add: map_find_def probe_def)
  moreover have "(mdata m)[?i := Deleted] = mdata m" using j(2) by (metis list_update_id)
  ultimately show "map_remove ?m' key = (0, m)" by (simp add: map_remove_def)
qed


section \<open>Properties\<close>

abbreviation two_slots :: "nat hmap" where
  "two_slots \<equiv> \<lparr>msize = 2, mcount = 1, mdata = [Deleted, Item 2 7]\<rparr>"

lemma map_ok_two_slots: "map_ok two_slots"
proof -
  have "probe_closed two_slots"
    unfolding probe_closed_def
  proof (intro allI impI)
    fix i k v assume "i < msize two_slots" "mdata two_slots ! i = Item k v"
    then have "i = 1 \<and> k = 2" by (auto simp: less_Suc_eq nth_Cons numeral_2_eq_2 split: nat.splits)
    then show "\<exists>j<msize two_slots. probe (msize two_slots) (home two_slots k) j = i \<and>
        (\<forall>j'<j. slot_at two_slots k j' \<noteq> Empty)"
      by (intro exI [of _ 1]) (simp add: probe_def)
  qed
  then show ?thesis
    by (auto simp: map_ok_def map_wf_def keys_distinct_def less_Suc_eq nth_Cons numeral_2_eq_2
        split: nat.splits)
qed

text \<open>
  C21: inserting a key that is not stored succeeds whenever a slot is free or the enlarged table can
  be allocated; the table stays well-formed with distinct keys and the lookup function gains
  exactly that binding, also across a rehash.
\<close>

theorem map_put_refines:
  assumes "map_ok m" "map_get m key = None" "mcount m < msize m \<or> alloc (msize m + 256)"
  shows "\<exists>m'. map_put (Suc (Suc fuel)) alloc m key (Some v) = Some (0, m') \<and>
    map_ok m' \<and> map_get m' = (map_get m)(key \<mapsto> v)"
  using map_put_ok [where alloc = alloc, OF assms] by blast

theorem map_put_refines_witness:
  "\<exists>m'. map_put (Suc (Suc 0)) (\<lambda>_. False) two_slots 5 (Some 9) = Some (0, m') \<and>
    map_ok m' \<and> map_get m' = (map_get two_slots)(5 \<mapsto> 9)"
  by (rule map_put_refines [OF map_ok_two_slots]) code_simp+

text \<open>
  C22: on every well-formed table the insertion returns, with two units of fuel for the mutual
  recursion of \<open>map_reput\<close> and \<open>map_rehash\<close>. Its result is 0, or -1 with the table unchanged,
  and the latter only when the table is full and the larger one cannot be allocated. The table
  that comes back is well-formed.
\<close>

theorem map_put_returns:
  assumes "map_wf m"
  shows "\<exists>rc m'. map_put (Suc (Suc fuel)) alloc m key (Some v) = Some (rc, m') \<and> map_wf m' \<and>
    (rc = 0 \<or> rc = -1 \<and> m' = m \<and> mcount m = msize m \<and> \<not> alloc (msize m + 256))"
  using map_put_total [OF assms, of fuel alloc key v] by blast

theorem map_put_returns_witness:
  "\<exists>rc m'. map_put (Suc (Suc 0)) (\<lambda>_. False) (map_create :: nat hmap) 5 (Some 1) = Some (rc, m') \<and>
    map_wf m' \<and> (rc = 0 \<or> rc = -1 \<and> m' = map_create \<and> mcount (map_create :: nat hmap) =
      msize (map_create :: nat hmap) \<and> \<not> False)"
  using map_put_returns [OF map_wf_create, of 0 "\<lambda>_. False" 5 "1::nat"] by simp

text \<open>
  C3: any sequence of insertions of absent keys and removals, run on a table created empty, leaves a
  table that looks up what the same sequence of updates gives on a finite map. Lookups never see a
  removed binding or miss a stored one, however many tombstones and rehashes lie in between.
\<close>

theorem map_history:
  assumes "fresh_ops Map.empty ops" "run_ops (table_put alloc) table_remove map_create ops = Some m"
  shows "map_ok m \<and> map_get m = map_ops Map.empty ops \<and> mcount m = card (dom (map_ops Map.empty ops))"
proof -
  have e: "map_get (map_create :: 'a hmap) = Map.empty" by (rule ext) (rule qmap.get_emp)
  have "map_ok m \<and> map_get m = map_ops Map.empty ops"
    using qmap.run_ops_refines [OF qmap.ok_emp, of ops alloc m] assms by (simp add: e)
  then show ?thesis using map_count_card [of m] by simp
qed

theorem map_history_witness:
  "\<exists>m. run_ops (table_put (\<lambda>_. True)) table_remove map_create
      [Put 1 (10::nat), Put 257 20, Remove 1, Put 513 30] = Some m \<and> map_ok m \<and>
    map_get m 257 = Some 20 \<and> map_get m 1 = None \<and> map_get m 513 = Some 30"
proof -
  let ?ops = "[Put 1 (10::nat), Put 257 20, Remove 1, Put 513 30] :: (u32, nat) table_op list"
  have "run_ops (table_put (\<lambda>_. True)) table_remove map_create ?ops \<noteq> None" by code_simp
  then obtain m where m: "run_ops (table_put (\<lambda>_. True)) table_remove map_create ?ops = Some m"
    by blast
  from map_history [OF _ m] show ?thesis using m by simp
qed

text \<open>
  C23: removing a key makes exactly that binding disappear, keeps the table well-formed, and reports
  0 just when the key was stored.
\<close>

theorem map_remove_refines:
  assumes "map_ok m"
  shows "map_ok (snd (map_remove m key)) \<and>
    map_get (snd (map_remove m key)) = (map_get m)(key := None) \<and>
    (fst (map_remove m key) = 0 \<longleftrightarrow> map_contains m key)"
  using map_remove_ok [OF assms, of key "fst (map_remove m key)" "snd (map_remove m key)"]
  by (simp add: map_contains_iff)

theorem map_remove_refines_witness:
  "map_ok (snd (map_remove two_slots 2)) \<and>
    map_get (snd (map_remove two_slots 2)) = (map_get two_slots)(2 := None) \<and>
    (fst (map_remove two_slots 2) = 0 \<longleftrightarrow> map_contains two_slots 2)"
  by (rule map_remove_refines [OF map_ok_two_slots])

text \<open>
  C31: a \<open>map_for_each\<close> loop visits every stored item exactly once: the items seen are the values of
  the lookup function and their number is \<open>map_length\<close>.
\<close>

theorem map_for_each_visits:
  assumes "map_ok m"
  shows "set (map_items m) = ran (map_get m) \<and> length (map_items m) = map_length (Some m)"
proof -
  have "map_wf m" using assms by (simp add: map_ok_def)
  then have "length (map_items m) = map_length (Some m)"
    by (simp add: map_items_eq map_length_def map_wf_def)
  then show ?thesis using map_items_iff [OF assms] by (auto simp: ran_def)
qed

theorem map_for_each_visits_witness:
  "set (map_items two_slots) = ran (map_get two_slots) \<and>
    length (map_items two_slots) = map_length (Some two_slots)"
  by (rule map_for_each_visits [OF map_ok_two_slots])

text \<open>
  C35: replacing a key that is stored behind a tombstone does not replace it. \<open>map_hash\<close> takes the
  tombstone before it has looked for the key further along, so the table holds the key twice, and
  removing the key afterwards brings back the table of before, with the old item.
\<close>

theorem map_put_keeps_stale_item:
  assumes "map_ok m" "mcount m < msize m" "map_get m key = Some old"
    and "j < msize m" "slot_at m key j = Deleted"
    and "\<forall>t<j. \<exists>k x. slot_at m key t = Item k x \<and> k \<noteq> key"
  shows "\<exists>m'. map_put (Suc (Suc fuel)) alloc m key (Some v) = Some (0, m') \<and>
    map_get (snd (map_remove m' key)) key = Some old"
proof -
  have "length (mdata m) = msize m" using assms(1) by (simp add: map_ok_def map_wf_def)
  from map_put_tombstone [OF this assms(2,4,5,6), of "Suc fuel" alloc v] assms(3)
  show ?thesis by (metis snd_conv)
qed

theorem map_put_keeps_stale_item_witness:
  "\<exists>m'. map_put (Suc (Suc 0)) (\<lambda>_. True) two_slots 2 (Some 9) = Some (0, m') \<and>
    map_get (snd (map_remove m' 2)) 2 = Some 7"
proof (rule map_put_keeps_stale_item [OF map_ok_two_slots, where j = 0])
  show "map_get two_slots 2 = Some 7" by code_simp
qed (simp_all add: probe_def)

end
