(* ===== verification/List_Spec.thy ===== *)
theory List_Spec
  imports Prelude
begin

text \<open>
  The contract of the intrusive lists: a state of the store represents a sequence of distinct item
  addresses, and the operations of the list headers append, remove and step through it. The two
  loops the daemons write over such lists, \<open>list_for_each\<close> and \<open>list_for_each_safe\<close> with a removal
  in the body, are defined over the operations and proved correct once from the contract.
\<close>

section \<open>Loops\<close>

text \<open>\<open>for_each\<close> collects the items the body sees; \<open>None\<close> is a loop that runs out of fuel.\<close>

fun for_each :: "nat \<Rightarrow> ('s \<Rightarrow> 'p \<Rightarrow> 'p option) \<Rightarrow> 's \<Rightarrow> 'p option \<Rightarrow> 'p list option" where
  "for_each fuel nxt s None = Some []"
| "for_each 0 nxt s (Some x) = None"
| "for_each (Suc fuel) nxt s (Some x) = map_option ((#) x) (for_each fuel nxt s (nxt s x))"

text \<open>
  The next item is read before the body runs, and the body removes the items that satisfy \<open>P\<close>.
  \<open>None\<close> is a loop that runs out of fuel or a removal that dereferences \<open>NULL\<close>.
\<close>

fun sweep :: "nat \<Rightarrow> ('s \<Rightarrow> 'p \<Rightarrow> 'p option) \<Rightarrow> ('s \<Rightarrow> 'p \<Rightarrow> 's option) \<Rightarrow> ('p \<Rightarrow> bool) \<Rightarrow> 's \<Rightarrow>
    'p option \<Rightarrow> 's option" where
  "sweep fuel nxt remove P s None = Some s"
| "sweep 0 nxt remove P s (Some x) = None"
| "sweep (Suc fuel) nxt remove P s (Some x) = (let bkup = nxt s x in
     if P x then (case remove s x of
         None \<Rightarrow> None
       | Some s' \<Rightarrow> sweep fuel nxt remove P s' bkup)
     else sweep fuel nxt remove P s bkup)"

fun head_opt :: "'a list \<Rightarrow> 'a option" where
  "head_opt [] = None"
| "head_opt (x # xs) = Some x"

section \<open>The contract\<close>

locale item_list =
  fixes repr :: "'s \<Rightarrow> 'p list \<Rightarrow> bool"
    and init :: "'s \<Rightarrow> 's" and append :: "'s \<Rightarrow> 'p \<Rightarrow> 's" and remove :: "'s \<Rightarrow> 'p \<Rightarrow> 's option"
    and first :: "'s \<Rightarrow> 'p option" and nxt :: "'s \<Rightarrow> 'p \<Rightarrow> 'p option" and fresh :: "'s \<Rightarrow> 'p \<Rightarrow> bool"
  assumes repr_distinct: "repr s xs \<Longrightarrow> distinct xs"
    and repr_init: "repr (init s) []"
    and repr_append: "repr s xs \<Longrightarrow> x \<notin> set xs \<Longrightarrow> fresh s x \<Longrightarrow> repr (append s x) (xs @ [x])"
    and repr_remove: "repr s xs \<Longrightarrow> x \<in> set xs \<Longrightarrow> \<exists>s'. remove s x = Some s' \<and> repr s' (remove1 x xs)"
    and repr_first: "repr s xs \<Longrightarrow> first s = head_opt xs"
    and repr_next: "repr s (xs @ x # ys) \<Longrightarrow> nxt s x = head_opt ys"
begin

lemma for_each_from:
  "repr s (xs @ ys) \<Longrightarrow> length ys \<le> fuel \<Longrightarrow> for_each fuel nxt s (head_opt ys) = Some ys"
proof (induction ys arbitrary: xs fuel)
  case (Cons y ys)
  from Cons.prems(2) obtain f where f: "fuel = Suc f" "length ys \<le> f"
    by (cases fuel) auto
  from Cons.prems(1) have "for_each f nxt s (head_opt ys) = Some ys"
    using Cons.IH [of "xs @ [y]" f] f by simp
  then show ?case using repr_next [OF Cons.prems(1)] f by simp
qed simp

lemma for_each_all:
  assumes "repr s xs" "length xs \<le> fuel"
  shows "for_each fuel nxt s (first s) = Some xs"
  using for_each_from [of s "[]" xs fuel] assms repr_first by simp

lemma sweep_from:
  assumes "repr s (xs @ ys)" "length ys \<le> fuel"
  shows "\<exists>s'. sweep fuel nxt remove P s (head_opt ys) = Some s' \<and>
    repr s' (xs @ filter (\<lambda>y. \<not> P y) ys)"
  using assms
proof (induction ys arbitrary: s xs fuel)
  case (Cons y ys)
  from Cons.prems(2) obtain f where f: "fuel = Suc f" "length ys \<le> f"
    by (cases fuel) auto
  have bk: "nxt s y = head_opt ys" by (rule repr_next [OF Cons.prems(1)])
  show ?case
  proof (cases "P y")
    case True
    have d: "y \<notin> set xs" using repr_distinct [OF Cons.prems(1)] by auto
    obtain s1 where s1: "remove s y = Some s1" "repr s1 (remove1 y (xs @ y # ys))"
      using repr_remove [OF Cons.prems(1)] by force
    with d have "repr s1 (xs @ ys)" by (simp add: remove1_append)
    from Cons.IH [OF this f(2)] True bk f(1) s1(1) show ?thesis by simp
  next
    case False
    from Cons.IH [of s "xs @ [y]" f] Cons.prems(1) f False bk show ?thesis by simp
  qed
qed simp

lemma sweep_all:
  assumes "repr s xs" "length xs \<le> fuel"
  shows "\<exists>s'. sweep fuel nxt remove P s (first s) = Some s' \<and> repr s' (filter (\<lambda>y. \<not> P y) xs)"
  using sweep_from [of s "[]" xs fuel P] assms repr_first by simp

end

end
