(* ===== verification/Qrtr_List.thy ===== *)
theory Qrtr_List
  imports List_Spec
begin

text \<open>
  The intrusive doubly linked list of \<open>qcom/qrtr/src/list.h\<close>. Items are addresses; the store gives
  the \<open>next\<close> and \<open>prev\<close> fields of every \<open>struct list_item\<close>, and \<open>None\<close> is the null pointer. An
  operation that would dereference a null pointer returns \<open>None\<close>.
\<close>

section \<open>Data\<close>

type_synonym ptr = "nat option"

record list_state =
  next_of :: "nat \<Rightarrow> ptr"
  prev_of :: "nat \<Rightarrow> ptr"
  head :: ptr
  tail :: ptr

section \<open>Operations\<close>

definition set_next :: "nat \<Rightarrow> ptr \<Rightarrow> list_state \<Rightarrow> list_state" where
  "set_next x p s = s\<lparr>next_of := (next_of s)(x := p)\<rparr>"

definition set_prev :: "nat \<Rightarrow> ptr \<Rightarrow> list_state \<Rightarrow> list_state" where
  "set_prev x p s = s\<lparr>prev_of := (prev_of s)(x := p)\<rparr>"

definition list_init :: "list_state \<Rightarrow> list_state" where
  "list_init s = s\<lparr>head := None, tail := None\<rparr>"

definition list_append :: "list_state \<Rightarrow> nat \<Rightarrow> list_state" where
  "list_append s item =
    (let s = set_next item None s;
         s = set_prev item (tail s) s;
         s = (case tail s of
                Some t \<Rightarrow> set_next t (Some item) s
              | None \<Rightarrow> s\<lparr>head := Some item\<rparr>)
     in s\<lparr>tail := Some item\<rparr>)"

definition list_prepend :: "list_state \<Rightarrow> nat \<Rightarrow> list_state" where
  "list_prepend s item =
    (let s = set_prev item None s;
         s = set_next item (head s) s;
         s = (if head s = None then s\<lparr>tail := Some item\<rparr> else s)
     in s\<lparr>head := Some item\<rparr>)"

definition list_insert :: "list_state \<Rightarrow> ptr \<Rightarrow> nat \<Rightarrow> list_state" where
  "list_insert s after item = (case after of
     None \<Rightarrow> list_prepend s item
   | Some a \<Rightarrow>
      (let s = set_prev item (Some a) s;
           s = set_next item (next_of s a) s;
           s = set_next a (Some item) s;
           s = (case next_of s item of Some n \<Rightarrow> set_prev n (Some item) s | None \<Rightarrow> s)
       in if tail s = Some a then s\<lparr>tail := Some item\<rparr> else s))"

definition list_remove :: "list_state \<Rightarrow> nat \<Rightarrow> list_state option" where
  "list_remove s item =
    (let s = (case next_of s item of Some n \<Rightarrow> set_prev n (prev_of s item) s | None \<Rightarrow> s)
     in map_option (\<lambda>s. set_prev item None (set_next item None s))
      (if head s = Some item then
         let s = s\<lparr>head := next_of s item\<rparr>
         in Some (if head s = None then s\<lparr>tail := None\<rparr> else s)
       else (case prev_of s item of
           None \<Rightarrow> None
         | Some p \<Rightarrow>
             let s = set_next p (next_of s item) s
             in Some (if tail s = Some item then s\<lparr>tail := prev_of s item\<rparr> else s))))"

definition list_pop :: "list_state \<Rightarrow> (ptr \<times> list_state) option" where
  "list_pop s = (case head s of
     None \<Rightarrow> Some (None, s)
   | Some item \<Rightarrow> map_option (Pair (Some item)) (list_remove s item))"

definition list_last :: "list_state \<Rightarrow> ptr" where "list_last s = tail s"

definition list_first :: "list_state \<Rightarrow> ptr" where "list_first s = head s"

definition list_next :: "list_state \<Rightarrow> nat \<Rightarrow> ptr" where "list_next s item = next_of s item"

definition list_for_each :: "nat \<Rightarrow> list_state \<Rightarrow> nat list option" where
  "list_for_each fuel s = for_each fuel next_of s (head s)"

text \<open>\<open>list_for_each_safe\<close> around the conditional \<open>list_remove\<close> of the name service.\<close>

definition list_for_each_safe_remove :: "nat \<Rightarrow> (nat \<Rightarrow> bool) \<Rightarrow> list_state \<Rightarrow> list_state option" where
  "list_for_each_safe_remove fuel P s = sweep fuel next_of list_remove P s (head s)"

section \<open>Represented sequences\<close>

definition first_or :: "'a option \<Rightarrow> 'a list \<Rightarrow> 'a option" where
  "first_or q xs = (case xs of [] \<Rightarrow> q | y # _ \<Rightarrow> Some y)"

definition last_or :: "'a option \<Rightarrow> 'a list \<Rightarrow> 'a option" where
  "last_or p xs = (if xs = [] then p else Some (last xs))"

lemma first_or_simps [simp]:
  "first_or q [] = q" "first_or q (x # xs) = Some x"
  "first_or q (xs @ ys) = first_or (first_or q ys) xs"
  by (auto simp: first_or_def split: list.splits)

lemma last_or_simps [simp]:
  "last_or p [] = p" "last_or p (x # xs) = last_or (Some x) xs"
  "last_or p (xs @ ys) = last_or (last_or p xs) ys"
  by (auto simp: last_or_def)

text \<open>The items \<open>xs\<close> are linked in this order, between the pointers \<open>p\<close> and \<open>q\<close>.\<close>

fun seg :: "list_state \<Rightarrow> ptr \<Rightarrow> nat list \<Rightarrow> ptr \<Rightarrow> bool" where
  "seg s p [] q = True"
| "seg s p (x # xs) q = (prev_of s x = p \<and> next_of s x = first_or q xs \<and> seg s (Some x) xs q)"

definition list_repr :: "list_state \<Rightarrow> nat list \<Rightarrow> bool" where
  "list_repr s xs = (distinct xs \<and> seg s None xs None \<and> head s = first_or None xs \<and>
     tail s = last_or None xs)"

lemma seg_append [simp]:
  "seg s p (xs @ ys) q \<longleftrightarrow> seg s p xs (first_or q ys) \<and> seg s (last_or p xs) ys q"
  by (induction xs arbitrary: p) auto

lemma seg_frame:
  assumes "\<And>x. x \<in> set xs \<Longrightarrow> next_of s' x = next_of s x \<and> prev_of s' x = prev_of s x"
  shows "seg s' p xs q = seg s p xs q"
  using assms by (induction xs arbitrary: p) auto

lemma set_next_prev_simps [simp]:
  "next_of (set_next x p s) = (next_of s)(x := p)" "prev_of (set_next x p s) = prev_of s"
  "next_of (set_prev x p s) = next_of s" "prev_of (set_prev x p s) = (prev_of s)(x := p)"
  "head (set_next x p s) = head s" "tail (set_next x p s) = tail s"
  "head (set_prev x p s) = head s" "tail (set_prev x p s) = tail s"
  by (simp_all add: set_next_def set_prev_def)

lemma seg_frame_simps [simp]:
  "x \<notin> set xs \<Longrightarrow> seg (set_next x p s) a xs b = seg s a xs b"
  "x \<notin> set xs \<Longrightarrow> seg (set_prev x p s) a xs b = seg s a xs b"
  "seg (s\<lparr>head := h\<rparr>) a xs b = seg s a xs b" "seg (s\<lparr>tail := h\<rparr>) a xs b = seg s a xs b"
  by (rule seg_frame; auto)+

lemma last_or_in: "x \<notin> set xs \<Longrightarrow> p \<noteq> Some x \<Longrightarrow> last_or p xs \<noteq> Some x"
  by (auto simp: last_or_def)

lemma list_repr_Nil [simp]: "list_repr s [] \<longleftrightarrow> head s = None \<and> tail s = None"
  by (simp add: list_repr_def)

lemma list_append_repr:
  assumes "list_repr s xs" "x \<notin> set xs"
  shows "list_repr (list_append s x) (xs @ [x])"
  using assms by (cases xs rule: rev_cases) (auto simp: list_append_def list_repr_def Let_def)

lemma list_insert_repr:
  assumes "list_repr s (xs @ a # ys)" "x \<notin> set (xs @ a # ys)"
  shows "list_repr (list_insert s (Some a) x) (xs @ a # x # ys)"
proof (cases ys)
  case Nil
  then show ?thesis using assms by (auto simp: list_insert_def list_repr_def Let_def)
next
  case (Cons y zs)
  then have "last_or (Some y) zs \<noteq> Some a" using assms by (intro last_or_in) (auto simp: list_repr_def)
  then show ?thesis using Cons assms by (auto simp: list_insert_def list_repr_def Let_def)
qed

lemma list_remove_repr:
  assumes "list_repr s (xs @ x # ys)"
  shows "\<exists>s'. list_remove s x = Some s' \<and> list_repr s' (xs @ ys)"
proof (cases xs rule: rev_cases)
  case Nil
  then show ?thesis
    using assms by (cases ys) (auto simp: list_remove_def list_repr_def Let_def)
next
  case (snoc zs z)
  have h: "first_or (Some z) zs \<noteq> Some x"
    using assms snoc by (cases zs) (auto simp: list_repr_def)
  show ?thesis
  proof (cases ys)
    case Nil
    then show ?thesis using assms snoc h by (auto simp: list_remove_def list_repr_def Let_def)
  next
    case (Cons y vs)
    then have "last_or (Some y) vs \<noteq> Some x" using assms by (intro last_or_in) (auto simp: list_repr_def)
    then show ?thesis using Cons assms snoc h by (auto simp: list_remove_def list_repr_def Let_def)
  qed
qed

lemma list_remove_repr1:
  assumes "list_repr s xs" "x \<in> set xs"
  shows "\<exists>s'. list_remove s x = Some s' \<and> list_repr s' (remove1 x xs)"
proof -
  from split_list [OF assms(2)] obtain ys zs where xs: "xs = ys @ x # zs" by blast
  moreover have "x \<notin> set ys" using assms(1) xs by (auto simp: list_repr_def)
  ultimately show ?thesis using list_remove_repr assms(1) by (simp add: remove1_append)
qed

interpretation qlist: item_list list_repr list_init list_append list_remove head next_of "\<lambda>s x. True"
proof unfold_locales
  show "next_of s x = head_opt ys" if "list_repr s (xs @ x # ys)" for s xs x ys
    using that by (cases ys) (auto simp: list_repr_def)
  show "head s = head_opt xs" if "list_repr s xs" for s xs
    using that by (cases xs) (auto simp: list_repr_def)
  show "distinct xs" if "list_repr s xs" for s xs
    using that by (simp add: list_repr_def)
qed (auto simp: list_init_def intro: list_append_repr list_remove_repr1)

section \<open>Properties\<close>

text \<open>
  C39: the list of the name service behaves like a sequence. On a store whose list links \<open>xs\<close>,
  appending an item that is not linked gives \<open>xs\<close> with that item last, and the
  \<open>list_for_each\<close> loop ends after visiting exactly the linked items, in order.
\<close>

theorem list_append_for_each:
  assumes "list_repr s xs" "x \<notin> set xs"
  shows "list_repr (list_append s x) (xs @ [x]) \<and>
    list_for_each (Suc (length xs)) (list_append s x) = Some (xs @ [x])"
proof -
  have "list_repr (list_append s x) (xs @ [x])" using assms by (rule list_append_repr)
  then show ?thesis using qlist.for_each_all [of "list_append s x" "xs @ [x]"]
    by (simp add: list_for_each_def)
qed

abbreviation one_item :: list_state where
  "one_item \<equiv> list_append \<lparr>next_of = Map.empty, prev_of = Map.empty, head = None, tail = None\<rparr> 5"

lemma one_item_repr: "list_repr one_item [5]"
  using list_append_repr [of "\<lparr>next_of = Map.empty, prev_of = Map.empty, head = None, tail = None\<rparr>" "[]" 5]
  by simp

theorem list_append_for_each_witness:
  "list_repr (list_append one_item 7) ([5] @ [7]) \<and>
    list_for_each (Suc (length [5::nat])) (list_append one_item 7) = Some ([5] @ [7])"
  by (rule list_append_for_each [OF one_item_repr]) simp

text \<open>
  C27: a \<open>list_for_each_safe\<close> loop that removes the items satisfying a condition, as the name service
  does for the lookups of a client, ends, never dereferences a null pointer, and leaves the list
  of the items that do not satisfy it, in their order.
\<close>

theorem list_for_each_safe_filters:
  assumes "list_repr s xs" "length xs \<le> fuel"
  shows "\<exists>s'. list_for_each_safe_remove fuel P s = Some s' \<and> list_repr s' (filter (\<lambda>x. \<not> P x) xs)"
  unfolding list_for_each_safe_remove_def by (rule qlist.sweep_all [OF assms])

theorem list_for_each_safe_filters_witness:
  "\<exists>s'. list_for_each_safe_remove 2 (\<lambda>x. x = 5) (list_append one_item 7) = Some s' \<and>
    list_repr s' (filter (\<lambda>x. \<not> x = 5) ([5] @ [7]))"
  by (rule list_for_each_safe_filters [OF list_append_repr [OF one_item_repr]]) simp_all

text \<open>
  C40: \<open>list_prepend\<close> does not link the old first item back to the new one: after prepending to a
  list of at least one item, removing the item that was first dereferences a null pointer.
\<close>

theorem list_prepend_breaks_remove:
  assumes "list_repr s (y # ys)" "x \<noteq> y"
  shows "list_remove (list_prepend s x) y = None"
proof (cases ys)
  case Nil
  then show ?thesis using assms by (auto simp: list_repr_def list_prepend_def list_remove_def Let_def)
next
  case (Cons z zs)
  then show ?thesis using assms by (auto simp: list_repr_def list_prepend_def list_remove_def Let_def)
qed

theorem list_prepend_breaks_remove_witness: "list_remove (list_prepend one_item 7) 5 = None"
  by (rule list_prepend_breaks_remove [OF one_item_repr]) simp

end
