(* ===== verification/Qrtr_Proto.thy ===== *)
theory Qrtr_Proto
  imports Prelude
begin

text \<open>
  Addresses and packets of the IPC router protocol, from \<open>qcom/qrtr/lib/libqrtr.h\<close>, and the decoder
  \<open>qrtr_decode\<close> of \<open>qcom/qrtr/lib/qrtr.c\<close>. The union of \<open>struct qrtr_ctrl_pkt\<close> is four words, which
  the \<open>server\<close> view reads as service, instance, node, port and the \<open>client\<close> view as node, port.
\<close>

section \<open>Addresses and packet types\<close>

record sockaddr_qrtr =
  sq_family :: u16
  sq_node :: u32
  sq_port :: u32

definition AF_QIPCRTR :: u16 where "AF_QIPCRTR = 42"
definition QRTR_NODE_BCAST :: u32 where "QRTR_NODE_BCAST = 0xffffffff"
definition QRTR_PORT_CTRL :: u32 where "QRTR_PORT_CTRL = 0xfffffffe"

abbreviation (input) QRTR_TYPE_DATA :: u32 where "QRTR_TYPE_DATA \<equiv> 1"
abbreviation (input) QRTR_TYPE_HELLO :: u32 where "QRTR_TYPE_HELLO \<equiv> 2"
abbreviation (input) QRTR_TYPE_BYE :: u32 where "QRTR_TYPE_BYE \<equiv> 3"
abbreviation (input) QRTR_TYPE_NEW_SERVER :: u32 where "QRTR_TYPE_NEW_SERVER \<equiv> 4"
abbreviation (input) QRTR_TYPE_DEL_SERVER :: u32 where "QRTR_TYPE_DEL_SERVER \<equiv> 5"
abbreviation (input) QRTR_TYPE_DEL_CLIENT :: u32 where "QRTR_TYPE_DEL_CLIENT \<equiv> 6"
abbreviation (input) QRTR_TYPE_RESUME_TX :: u32 where "QRTR_TYPE_RESUME_TX \<equiv> 7"
abbreviation (input) QRTR_TYPE_EXIT :: u32 where "QRTR_TYPE_EXIT \<equiv> 8"
abbreviation (input) QRTR_TYPE_PING :: u32 where "QRTR_TYPE_PING \<equiv> 9"
abbreviation (input) QRTR_TYPE_NEW_LOOKUP :: u32 where "QRTR_TYPE_NEW_LOOKUP \<equiv> 10"
abbreviation (input) QRTR_TYPE_DEL_LOOKUP :: u32 where "QRTR_TYPE_DEL_LOOKUP \<equiv> 11"

section \<open>Control packets\<close>

record qrtr_ctrl_pkt =
  cmd :: u32
  word0 :: u32
  word1 :: u32
  word2 :: u32
  word3 :: u32

definition server_service :: "qrtr_ctrl_pkt \<Rightarrow> u32" where "server_service p = word0 p"
definition server_instance :: "qrtr_ctrl_pkt \<Rightarrow> u32" where "server_instance p = word1 p"
definition server_node :: "qrtr_ctrl_pkt \<Rightarrow> u32" where "server_node p = word2 p"
definition server_port :: "qrtr_ctrl_pkt \<Rightarrow> u32" where "server_port p = word3 p"
definition client_node :: "qrtr_ctrl_pkt \<Rightarrow> u32" where "client_node p = word0 p"
definition client_port :: "qrtr_ctrl_pkt \<Rightarrow> u32" where "client_port p = word1 p"

lemmas pkt_views = server_service_def server_instance_def server_node_def server_port_def
  client_node_def client_port_def

definition pkt_bytes :: "qrtr_ctrl_pkt \<Rightarrow> bytes" where
  "pkt_bytes p = le32 (cmd p) @ le32 (word0 p) @ le32 (word1 p) @ le32 (word2 p) @ le32 (word3 p)"

text \<open>The packet a pointer to a buffer denotes.\<close>

definition pkt_of :: "bytes \<Rightarrow> qrtr_ctrl_pkt" where
  "pkt_of buf = \<lparr>cmd = rd32 buf, word0 = rd32 (drop 4 buf), word1 = rd32 (drop 8 buf),
     word2 = rd32 (drop 12 buf), word3 = rd32 (drop 16 buf)\<rparr>"

lemma length_pkt_bytes [simp]: "length (pkt_bytes p) = 20"
  by (simp add: pkt_bytes_def)

lemma pkt_of_bytes [simp]: "pkt_of (pkt_bytes p @ rest) = p"
proof -
  have d: "drop 4 (le32 a @ bs) = bs" for a bs by simp
  have e: "drop 8 xs = drop 4 (drop 4 xs)" "drop 12 xs = drop 4 (drop 4 (drop 4 xs))"
    "drop 16 xs = drop 4 (drop 4 (drop 4 (drop 4 xs)))" for xs :: bytes
    by (simp_all del: drop_drop add: drop_drop)
  show ?thesis unfolding pkt_of_def pkt_bytes_def e append_assoc d by (simp only: rd32_le32) simp
qed

lemma pkt_of_bytes' [simp]: "pkt_of (pkt_bytes p) = p"
  using pkt_of_bytes [of p "[]"] by simp

section \<open>Decoded packets\<close>

record qrtr_packet =
  ptype :: int
  pnode :: u32
  pport :: u32
  pservice :: u32
  pinstance :: u32
  pversion :: u32
  pdata :: bytes

definition qrtr_decode :: "qrtr_packet \<Rightarrow> bytes \<Rightarrow> sockaddr_qrtr \<Rightarrow> int \<times> qrtr_packet" where
  "qrtr_decode dest buf sq = (let ctrl = pkt_of buf in
     if sq_port sq = QRTR_PORT_CTRL then
       if length buf < 20 then (- EMSGSIZE, dest)
       else let dest = dest\<lparr>ptype := sint (cmd ctrl)\<rparr> in
         if cmd ctrl = QRTR_TYPE_BYE then (0, dest\<lparr>pnode := client_node ctrl\<rparr>)
         else if cmd ctrl = QRTR_TYPE_DEL_CLIENT then
           (0, dest\<lparr>pnode := client_node ctrl, pport := client_port ctrl\<rparr>)
         else if cmd ctrl = QRTR_TYPE_NEW_SERVER \<or> cmd ctrl = QRTR_TYPE_DEL_SERVER then
           (0, dest\<lparr>pnode := server_node ctrl, pport := server_port ctrl,
             pservice := server_service ctrl,
             pversion := server_instance ctrl AND 0xff,
             pinstance := drop_bit 8 (server_instance ctrl)\<rparr>)
         else (0, dest\<lparr>ptype := 0\<rparr>)
     else (0, dest\<lparr>ptype := 1, pnode := sq_node sq, pport := sq_port sq, pdata := buf\<rparr>))"

end
