(* ===== verification/Qrtr_Ns.thy ===== *)
theory Qrtr_Ns
  imports Qrtr_Hash Qrtr_Map Qrtr_Proto
begin

text \<open>
  The name service daemon \<open>qcom/qrtr/src/ns.c\<close>. Its state is the table of nodes, each with a table
  of the servers registered on it by port, and the list of lookups (observers). Every \<open>sendto\<close> is
  recorded in \<open>sent\<close>. The environment decides what \<open>sendto\<close> returns, from everything sent so far,
  which allocations succeed, from their number, and what uninitialised stack words hold.

  A \<open>struct node *\<close> is modelled by the node's id: nodes are never removed while the daemon runs, and
  writing through such a pointer is \<open>node_store\<close>. The list of lookups is a sequence, which
  \<open>Qrtr_List\<close> shows the intrusive list to represent.
\<close>

section \<open>Data\<close>

record lookup =
  lk_service :: u32
  lk_instance :: u32
  lk_sq :: sockaddr_qrtr

record server =
  srv_service :: u32
  srv_instance :: u32
  srv_node :: u32
  srv_port :: u32

record node =
  node_id :: u32
  services :: "server hmap"

record server_filter =
  f_service :: u32
  f_instance :: u32
  f_ifilter :: u32

record ns =
  sock :: int
  local_node :: u32
  bcast_sq :: sockaddr_qrtr
  lookups :: "lookup list"
  nodes :: "node hmap"
  sent :: "(sockaddr_qrtr \<times> bytes) list"
  allocs :: nat

datatype alloc_req = Node_Req | Server_Req | Lookup_Req | Table_Req nat

record ns_env =
  sendto_rc :: "(sockaddr_qrtr \<times> bytes) list \<Rightarrow> int"
  calloc_ok :: "nat \<Rightarrow> alloc_req \<Rightarrow> bool"
  junk :: "nat \<Rightarrow> u32 \<times> u32"

section \<open>Calls into the environment\<close>

definition sendto :: "ns_env \<Rightarrow> ns \<Rightarrow> sockaddr_qrtr \<Rightarrow> bytes \<Rightarrow> int \<times> ns" where
  "sendto env st dest bs = (let log = sent st @ [(dest, bs)] in
     (sendto_rc env log, st\<lparr>sent := log\<rparr>))"

definition calloc :: "ns_env \<Rightarrow> ns \<Rightarrow> alloc_req \<Rightarrow> bool \<times> ns" where
  "calloc env st req = (calloc_ok env (allocs st) req, st\<lparr>allocs := allocs st + 1\<rparr>)"

text \<open>
  \<open>map_reput\<close> with the allocator of the moment; two units of fuel always give a result
  (\<open>map_reput_total\<close>), so the second branch is never taken on a well-formed table.
\<close>

definition reput_now :: "ns_env \<Rightarrow> ns \<Rightarrow> 'a hmap \<Rightarrow> u32 \<Rightarrow> 'a \<Rightarrow> int \<times> 'a option \<times> 'a hmap" where
  "reput_now env st m key v =
     (case map_reput 2 (\<lambda>n. calloc_ok env (allocs st) (Table_Req n)) m key (Some v) of
        Some r \<Rightarrow> r
      | None \<Rightarrow> (-1, None, m))"

section \<open>Nodes\<close>

definition node_at :: "ns \<Rightarrow> u32 \<Rightarrow> node" where
  "node_at st nid = (case map_get (nodes st) (hash_u32 nid) of
     Some nd \<Rightarrow> nd
   | None \<Rightarrow> \<lparr>node_id = nid, services = map_create\<rparr>)"

definition node_store :: "ns \<Rightarrow> u32 \<Rightarrow> server hmap \<Rightarrow> ns" where
  "node_store st nid m =
     st\<lparr>nodes := item_write (nodes st) (hash_u32 nid) ((node_at st nid)\<lparr>services := m\<rparr>)\<rparr>"

definition node_get :: "ns_env \<Rightarrow> ns \<Rightarrow> u32 \<Rightarrow> node option \<times> ns" where
  "node_get env st nid = (case map_get (nodes st) (hash_u32 nid) of
     Some nd \<Rightarrow> (Some nd, st)
   | None \<Rightarrow>
      (let (ok, st) = calloc env st Node_Req in
       if \<not> ok then (None, st)
       else let nd = \<lparr>node_id = nid, services = map_create\<rparr>;
                (rc, old, m) = reput_now env st (nodes st) (hash_u32 nid) nd;
                st = st\<lparr>nodes := m, allocs := allocs st + 1\<rparr>
            in if rc \<noteq> 0 then (None, st) else (Some nd, st)))"

section \<open>Queries\<close>

definition server_match :: "server \<Rightarrow> server_filter \<Rightarrow> bool" where
  "server_match srv f =
     (if f_service f \<noteq> 0 \<and> srv_service srv \<noteq> f_service f then False
      else let ifilter = (if f_ifilter f = 0 \<and> f_instance f \<noteq> 0 then NOT 0 else f_ifilter f)
           in srv_instance srv AND ifilter = f_instance f)"

definition server_query :: "ns \<Rightarrow> server_filter \<Rightarrow> server list" where
  "server_query st f = concat (map (\<lambda>nd. filter (\<lambda>srv. server_match srv f) (map_items (services nd)))
     (map_items (nodes st)))"

section \<open>Announcements\<close>

definition server_pkt :: "u32 \<Rightarrow> server \<Rightarrow> qrtr_ctrl_pkt" where
  "server_pkt c srv = \<lparr>cmd = c, word0 = srv_service srv, word1 = srv_instance srv,
     word2 = srv_node srv, word3 = srv_port srv\<rparr>"

definition service_announce_new :: "ns_env \<Rightarrow> ns \<Rightarrow> sockaddr_qrtr \<Rightarrow> server \<Rightarrow> int \<times> ns" where
  "service_announce_new env st dest srv =
     sendto env st dest (pkt_bytes (server_pkt QRTR_TYPE_NEW_SERVER srv))"

definition service_announce_del :: "ns_env \<Rightarrow> ns \<Rightarrow> sockaddr_qrtr \<Rightarrow> server \<Rightarrow> int \<times> ns" where
  "service_announce_del env st dest srv =
     sendto env st dest (pkt_bytes (server_pkt QRTR_TYPE_DEL_SERVER srv))"

definition zero_pkt :: qrtr_ctrl_pkt where
  "zero_pkt = \<lparr>cmd = 0, word0 = 0, word1 = 0, word2 = 0, word3 = 0\<rparr>"

definition notify_pkt :: "server option \<Rightarrow> bool \<Rightarrow> qrtr_ctrl_pkt" where
  "notify_pkt srv new = (let c = (if new then QRTR_TYPE_NEW_SERVER else QRTR_TYPE_DEL_SERVER) in
     case srv of Some s \<Rightarrow> server_pkt c s | None \<Rightarrow> zero_pkt\<lparr>cmd := c\<rparr>)"

definition lookup_notify :: "ns_env \<Rightarrow> ns \<Rightarrow> sockaddr_qrtr \<Rightarrow> server option \<Rightarrow> bool \<Rightarrow> int \<times> ns" where
  "lookup_notify env st to srv new = sendto env st to (pkt_bytes (notify_pkt srv new))"

fun announce_each :: "ns_env \<Rightarrow> ns \<Rightarrow> sockaddr_qrtr \<Rightarrow> server list \<Rightarrow> int \<times> ns" where
  "announce_each env st sq [] = (0, st)"
| "announce_each env st sq (srv # srvs) = (let (rc, st) = service_announce_new env st sq srv in
     if rc < 0 then (rc, st) else announce_each env st sq srvs)"

definition annouce_servers :: "ns_env \<Rightarrow> ns \<Rightarrow> sockaddr_qrtr \<Rightarrow> int \<times> ns" where
  "annouce_servers env st sq = (let (nd, st) = node_get env st (local_node st) in
     case nd of
       None \<Rightarrow> (0, st)
     | Some nd \<Rightarrow> announce_each env st sq (map_items (services nd)))"

text \<open>The observer loops of \<open>server_del\<close> and \<open>ctrl_cmd_new_server\<close>.\<close>

definition lookup_skips :: "lookup \<Rightarrow> u32 \<Rightarrow> u32 \<Rightarrow> bool" where
  "lookup_skips l service instance =
     (lk_service l \<noteq> 0 \<and> lk_service l \<noteq> service \<or>
      lk_instance l \<noteq> 0 \<and> lk_instance l \<noteq> instance)"

fun notify_lookups :: "ns_env \<Rightarrow> ns \<Rightarrow> lookup list \<Rightarrow> server \<Rightarrow> bool \<Rightarrow> ns" where
  "notify_lookups env st [] srv new = st"
| "notify_lookups env st (l # ls) srv new =
     (if lookup_skips l (srv_service srv) (srv_instance srv) then notify_lookups env st ls srv new
      else notify_lookups env (snd (lookup_notify env st (lk_sq l) (Some srv) new)) ls srv new)"

section \<open>Servers\<close>

definition server_add :: "ns_env \<Rightarrow> ns \<Rightarrow> u32 \<Rightarrow> u32 \<Rightarrow> u32 \<Rightarrow> u32 \<Rightarrow> server option \<times> ns" where
  "server_add env st service instance nid port =
    (if service = 0 \<or> port = 0 then (None, st)
     else let (ok, st) = calloc env st Server_Req in
       if \<not> ok then (None, st)
       else let srv = \<lparr>srv_service = service, srv_instance = instance, srv_node = nid, srv_port = port\<rparr>;
                (nd, st) = node_get env st nid
            in case nd of
                 None \<Rightarrow> (None, st)
               | Some nd \<Rightarrow>
                   let (rc, old, m) = reput_now env st (services nd) (hash_u32 port) srv;
                       st = node_store st nid m;
                       st = st\<lparr>allocs := allocs st + 1\<rparr>
                   in if rc \<noteq> 0 then (None, st) else (Some srv, st))"

definition server_del :: "ns_env \<Rightarrow> ns \<Rightarrow> u32 \<Rightarrow> u32 \<Rightarrow> int \<times> ns" where
  "server_del env st nid port =
    (let svcs = services (node_at st nid) in
     case map_get svcs (hash_u32 port) of
       None \<Rightarrow> (- ENOENT, st)
     | Some srv \<Rightarrow>
        let st = node_store st nid (snd (map_remove svcs (hash_u32 port)));
            st = (if srv_node srv = local_node st
                  then snd (service_announce_del env st (bcast_sq st) srv) else st);
            st = notify_lookups env st (lookups st) srv False
        in (0, st))"

section \<open>Handlers\<close>

definition ctrl_cmd_hello :: "ns_env \<Rightarrow> ns \<Rightarrow> sockaddr_qrtr \<Rightarrow> bytes \<Rightarrow> int \<times> ns" where
  "ctrl_cmd_hello env st sq buf = (let (rc, st) = sendto env st sq buf in
     if rc > 0 then annouce_servers env st sq else (rc, st))"

text \<open>
  The loop of \<open>ctrl_cmd_bye\<close> deletes while it iterates: the iterator walks the slots of the node's
  table in order, and what a slot holds is read when the iterator reaches it.
\<close>

fun bye_loop :: "ns_env \<Rightarrow> ns \<Rightarrow> u32 \<Rightarrow> nat list \<Rightarrow> ns" where
  "bye_loop env st nid [] = st"
| "bye_loop env st nid (i # is) = (case mdata (services (node_at st nid)) ! i of
     Item k srv \<Rightarrow> bye_loop env (snd (server_del env st nid (srv_port srv))) nid is
   | _ \<Rightarrow> bye_loop env st nid is)"

fun send_each :: "ns_env \<Rightarrow> ns \<Rightarrow> qrtr_ctrl_pkt \<Rightarrow> server list \<Rightarrow> ns" where
  "send_each env st pkt [] = st"
| "send_each env st pkt (srv # srvs) = send_each env
     (snd (sendto env st \<lparr>sq_family = AF_QIPCRTR, sq_node = srv_node srv, sq_port = srv_port srv\<rparr>
       (pkt_bytes pkt))) pkt srvs"

definition ctrl_cmd_bye :: "ns_env \<Rightarrow> ns \<Rightarrow> sockaddr_qrtr \<Rightarrow> int \<times> ns" where
  "ctrl_cmd_bye env st from = (case node_get env st (sq_node from) of
     (None, st) \<Rightarrow> (0, st)
   | (Some nd, st) \<Rightarrow>
      let st = bye_loop env st (sq_node from) [0..<msize (services nd)];
          (ln, st) = node_get env st (local_node st)
      in case ln of
           None \<Rightarrow> (0, st)
         | Some ln \<Rightarrow>
             let pkt = zero_pkt\<lparr>cmd := QRTR_TYPE_BYE, word0 := sq_node from\<rparr>
             in (0, send_each env st pkt (map_items (services ln))))"

text \<open>The packet of \<open>ctrl_cmd_del_client\<close> is not cleared first: its last two words are stack contents.\<close>

definition ctrl_cmd_del_client :: "ns_env \<Rightarrow> ns \<Rightarrow> sockaddr_qrtr \<Rightarrow> u32 \<Rightarrow> u32 \<Rightarrow> int \<times> ns" where
  "ctrl_cmd_del_client env st from nid port =
    (if sq_node from \<noteq> nid then (- EINVAL, st)
     else if sq_node from = local_node st \<and> sq_port from \<noteq> port then (- EINVAL, st)
     else let st = st\<lparr>lookups := filter (\<lambda>l. \<not> (sq_node (lk_sq l) = nid \<and> sq_port (lk_sq l) = port))
                (lookups st)\<rparr>;
              (nd, st) = node_get env st nid;
              st = (case nd of Some nd \<Rightarrow> snd (server_del env st nid port) | None \<Rightarrow> st);
              (ln, st) = node_get env st (local_node st)
          in case ln of
               None \<Rightarrow> (0, st)
             | Some ln \<Rightarrow>
                 let (j1, j2) = junk env (length (sent st));
                     pkt = \<lparr>cmd = QRTR_TYPE_DEL_CLIENT, word0 = nid, word1 = port,
                       word2 = j1, word3 = j2\<rparr>
                 in (0, send_each env st pkt (map_items (services ln))))"

definition ctrl_cmd_new_server ::
    "ns_env \<Rightarrow> ns \<Rightarrow> sockaddr_qrtr \<Rightarrow> u32 \<Rightarrow> u32 \<Rightarrow> u32 \<Rightarrow> u32 \<Rightarrow> int \<times> ns" where
  "ctrl_cmd_new_server env st from service instance nid port =
    (let (nid, port) = (if sq_node from = local_node st then (sq_node from, sq_port from)
                        else (nid, port)) in
     if sq_node from \<noteq> nid then (- EINVAL, st)
     else let (srv, st) = server_add env st service instance nid port in
       case srv of
         None \<Rightarrow> (- EINVAL, st)
       | Some srv \<Rightarrow>
           let (rc, st) = (if srv_node srv = local_node st
                           then service_announce_new env st (bcast_sq st) srv else (0, st))
           in (rc, notify_lookups env st (lookups st) srv True))"

definition ctrl_cmd_del_server ::
    "ns_env \<Rightarrow> ns \<Rightarrow> sockaddr_qrtr \<Rightarrow> u32 \<Rightarrow> u32 \<Rightarrow> u32 \<Rightarrow> u32 \<Rightarrow> int \<times> ns" where
  "ctrl_cmd_del_server env st from service instance nid port =
    (let (nid, port) = (if sq_node from = local_node st then (sq_node from, sq_port from)
                        else (nid, port)) in
     if sq_node from \<noteq> nid then (- EINVAL, st)
     else if sq_node from = local_node st \<and> sq_port from \<noteq> port then (- EINVAL, st)
     else let (nd, st) = node_get env st nid in
       case nd of
         None \<Rightarrow> (- ENOENT, st)
       | Some nd \<Rightarrow> server_del env st nid port)"

fun notify_each :: "ns_env \<Rightarrow> ns \<Rightarrow> sockaddr_qrtr \<Rightarrow> server list \<Rightarrow> ns" where
  "notify_each env st to [] = st"
| "notify_each env st to (srv # srvs) =
     notify_each env (snd (lookup_notify env st to (Some srv) True)) to srvs"

definition ctrl_cmd_new_lookup :: "ns_env \<Rightarrow> ns \<Rightarrow> sockaddr_qrtr \<Rightarrow> u32 \<Rightarrow> u32 \<Rightarrow> int \<times> ns" where
  "ctrl_cmd_new_lookup env st from service instance =
    (if sq_node from \<noteq> local_node st then (- EINVAL, st)
     else let (ok, st) = calloc env st Lookup_Req in
       if \<not> ok then (- EINVAL, st)
       else let st = st\<lparr>lookups := lookups st @
                  [\<lparr>lk_service = service, lk_instance = instance, lk_sq = from\<rparr>]\<rparr>;
                filter = \<lparr>f_service = service, f_instance = instance, f_ifilter = 0\<rparr>;
                st = notify_each env st from (server_query st filter)
            in (0, snd (lookup_notify env st from None True)))"

definition ctrl_cmd_del_lookup :: "ns_env \<Rightarrow> ns \<Rightarrow> sockaddr_qrtr \<Rightarrow> u32 \<Rightarrow> u32 \<Rightarrow> int \<times> ns" where
  "ctrl_cmd_del_lookup env st from service instance =
    (0, st\<lparr>lookups := filter (\<lambda>l. \<not> (sq_node (lk_sq l) = sq_node from \<and> sq_port (lk_sq l) = sq_port from
        \<and> lk_service l = service \<and> (lk_instance l = 0 \<or> lk_instance l = instance))) (lookups st)\<rparr>)"

text \<open>
  The buffer of \<open>ctrl_port_fn\<close> holds the received bytes, followed by what the stack held before.
\<close>

datatype rx = Rx_Fail | Rx sockaddr_qrtr bytes "nat \<Rightarrow> u8"

definition rx_buf :: "bytes \<Rightarrow> (nat \<Rightarrow> u8) \<Rightarrow> bytes" where
  "rx_buf bs stale = (let bs = take 4096 bs in bs @ map stale [length bs..<4096])"

definition dispatch :: "ns_env \<Rightarrow> ns \<Rightarrow> sockaddr_qrtr \<Rightarrow> qrtr_ctrl_pkt \<Rightarrow> bytes \<Rightarrow> int \<times> ns" where
  "dispatch env st sq msg data =
    (if cmd msg = QRTR_TYPE_HELLO then ctrl_cmd_hello env st sq data
     else if cmd msg = QRTR_TYPE_BYE then ctrl_cmd_bye env st sq
     else if cmd msg = QRTR_TYPE_DEL_CLIENT then
       ctrl_cmd_del_client env st sq (client_node msg) (client_port msg)
     else if cmd msg = QRTR_TYPE_NEW_SERVER then
       ctrl_cmd_new_server env st sq (server_service msg) (server_instance msg)
         (server_node msg) (server_port msg)
     else if cmd msg = QRTR_TYPE_DEL_SERVER then
       ctrl_cmd_del_server env st sq (server_service msg) (server_instance msg)
         (server_node msg) (server_port msg)
     else if cmd msg = QRTR_TYPE_NEW_LOOKUP then
       ctrl_cmd_new_lookup env st sq (server_service msg) (server_instance msg)
     else if cmd msg = QRTR_TYPE_DEL_LOOKUP then
       ctrl_cmd_del_lookup env st sq (server_service msg) (server_instance msg)
     else (0, st))"

definition ctrl_port_fn :: "ns_env \<Rightarrow> ns \<Rightarrow> rx \<Rightarrow> ns" where
  "ctrl_port_fn env st ev = (case ev of
     Rx_Fail \<Rightarrow> st\<lparr>sock := -1\<rparr>
   | Rx sq bs stale \<Rightarrow>
      if bs = [] then st\<lparr>sock := -1\<rparr>
      else if length (take 4096 bs) < 4 then st
      else snd (dispatch env st sq (pkt_of (rx_buf bs stale)) (take 4096 bs)))"

section \<open>Start, loop and shutdown\<close>

definition say_hello :: "ns_env \<Rightarrow> ns \<Rightarrow> int \<times> ns" where
  "say_hello env st =
    (let (rc, st) = sendto env st (bcast_sq st) (pkt_bytes (zero_pkt\<lparr>cmd := QRTR_TYPE_HELLO\<rparr>))
     in (if rc < 0 then rc else 0, st))"

text \<open>
  \<open>main\<close> up to the loop, for a control socket that could be opened and bound on the given node;
  \<open>None\<close> is the exit when the first broadcast fails.
\<close>

definition ns_start :: "ns_env \<Rightarrow> int \<Rightarrow> u32 \<Rightarrow> ns option" where
  "ns_start env fd local =
    (let st = \<lparr>sock = fd, local_node = local,
           bcast_sq = \<lparr>sq_family = AF_QIPCRTR, sq_node = QRTR_NODE_BCAST, sq_port = QRTR_PORT_CTRL\<rparr>,
           lookups = [], nodes = map_create, sent = [], allocs = 0\<rparr>;
         (rc, st) = say_hello env st
     in if rc \<noteq> 0 then None else Some st)"

fun ns_loop :: "ns_env \<Rightarrow> ns \<Rightarrow> rx list \<Rightarrow> ns" where
  "ns_loop env st [] = st"
| "ns_loop env st (ev # evs) = (if sock st \<ge> 0 then ns_loop env (ctrl_port_fn env st ev) evs else st)"

definition node_mi_free :: "node \<Rightarrow> server list" where
  "node_mi_free nd = snd (map_clear (services nd))"

definition ns_shutdown :: "ns \<Rightarrow> ns \<times> server list" where
  "ns_shutdown st = (let (m, nds) = map_clear (nodes st) in
     (st\<lparr>nodes := m\<rparr>, concat (map node_mi_free nds)))"


section \<open>The registry\<close>

text \<open>
  \<open>svc st nid\<close> is the table of servers of a node, empty for a node that is not known, and \<open>reg\<close>
  the server registered at a node and port. \<open>nodes_ok\<close>: the table of nodes is well-formed and every
  node is stored under its id. \<open>svc_wf\<close>: a table of servers is well-formed, and every server in it
  is stored under its port, belongs to the node and has a service and a port.
\<close>

definition svc :: "ns \<Rightarrow> u32 \<Rightarrow> server hmap" where
  "svc st nid = services (node_at st nid)"

definition reg :: "ns \<Rightarrow> u32 \<Rightarrow> u32 \<Rightarrow> server option" where
  "reg st nid port = map_get (svc st nid) (hash_u32 port)"

definition present :: "ns \<Rightarrow> u32 \<Rightarrow> bool" where
  "present st nid = (map_get (nodes st) (hash_u32 nid) \<noteq> None)"

definition nodes_ok :: "ns \<Rightarrow> bool" where
  "nodes_ok st = (map_ok (nodes st) \<and>
     (\<forall>k nd. map_get (nodes st) k = Some nd \<longrightarrow> k = hash_u32 (node_id nd)))"

definition server_ok :: "u32 \<Rightarrow> u32 \<Rightarrow> server \<Rightarrow> bool" where
  "server_ok nid k srv = (k = hash_u32 (srv_port srv) \<and> srv_node srv = nid \<and>
     srv_service srv \<noteq> 0 \<and> srv_port srv \<noteq> 0)"

definition svc_wf :: "u32 \<Rightarrow> server hmap \<Rightarrow> bool" where
  "svc_wf nid m = (map_wf m \<and> (\<forall>k srv. Item k srv \<in> set (mdata m) \<longrightarrow> server_ok nid k srv))"

definition ns_wf :: "ns \<Rightarrow> bool" where
  "ns_wf st = (nodes_ok st \<and> (\<forall>nid. svc_wf nid (svc st nid)))"

definition svcs_ok :: "ns \<Rightarrow> bool" where
  "svcs_ok st = (\<forall>nid. map_ok (svc st nid))"

named_theorems ns_frame

lemma svc_cong [ns_frame]:
  "svc (st\<lparr>sent := a\<rparr>) = svc st" "svc (st\<lparr>allocs := b\<rparr>) = svc st"
  "svc (st\<lparr>lookups := c\<rparr>) = svc st" "svc (st\<lparr>sock := d\<rparr>) = svc st"
  by (auto simp: svc_def node_at_def fun_eq_iff)

lemma reg_cong [ns_frame]:
  "reg (st\<lparr>sent := a\<rparr>) = reg st" "reg (st\<lparr>allocs := b\<rparr>) = reg st"
  "reg (st\<lparr>lookups := c\<rparr>) = reg st" "reg (st\<lparr>sock := d\<rparr>) = reg st"
  by (auto simp: reg_def svc_cong fun_eq_iff)

lemma present_cong [ns_frame]:
  "present (st\<lparr>sent := a\<rparr>) = present st" "present (st\<lparr>allocs := b\<rparr>) = present st"
  "present (st\<lparr>lookups := c\<rparr>) = present st" "present (st\<lparr>sock := d\<rparr>) = present st"
  by (auto simp: present_def fun_eq_iff)

lemma nodes_ok_cong [ns_frame]:
  "nodes_ok (st\<lparr>sent := a\<rparr>) = nodes_ok st" "nodes_ok (st\<lparr>allocs := b\<rparr>) = nodes_ok st"
  "nodes_ok (st\<lparr>lookups := c\<rparr>) = nodes_ok st" "nodes_ok (st\<lparr>sock := d\<rparr>) = nodes_ok st"
  by (auto simp: nodes_ok_def)

lemma absent_svc: "\<not> present st nid \<Longrightarrow> svc st nid = map_create"
  by (simp add: present_def svc_def node_at_def)

lemma map_get_create [simp]: "map_get map_create k = None"
  by (rule qmap.get_emp)

section \<open>What is sent\<close>

definition note_pkts :: "lookup list \<Rightarrow> server \<Rightarrow> bool \<Rightarrow> (sockaddr_qrtr \<times> bytes) list" where
  "note_pkts ls srv new = map (\<lambda>l. (lk_sq l, pkt_bytes (notify_pkt (Some srv) new)))
     (filter (\<lambda>l. \<not> lookup_skips l (srv_service srv) (srv_instance srv)) ls)"

definition server_addr :: "server \<Rightarrow> sockaddr_qrtr" where
  "server_addr srv = \<lparr>sq_family = AF_QIPCRTR, sq_node = srv_node srv, sq_port = srv_port srv\<rparr>"

lemma notify_lookups_eq:
  "notify_lookups env st ls srv new = st\<lparr>sent := sent st @ note_pkts ls srv new\<rparr>"
  by (induction env st ls srv new rule: notify_lookups.induct)
    (auto simp: note_pkts_def lookup_notify_def sendto_def Let_def)

lemma send_each_eq:
  "send_each env st pkt srvs = st\<lparr>sent := sent st @ map (\<lambda>srv. (server_addr srv, pkt_bytes pkt)) srvs\<rparr>"
  by (induction env st pkt srvs rule: send_each.induct) (auto simp: sendto_def Let_def server_addr_def)

lemma notify_each_eq:
  "notify_each env st to srvs =
     st\<lparr>sent := sent st @ map (\<lambda>srv. (to, pkt_bytes (notify_pkt (Some srv) True))) srvs\<rparr>"
  by (induction env st to srvs rule: notify_each.induct) (auto simp: lookup_notify_def sendto_def Let_def)

lemma announce_each_pk:
  "\<exists>pk. snd (announce_each env st sq srvs) = st\<lparr>sent := sent st @ pk\<rparr> \<and> (\<forall>x\<in>set pk. fst x = sq)"
proof (induction env st sq srvs rule: announce_each.induct)
  case (1 env st sq)
  show ?case by (simp, rule exI [of _ "[]"]) simp
next
  case (2 env st sq srv srvs)
  let ?x = "(sq, pkt_bytes (server_pkt QRTR_TYPE_NEW_SERVER srv))"
  obtain rc st1 where s: "service_announce_new env st sq srv = (rc, st1)" by fastforce
  then have st1: "st1 = st\<lparr>sent := sent st @ [?x]\<rparr>"
    by (simp add: service_announce_new_def sendto_def Let_def)
  show ?case
  proof (cases "rc < 0")
    case True
    then show ?thesis using s st1 by (intro exI [of _ "[?x]"]) simp
  next
    case False
    from "2.IH" [OF s [symmetric] refl False] obtain pk where
      "snd (announce_each env st1 sq srvs) = st1\<lparr>sent := sent st1 @ pk\<rparr>" "\<forall>x\<in>set pk. fst x = sq" by blast
    then show ?thesis using s st1 False by (intro exI [of _ "?x # pk"]) simp
  qed
qed

lemma announce_each_sent: "\<exists>log. snd (announce_each env st sq srvs) = st\<lparr>sent := log\<rparr>"
  using announce_each_pk by blast

section \<open>Looking up and storing nodes\<close>

text \<open>Some allocation fails.\<close>

definition oom :: "ns_env \<Rightarrow> bool" where
  "oom env = (\<exists>t req. \<not> calloc_ok env t req)"

lemma reput_now_fresh:
  assumes "map_ok m" "map_get m key = None" "reput_now env st m key v = (rc, old, m')"
  shows "(rc = 0 \<and> map_ok m' \<and> map_get m' = (map_get m)(key \<mapsto> v)) \<or> (rc \<noteq> 0 \<and> m' = m \<and> oom env)"
proof -
  let ?al = "\<lambda>n. calloc_ok env (allocs st) (Table_Req n)"
  have wf: "map_wf m" using assms(1) by (simp add: map_ok_def)
  obtain rc' old' m'' where run: "map_reput (Suc (Suc 0)) ?al m key (Some v) = Some (rc', old', m'')"
    "rc' = 0 \<or> rc' = -1 \<and> m'' = m \<and> mcount m = msize m \<and> \<not> ?al (msize m + 256)" "map_wf m''"
    "\<forall>k x. Item k x \<in> set (mdata m'') \<longrightarrow> Item k x \<in> set (mdata m) \<or> k = key \<and> x = v"
    by (rule map_reput_total [OF wf])
  then have "map_put (Suc (Suc 0)) ?al m key (Some v) = Some (rc', m'')" by (simp add: map_put_def)
  from map_put_cases [OF assms(1,2) this] run(1,2) assms(3) show ?thesis
    by (auto simp: reput_now_def numeral_2_eq_2 oom_def)
qed

lemma reput_now_wf:
  assumes "map_wf m" "reput_now env st m key v = (rc, old, m')"
  shows "map_wf m' \<and> (rc = 0 \<or> m' = m \<and> oom env) \<and>
    (\<forall>k x. Item k x \<in> set (mdata m') \<longrightarrow> Item k x \<in> set (mdata m) \<or> k = key \<and> x = v)"
proof -
  let ?al = "\<lambda>n. calloc_ok env (allocs st) (Table_Req n)"
  obtain rc' old' m'' where run: "map_reput (Suc (Suc 0)) ?al m key (Some v) = Some (rc', old', m'')"
    "rc' = 0 \<or> rc' = -1 \<and> m'' = m \<and> mcount m = msize m \<and> \<not> ?al (msize m + 256)" "map_wf m''"
    "\<forall>k x. Item k x \<in> set (mdata m'') \<longrightarrow> Item k x \<in> set (mdata m) \<or> k = key \<and> x = v"
    by (rule map_reput_total [OF assms(1)])
  then show ?thesis using assms(2) by (auto simp: reput_now_def numeral_2_eq_2 oom_def)
qed

lemma node_get_cases:
  assumes ok: "nodes_ok st" and run: "node_get env st nid = (r, st')"
  obtains n a where "st' = st\<lparr>nodes := n, allocs := a\<rparr>" "nodes_ok st'" "svc st' = svc st"
    "\<And>k. present st k \<Longrightarrow> present st' k"
    "(r = None \<and> \<not> present st nid \<and> oom env) \<or> (present st' nid \<and> r = Some (node_at st' nid))"
proof (cases "map_get (nodes st) (hash_u32 nid)")
  case (Some nd)
  then have "st' = st \<and> r = Some nd" using run by (simp add: node_get_def)
  with Some ok show ?thesis by (intro that [of "allocs st" "nodes st"]) (auto simp: present_def node_at_def)
next
  case None
  let ?nd = "\<lparr>node_id = nid, services = map_create\<rparr>"
  obtain okc st1 where c: "calloc env st Node_Req = (okc, st1)" by fastforce
  then have st1: "st1 = st\<lparr>allocs := allocs st + 1\<rparr>" by (simp add: calloc_def)
  obtain rc old m where p: "reput_now env st1 (nodes st) (hash_u32 nid) ?nd = (rc, old, m)"
    by (metis prod_cases3)
  have mok: "map_ok (nodes st)" using ok by (simp add: nodes_ok_def)
  note cases = reput_now_fresh [OF mok None p]
  show ?thesis
  proof (cases "okc \<and> rc = 0")
    case True
    with cases have m: "map_ok m" "map_get m = (map_get (nodes st))(hash_u32 nid \<mapsto> ?nd)" by auto
    from run None c st1 p True have r: "r = Some ?nd" "st' = st\<lparr>nodes := m, allocs := allocs st + 2\<rparr>"
      by (auto simp: node_get_def)
    have "nodes_ok st'" using ok m r by (auto simp: nodes_ok_def)
    moreover have "svc st' = svc st"
      using r m None by (auto simp: svc_def node_at_def fun_eq_iff)
    ultimately show ?thesis
      using r m by (intro that [of "allocs st + 2" m]) (auto simp: present_def node_at_def)
  next
    case False
    with cases have "okc \<Longrightarrow> m = nodes st" by auto
    with run None c st1 p False have "r = None \<and> (\<exists>a. st' = st\<lparr>nodes := nodes st, allocs := a\<rparr>)"
      by (auto simp: node_get_def split: if_splits intro: exI [of _ "allocs st + 1"])
    then obtain a where "r = None" "st' = st\<lparr>nodes := nodes st, allocs := a\<rparr>" by blast
    moreover have "oom env" using False cases c by (auto simp: oom_def calloc_def)
    moreover have "\<not> present st nid" using None by (simp add: present_def)
    ultimately show ?thesis using ok by (intro that [of a "nodes st"]) (auto simp: ns_frame)
  qed
qed

lemma node_store_cases:
  assumes "nodes_ok st" "present st nid"
  shows "nodes_ok (node_store st nid m)" "svc (node_store st nid m) = (svc st)(nid := m)"
    "present (node_store st nid m) = present st"
proof -
  let ?nd = "(node_at st nid)\<lparr>services := m\<rparr>"
  have mok: "map_ok (nodes st)" and old: "map_get (nodes st) (hash_u32 nid) \<noteq> None"
    using assms by (auto simp: nodes_ok_def present_def)
  note w = item_write_ok [OF mok old, of ?nd]
  have "hash_u32 (node_id (node_at st nid)) = hash_u32 nid"
    using assms unfolding nodes_ok_def present_def node_at_def by (metis not_None_eq option.simps(5))
  then show "nodes_ok (node_store st nid m)"
    using w assms(1) by (auto simp: nodes_ok_def node_store_def)
  show "svc (node_store st nid m) = (svc st)(nid := m)"
    using w(2) by (auto simp: svc_def node_at_def node_store_def fun_eq_iff)
  show "present (node_store st nid m) = present st"
    using w(2) assms(2) by (auto simp: present_def node_store_def fun_eq_iff)
qed

lemma node_store_frame [ns_frame]:
  "sent (node_store st nid m) = sent st" "lookups (node_store st nid m) = lookups st"
  "local_node (node_store st nid m) = local_node st" "bcast_sq (node_store st nid m) = bcast_sq st"
  "sock (node_store st nid m) = sock st" "allocs (node_store st nid m) = allocs st"
  by (simp_all add: node_store_def)


section \<open>Servers\<close>

lemma present_if_reg: "reg st nid port = Some srv \<Longrightarrow> present st nid"
  using absent_svc [of st nid] by (cases "present st nid") (auto simp: reg_def)

definition del_pkts :: "ns \<Rightarrow> server \<Rightarrow> (sockaddr_qrtr \<times> bytes) list" where
  "del_pkts st srv =
     (if srv_node srv = local_node st
      then [(bcast_sq st, pkt_bytes (server_pkt QRTR_TYPE_DEL_SERVER srv))] else []) @
     note_pkts (lookups st) srv False"

lemma server_del_None: "reg st nid port = None \<Longrightarrow> server_del env st nid port = (- ENOENT, st)"
  by (simp add: server_del_def reg_def svc_def)

lemma server_del_Some:
  assumes "reg st nid port = Some srv"
  shows "server_del env st nid port =
    (0, (node_store st nid (snd (map_remove (svc st nid) (hash_u32 port))))
      \<lparr>sent := sent st @ del_pkts st srv\<rparr>)"
  using assms by (auto simp: server_del_def reg_def svc_def del_pkts_def notify_lookups_eq
      service_announce_del_def sendto_def Let_def node_store_frame)

lemma server_del_effect:
  assumes "nodes_ok st" "server_del env st nid port = (rc, st')"
  shows "nodes_ok st'" "present st' = present st"
    "svc st' = (svc st)(nid := snd (map_remove (svc st nid) (hash_u32 port)))"
    "lookups st' = lookups st" "local_node st' = local_node st" "bcast_sq st' = bcast_sq st"
    "sock st' = sock st"
proof -
  have "nodes_ok st' \<and> present st' = present st \<and>
    svc st' = (svc st)(nid := snd (map_remove (svc st nid) (hash_u32 port))) \<and>
    lookups st' = lookups st \<and> local_node st' = local_node st \<and> bcast_sq st' = bcast_sq st \<and>
    sock st' = sock st"
  proof (cases "reg st nid port")
    case None
    then have "map_remove (svc st nid) (hash_u32 port) = (1, svc st nid)"
      by (auto simp: reg_def map_remove_def map_get_def split: option.splits)
    then show ?thesis using None assms server_del_None [OF None, of env] by simp
  next
    case (Some srv)
    from server_del_Some [OF Some, of env] assms(2) have
      "st' = (node_store st nid (snd (map_remove (svc st nid) (hash_u32 port))))
        \<lparr>sent := sent st @ del_pkts st srv\<rparr>" by simp
    then show ?thesis
      using node_store_cases [OF assms(1) present_if_reg [OF Some]] by (simp add: ns_frame)
  qed
  then show "nodes_ok st'" "present st' = present st"
    "svc st' = (svc st)(nid := snd (map_remove (svc st nid) (hash_u32 port)))"
    "lookups st' = lookups st" "local_node st' = local_node st" "bcast_sq st' = bcast_sq st"
    "sock st' = sock st" by simp_all
qed

abbreviation new_server :: "u32 \<Rightarrow> u32 \<Rightarrow> u32 \<Rightarrow> u32 \<Rightarrow> server" where
  "new_server service instance nid port \<equiv>
     \<lparr>srv_service = service, srv_instance = instance, srv_node = nid, srv_port = port\<rparr>"

lemma server_add_effect:
  assumes ok: "nodes_ok st" and wf: "map_wf (svc st nid)"
    and run: "server_add env st service instance nid port = (r, st')"
  shows "\<exists>n a. st' = st\<lparr>nodes := n, allocs := a\<rparr> \<and> nodes_ok st' \<and>
    (r = None \<and> svc st' = svc st \<and> (service = 0 \<or> port = 0 \<or> oom env) \<or>
     r = Some (new_server service instance nid port) \<and> service \<noteq> 0 \<and> port \<noteq> 0 \<and>
     (\<exists>m'. svc st' = (svc st)(nid := m') \<and> map_wf m' \<and>
       (\<forall>k x. Item k x \<in> set (mdata m') \<longrightarrow> Item k x \<in> set (mdata (svc st nid)) \<or>
          k = hash_u32 port \<and> x = new_server service instance nid port) \<and>
       (map_ok (svc st nid) \<and> reg st nid port = None \<longrightarrow> map_ok m' \<and>
          map_get m' = (map_get (svc st nid))(hash_u32 port \<mapsto> new_server service instance nid port))))"
proof (cases "service = 0 \<or> port = 0")
  case True
  then have "r = None \<and> st' = st\<lparr>nodes := nodes st, allocs := allocs st\<rparr>"
    using run by (simp add: server_add_def)
  then show ?thesis using ok True by (intro exI [of _ "nodes st"] exI [of _ "allocs st"]) auto
next
  case False
  let ?srv = "new_server service instance nid port"
  let ?st1 = "st\<lparr>allocs := allocs st + 1\<rparr>"
  show ?thesis
  proof (cases "calloc_ok env (allocs st) Server_Req")
    case no: False
    then have "r = None \<and> st' = ?st1 \<and> oom env"
      using run False by (auto simp: server_add_def calloc_def oom_def)
    then show ?thesis using ok by (intro exI [of _ "nodes st"] exI [of _ "allocs st + 1"]) (simp add: ns_frame)
  next
    case True
    obtain nd st2 where g: "node_get env ?st1 nid = (nd, st2)" by fastforce
    have ok1: "nodes_ok ?st1" using ok by (simp add: ns_frame)
    obtain n a where st2: "st2 = ?st1\<lparr>nodes := n, allocs := a\<rparr>"
      "nodes_ok st2" "svc st2 = svc ?st1" "\<And>k. present ?st1 k \<Longrightarrow> present st2 k"
      "(nd = None \<and> \<not> present ?st1 nid \<and> oom env) \<or> (present st2 nid \<and> nd = Some (node_at st2 nid))"
      using node_get_cases [OF ok1 g] by blast
    have svc2: "svc st2 = svc st" using st2(3) by (simp add: ns_frame)
    show ?thesis
    proof (cases nd)
      case None
      then have "r = None \<and> st' = st2 \<and> oom env"
        using run False True g st2(5) by (simp add: server_add_def calloc_def)
      then show ?thesis using st2(1,2) svc2 by auto
    next
      case (Some nd')
      then have pr: "present st2 nid" and nd': "services nd' = svc st nid"
        using st2(5) svc2 by (auto simp: svc_def fun_eq_iff)
      obtain rc old m where p: "reput_now env st2 (svc st nid) (hash_u32 port) ?srv = (rc, old, m)"
        by (metis prod_cases3)
      note pw = reput_now_wf [OF wf p] and pf = reput_now_fresh [OF _ _ p]
      have st': "st' = (node_store st2 nid m)\<lparr>allocs := allocs st2 + 1\<rparr>"
        and r: "r = (if rc \<noteq> 0 then None else Some ?srv)"
        using run False True g Some p nd' by (auto simp: server_add_def calloc_def node_store_frame Let_def split: if_splits)
      have s: "nodes_ok st'" "svc st' = (svc st)(nid := m)"
        using node_store_cases [OF st2(2) pr, of m] svc2 st' by (simp_all add: ns_frame)
      have shape: "\<exists>n a. st' = st\<lparr>nodes := n, allocs := a\<rparr>"
        by (intro exI [of _ "nodes st'"] exI [of _ "allocs st'"]) (simp add: st' st2(1) node_store_def)
      show ?thesis
      proof (cases "rc = 0")
        case True
        then have "map_ok (svc st nid) \<and> reg st nid port = None \<longrightarrow> map_ok m \<and>
          map_get m = (map_get (svc st nid))(hash_u32 port \<mapsto> ?srv)"
          using pf by (auto simp: reg_def)
        then show ?thesis using shape s r pw True False by (metis (no_types, lifting))
      next
        case False
        then have "m = svc st nid \<and> oom env" using pw by simp
        then show ?thesis using shape s r False by auto
      qed
    qed
  qed
qed


section \<open>One step\<close>

text \<open>
  \<open>step_ok n\<close>: what handling a packet from node \<open>n\<close> may do. The state stays well-formed, and
  neither the servers of other nodes nor the lookups of clients on other nodes change.
\<close>

definition step_ok :: "u32 \<Rightarrow> ns \<Rightarrow> ns \<Rightarrow> bool" where
  "step_ok n st st' = (ns_wf st' \<and> local_node st' = local_node st \<and> bcast_sq st' = bcast_sq st \<and>
     (\<forall>k. k \<noteq> n \<longrightarrow> svc st' k = svc st k) \<and>
     filter (\<lambda>l. sq_node (lk_sq l) \<noteq> n) (lookups st') =
     filter (\<lambda>l. sq_node (lk_sq l) \<noteq> n) (lookups st))"

lemma step_ok_refl: "ns_wf st \<Longrightarrow> step_ok n st st"
  by (simp add: step_ok_def)

lemma step_ok_trans: "step_ok n st st' \<Longrightarrow> step_ok n st' st'' \<Longrightarrow> step_ok n st st''"
  by (simp add: step_ok_def)

lemma ns_wf_cong [ns_frame]:
  "ns_wf (st\<lparr>sent := a\<rparr>) = ns_wf st" "ns_wf (st\<lparr>allocs := b\<rparr>) = ns_wf st"
  "ns_wf (st\<lparr>lookups := c\<rparr>) = ns_wf st" "ns_wf (st\<lparr>sock := d\<rparr>) = ns_wf st"
  by (simp_all add: ns_wf_def ns_frame)

lemma step_ok_cong [ns_frame]:
  "step_ok n st (st'\<lparr>sent := a\<rparr>) = step_ok n st st'"
  "step_ok n st (st'\<lparr>allocs := b\<rparr>) = step_ok n st st'"
  by (simp_all add: step_ok_def ns_frame)

lemma node_get_step:
  assumes "ns_wf st" "node_get env st nid = (r, st')"
  shows "step_ok n st st'"
proof -
  have ok: "nodes_ok st" using assms(1) by (simp add: ns_wf_def)
  show ?thesis
  proof (rule node_get_cases [OF ok assms(2)])
    fix k a assume "st' = st\<lparr>nodes := k, allocs := a\<rparr>" "nodes_ok st'" "svc st' = svc st"
    then show ?thesis using assms(1) by (simp add: step_ok_def ns_wf_def)
  qed
qed

lemma svc_wf_remove: "svc_wf nid m \<Longrightarrow> svc_wf nid (snd (map_remove m key))"
proof -
  assume wf: "svc_wf nid m"
  then have "map_wf (snd (map_remove m key))"
    using map_remove_wf [of m key] by (simp add: svc_wf_def) (metis prod.collapse)
  moreover have "Item k x \<in> set (mdata (snd (map_remove m key))) \<Longrightarrow> Item k x \<in> set (mdata m)" for k x
    by (auto simp: map_remove_def split: option.splits dest: in_set_update_other
        set_update_subset_insert [THEN subsetD])
  ultimately show ?thesis using wf by (auto simp: svc_wf_def)
qed

lemma server_del_step:
  assumes "ns_wf st" "server_del env st nid port = (rc, st')"
  shows "step_ok nid st st'"
proof -
  have "nodes_ok st" using assms(1) by (simp add: ns_wf_def)
  from server_del_effect [OF this assms(2)] assms(1) show ?thesis
    by (auto simp: step_ok_def ns_wf_def svc_wf_remove)
qed

lemma svc_wf_add:
  assumes "svc_wf nid m" "map_wf m'" "service \<noteq> 0" "port \<noteq> 0"
    "\<forall>k x. Item k x \<in> set (mdata m') \<longrightarrow>
      Item k x \<in> set (mdata m) \<or> k = hash_u32 port \<and> x = new_server service instance nid port"
  shows "svc_wf nid m'"
proof -
  have "server_ok nid (hash_u32 port) (new_server service instance nid port)"
    using assms(3,4) by (simp add: server_ok_def)
  then show ?thesis using assms(1,2,5) unfolding svc_wf_def by blast
qed

lemma server_add_step:
  assumes "ns_wf st" "server_add env st service instance nid port = (r, st')"
  shows "step_ok nid st st'"
proof -
  have ok: "nodes_ok st" and wf: "map_wf (svc st nid)" and sw: "svc_wf nid (svc st nid)"
    using assms(1) by (auto simp: ns_wf_def svc_wf_def)
  from server_add_effect [OF ok wf assms(2)] obtain n a m' where st': "st' = st\<lparr>nodes := n, allocs := a\<rparr>"
    "nodes_ok st'" "svc st' = svc st \<or> svc st' = (svc st)(nid := m') \<and> svc_wf nid m'"
  proof (elim exE conjE disjE)
    fix n a m'
    assume "service \<noteq> 0" "port \<noteq> 0" "map_wf m'" "st' = st\<lparr>nodes := n, allocs := a\<rparr>" "nodes_ok st'"
      "svc st' = (svc st)(nid := m')" and items: "\<forall>k x. Item k x \<in> set (mdata m') \<longrightarrow>
        Item k x \<in> set (mdata (svc st nid)) \<or> k = hash_u32 port \<and> x = new_server service instance nid port"
    moreover have "svc_wf nid m'"
      by (rule svc_wf_add [OF sw \<open>map_wf m'\<close> \<open>service \<noteq> 0\<close> \<open>port \<noteq> 0\<close> items])
    ultimately show thesis using that by blast
  qed (use that in blast)+
  then show ?thesis using assms(1) by (auto simp: step_ok_def ns_wf_def)
qed

lemma bye_loop_step: "ns_wf st \<Longrightarrow> step_ok nid st (bye_loop env st nid is)"
proof (induction env st nid "is" rule: bye_loop.induct)
  case (2 env st nid i "is")
  show ?case
  proof (cases "mdata (services (node_at st nid)) ! i")
    case (Item k srv)
    obtain rc st1 where d: "server_del env st nid (srv_port srv) = (rc, st1)" by fastforce
    have "step_ok nid st st1" by (rule server_del_step [OF "2.prems" d])
    moreover from this have "step_ok nid st1 (bye_loop env st1 nid is)"
      using "2.IH"(3) [OF Item] d by (simp add: step_ok_def)
    ultimately show ?thesis using Item d step_ok_trans [of nid st st1] by simp
  qed (use 2 in auto)
qed (simp add: step_ok_refl)


lemma step_ok_wf: "step_ok n st st' \<Longrightarrow> ns_wf st'"
  by (simp add: step_ok_def)

lemma ctrl_cmd_hello_step:
  assumes "ns_wf st" shows "step_ok n st (snd (ctrl_cmd_hello env st sq buf))"
proof -
  obtain rc st1 where s: "sendto env st sq buf = (rc, st1)" by fastforce
  then have "st1 = st\<lparr>sent := sent st @ [(sq, buf)]\<rparr>" by (simp add: sendto_def Let_def)
  then have s1: "step_ok n st st1" using assms step_ok_refl by (simp add: ns_frame)
  obtain nd st2 where g: "node_get env st1 (local_node st1) = (nd, st2)" by fastforce
  have s2: "step_ok n st st2"
    using step_ok_trans [OF s1 node_get_step [OF step_ok_wf [OF s1] g]] .
  have "step_ok n st (snd (annouce_servers env st1 sq))"
  proof (cases nd)
    case (Some nd')
    obtain log where "snd (announce_each env st2 sq (map_items (services nd'))) = st2\<lparr>sent := log\<rparr>"
      using announce_each_sent by blast
    then show ?thesis using Some g s2 by (simp add: annouce_servers_def ns_frame)
  qed (use g s2 in \<open>simp add: annouce_servers_def\<close>)
  then show ?thesis using s s1 by (simp add: ctrl_cmd_hello_def)
qed

lemma ctrl_cmd_bye_step:
  assumes "ns_wf st" shows "step_ok (sq_node from) st (snd (ctrl_cmd_bye env st from))"
proof -
  let ?n = "sq_node from"
  obtain nd st1 where g: "node_get env st ?n = (nd, st1)" by fastforce
  have s1: "step_ok ?n st st1" by (rule node_get_step [OF assms g])
  show ?thesis
  proof (cases nd)
    case (Some nd')
    let ?st2 = "bye_loop env st1 ?n [0..<msize (services nd')]"
    have s2: "step_ok ?n st ?st2"
      using step_ok_trans [OF s1 bye_loop_step [OF step_ok_wf [OF s1]]] .
    obtain ln st3 where g3: "node_get env ?st2 (local_node ?st2) = (ln, st3)" by fastforce
    have "step_ok ?n st st3"
      using step_ok_trans [OF s2 node_get_step [OF step_ok_wf [OF s2] g3]] .
    then show ?thesis using g Some g3
      by (cases ln) (simp_all add: ctrl_cmd_bye_def Let_def send_each_eq ns_frame)
  qed (use g s1 in \<open>simp add: ctrl_cmd_bye_def\<close>)
qed

lemma ctrl_cmd_del_client_step:
  assumes "ns_wf st" shows "step_ok (sq_node from) st (snd (ctrl_cmd_del_client env st from nid port))"
proof (cases "sq_node from \<noteq> nid \<or> (sq_node from = local_node st \<and> sq_port from \<noteq> port)")
  case False
  let ?n = "sq_node from"
  let ?st1 = "st\<lparr>lookups := filter (\<lambda>l. \<not> (sq_node (lk_sq l) = nid \<and> sq_port (lk_sq l) = port)) (lookups st)\<rparr>"
  have "filter (\<lambda>l. sq_node (lk_sq l) \<noteq> ?n) (lookups ?st1) =
      filter (\<lambda>l. sq_node (lk_sq l) \<noteq> ?n) (lookups st)"
    using False by (auto intro!: filter_cong)
  then have s1: "step_ok ?n st ?st1" using assms by (simp add: step_ok_def ns_frame)
  obtain nd st2 where g: "node_get env ?st1 nid = (nd, st2)" by fastforce
  have s2: "step_ok ?n st st2"
    using step_ok_trans [OF s1 node_get_step [OF step_ok_wf [OF s1] g]] .
  obtain rc st3 where d: "server_del env st2 nid port = (rc, st3)" by fastforce
  have s3: "step_ok ?n st st3"
    using step_ok_trans [OF s2] server_del_step [OF step_ok_wf [OF s2] d] False by simp
  let ?st4 = "case nd of Some x \<Rightarrow> st3 | None \<Rightarrow> st2"
  have s4: "step_ok ?n st ?st4" using s2 s3 by (simp split: option.splits)
  obtain ln st5 where g5: "node_get env ?st4 (local_node ?st4) = (ln, st5)" by fastforce
  have "step_ok ?n st st5"
    using step_ok_trans [OF s4 node_get_step [OF step_ok_wf [OF s4] g5]] .
  moreover have "step_ok ?n st st" using assms step_ok_refl by simp
  ultimately show ?thesis using False g d g5
    by (cases nd; cases ln) (auto simp add: ctrl_cmd_del_client_def Let_def send_each_eq ns_frame split: prod.splits)
qed (use assms step_ok_refl in \<open>auto simp: ctrl_cmd_del_client_def\<close>)

lemma ctrl_cmd_new_server_step:
  assumes "ns_wf st"
  shows "step_ok (sq_node from) st (snd (ctrl_cmd_new_server env st from service instance nid port))"
proof -
  let ?n = "sq_node from"
  define p where "p = (if ?n = local_node st then sq_port from else port)"
  obtain r st1 where a: "server_add env st service instance ?n p = (r, st1)" by fastforce
  have s1: "step_ok ?n st st1" by (rule server_add_step [OF assms a])
  show ?thesis
  proof (cases "?n = local_node st \<or> ?n = nid")
    case True
    then show ?thesis using a s1
      by (cases r) (auto simp: ctrl_cmd_new_server_def p_def notify_lookups_eq service_announce_new_def
          sendto_def Let_def ns_frame split: if_splits)
  next
    case False
    then show ?thesis using assms step_ok_refl by (simp add: ctrl_cmd_new_server_def)
  qed
qed

lemma ctrl_cmd_del_server_step:
  assumes "ns_wf st"
  shows "step_ok (sq_node from) st (snd (ctrl_cmd_del_server env st from service instance nid port))"
proof -
  let ?n = "sq_node from"
  define p where "p = (if ?n = local_node st then sq_port from else port)"
  obtain nd st1 where g: "node_get env st ?n = (nd, st1)" by fastforce
  have s1: "step_ok ?n st st1" by (rule node_get_step [OF assms g])
  obtain rc st2 where d: "server_del env st1 ?n p = (rc, st2)" by fastforce
  have "step_ok ?n st st2"
    using step_ok_trans [OF s1 server_del_step [OF step_ok_wf [OF s1] d]] .
  then show ?thesis using s1 g d assms step_ok_refl
    by (cases nd) (auto simp: ctrl_cmd_del_server_def p_def split: if_splits)
qed

lemma ctrl_cmd_new_lookup_step:
  assumes "ns_wf st"
  shows "step_ok (sq_node from) st (snd (ctrl_cmd_new_lookup env st from service instance))"
  using assms step_ok_refl [OF assms]
  by (auto simp: ctrl_cmd_new_lookup_def calloc_def Let_def notify_each_eq lookup_notify_def sendto_def
      step_ok_def ns_frame split: if_splits)

lemma ctrl_cmd_del_lookup_step:
  assumes "ns_wf st"
  shows "step_ok (sq_node from) st (snd (ctrl_cmd_del_lookup env st from service instance))"
  using assms by (auto simp: ctrl_cmd_del_lookup_def step_ok_def ns_frame intro!: filter_cong)

lemmas handler_steps = ctrl_cmd_hello_step ctrl_cmd_bye_step ctrl_cmd_del_client_step
  ctrl_cmd_new_server_step ctrl_cmd_del_server_step ctrl_cmd_new_lookup_step ctrl_cmd_del_lookup_step

lemma dispatch_step: "ns_wf st \<Longrightarrow> step_ok (sq_node sq) st (snd (dispatch env st sq msg data))"
  by (simp add: dispatch_def handler_steps step_ok_refl)


section \<open>The registry as a specification\<close>

text \<open>
  What the protocol promises, on the registry alone: who may register and unregister which server,
  and what a node or a client that goes away takes with it.
\<close>

definition eff_addr :: "u32 \<Rightarrow> sockaddr_qrtr \<Rightarrow> qrtr_ctrl_pkt \<Rightarrow> u32 \<times> u32" where
  "eff_addr local sq msg = (if sq_node sq = local then (sq_node sq, sq_port sq)
     else (server_node msg, server_port msg))"

type_synonym registry = "u32 \<Rightarrow> u32 \<Rightarrow> server option"

definition unregister :: "registry \<Rightarrow> u32 \<times> u32 \<Rightarrow> registry" where
  "unregister R a = R(fst a := (R (fst a))(snd a := None))"

definition register :: "registry \<Rightarrow> u32 \<times> u32 \<Rightarrow> u32 \<Rightarrow> u32 \<Rightarrow> registry" where
  "register R a service instance =
     R(fst a := (R (fst a))(snd a \<mapsto> new_server service instance (fst a) (snd a)))"

definition ns_spec :: "u32 \<Rightarrow> sockaddr_qrtr \<Rightarrow> qrtr_ctrl_pkt \<Rightarrow> registry \<Rightarrow> registry" where
  "ns_spec local sq msg R =
    (if cmd msg = QRTR_TYPE_BYE then R(sq_node sq := Map.empty)
     else if cmd msg = QRTR_TYPE_DEL_CLIENT then
       if sq_node sq = client_node msg \<and> (sq_node sq = local \<longrightarrow> sq_port sq = client_port msg)
       then unregister R (client_node msg, client_port msg) else R
     else if cmd msg = QRTR_TYPE_NEW_SERVER then
       if fst (eff_addr local sq msg) = sq_node sq \<and> snd (eff_addr local sq msg) \<noteq> 0 \<and>
          server_service msg \<noteq> 0
       then register R (eff_addr local sq msg) (server_service msg) (server_instance msg) else R
     else if cmd msg = QRTR_TYPE_DEL_SERVER then
       if fst (eff_addr local sq msg) = sq_node sq then unregister R (eff_addr local sq msg) else R
     else R)"

lemma reg_comp: "reg st n = map_get (svc st n) \<circ> hash_u32"
  by (auto simp: reg_def)

lemma hash_comp_upd: "(f(hash_u32 p := x)) \<circ> hash_u32 = (f \<circ> hash_u32)(p := x)"
  by (auto simp: fun_eq_iff)

lemma reg_svc: "svc st' = svc st \<Longrightarrow> reg st' = reg st"
  by (auto simp: reg_def fun_eq_iff)

lemma svcs_ok_svc: "svc st' = svc st \<Longrightarrow> svcs_ok st' = svcs_ok st"
  by (simp add: svcs_ok_def)

lemma svcs_ok_cong [ns_frame]:
  "svcs_ok (st\<lparr>sent := a\<rparr>) = svcs_ok st" "svcs_ok (st\<lparr>allocs := b\<rparr>) = svcs_ok st"
  "svcs_ok (st\<lparr>lookups := c\<rparr>) = svcs_ok st" "svcs_ok (st\<lparr>sock := d\<rparr>) = svcs_ok st"
  by (simp_all add: svcs_ok_def ns_frame)

lemma server_del_reg:
  assumes "nodes_ok st" "svcs_ok st" "server_del env st nid port = (rc, st')"
  shows "svcs_ok st'" "reg st' = unregister (reg st) (nid, port)"
proof -
  let ?m = "snd (map_remove (svc st nid) (hash_u32 port))"
  note e = server_del_effect [OF assms(1,3)]
  have "map_ok (svc st nid)" using assms(2) by (simp add: svcs_ok_def)
  from map_remove_ok [OF this, of "hash_u32 port" "fst (map_remove (svc st nid) (hash_u32 port))" ?m]
  have m: "map_ok ?m" "map_get ?m = (map_get (svc st nid))(hash_u32 port := None)" by auto
  show "svcs_ok st'" using e(3) m(1) assms(2) by (auto simp: svcs_ok_def)
  show "reg st' = unregister (reg st) (nid, port)"
    by (rule ext) (simp add: unregister_def reg_comp e(3) m(2) hash_comp_upd)
qed

lemma node_get_reg:
  assumes "ns_wf st" "node_get env st nid = (r, st')"
  shows "ns_wf st'" "reg st' = reg st" "svcs_ok st' = svcs_ok st" "svc st' = svc st"
    "lookups st' = lookups st" "sent st' = sent st" "local_node st' = local_node st"
    "r = None \<Longrightarrow> svc st nid = map_create" "r = Some nd \<Longrightarrow> nd = node_at st' nid"
proof -
  have "nodes_ok st" using assms(1) by (simp add: ns_wf_def)
  from node_get_cases [OF this assms(2)] obtain n a where e: "st' = st\<lparr>nodes := n, allocs := a\<rparr>"
    "svc st' = svc st" "(r = None \<and> \<not> present st nid \<and> oom env) \<or>
      (present st' nid \<and> r = Some (node_at st' nid))" by blast
  show "ns_wf st'" using node_get_step [OF assms] by (simp add: step_ok_def)
  show "reg st' = reg st" by (rule reg_svc [OF e(2)])
  show "svcs_ok st' = svcs_ok st" by (rule svcs_ok_svc [OF e(2)])
  show "svc st' = svc st" by (rule e(2))
  show "lookups st' = lookups st" "sent st' = sent st" "local_node st' = local_node st"
    using e(1) by simp_all
  show "r = None \<Longrightarrow> svc st nid = map_create" using e(3) absent_svc by blast
  show "r = Some nd \<Longrightarrow> nd = node_at st' nid" using e(3) by auto
qed

lemma unregister_absent: "R n p = None \<Longrightarrow> unregister R (n, p) = R"
  by (auto simp: unregister_def fun_eq_iff)

text \<open>The deleting loop of \<open>ctrl_cmd_bye\<close> leaves no server of the node.\<close>

lemma map_find_item:
  assumes "map_ok m" "i < msize m" "mdata m ! i = Item k v"
  shows "map_find m k = Some i"
proof (cases "map_find m k")
  case None
  with map_find_None [of m k i v] assms show ?thesis by (simp add: map_ok_def)
next
  case (Some j)
  with map_find_Some [of m k j] assms have "j < msize m" "\<exists>w. mdata m ! j = Item k w"
    by (auto simp: map_ok_def)
  with assms Some show ?thesis by (auto simp: map_ok_def map_wf_def keys_distinct_def)
qed

lemma bye_loop_reg:
  assumes "ns_wf st" "svcs_ok st"
    "\<And>i. i < msize (svc st nid) \<Longrightarrow> is_item (mdata (svc st nid) ! i) \<Longrightarrow> i \<in> set is"
    "set is \<subseteq> {..<msize (svc st nid)}"
  shows "svcs_ok (bye_loop env st nid is) \<and> reg (bye_loop env st nid is) = (reg st)(nid := Map.empty)"
  using assms
proof (induction "is" arbitrary: st)
  case Nil
  have ok: "map_ok (svc st nid)" using Nil.prems(2) by (simp add: svcs_ok_def)
  then have "map_wf (svc st nid)" "length (mdata (svc st nid)) = msize (svc st nid)"
    by (auto simp: map_ok_def map_wf_def)
  with Nil.prems(3) have "map_get (svc st nid) k = None" for k
    unfolding map_get_None [OF \<open>map_wf (svc st nid)\<close>]
    by (metis empty_iff in_set_conv_nth is_item.simps(1) list.set(1))
  then have "reg st nid = Map.empty" by (auto simp: reg_comp fun_eq_iff)
  then show ?case using Nil.prems(2) by (auto simp: fun_eq_iff)
next
  case (Cons i "is")
  let ?m = "svc st nid"
  have i: "i < msize ?m" and ok: "map_ok ?m" and no: "nodes_ok st"
    using Cons.prems by (auto simp: svcs_ok_def ns_wf_def)
  show ?case
  proof (cases "mdata ?m ! i")
    case (Item k srv)
    then have "k = hash_u32 (srv_port srv)"
      using Cons.prems(1) ok i unfolding ns_wf_def svc_wf_def server_ok_def map_ok_def map_wf_def
      by (metis nth_mem)
    with map_find_item [OF ok i Item]
    have rm: "snd (map_remove ?m (hash_u32 (srv_port srv))) = ?m\<lparr>mdata := (mdata ?m)[i := Deleted], mcount := mcount ?m - 1\<rparr>"
      by (simp add: map_remove_def)
    obtain rc st1 where d: "server_del env st nid (srv_port srv) = (rc, st1)" by fastforce
    have s1: "ns_wf st1" using server_del_step [OF Cons.prems(1) d] by (simp add: step_ok_def)
    note r1 = server_del_reg [OF no Cons.prems(2) d]
    have sv: "svc st1 nid = ?m\<lparr>mdata := (mdata ?m)[i := Deleted], mcount := mcount ?m - 1\<rparr>"
      using server_del_effect(3) [OF no d] rm by simp
    have len: "length (mdata ?m) = msize ?m" using ok by (simp add: map_ok_def map_wf_def)
    have "svcs_ok (bye_loop env st1 nid is) \<and> reg (bye_loop env st1 nid is) = (reg st1)(nid := Map.empty)"
    proof (rule Cons.IH [OF s1 r1(1)])
      fix j assume "j < msize (svc st1 nid)" "is_item (mdata (svc st1 nid) ! j)"
      then show "j \<in> set is" using Cons.prems(3) [of j] sv i len by (cases "j = i") auto
    qed (use Cons.prems(4) sv in auto)
    moreover have "(reg st1)(nid := Map.empty) = (reg st)(nid := Map.empty)"
      using r1(2) by (auto simp: unregister_def fun_eq_iff)
    ultimately show ?thesis using Item d by (simp add: svc_def)
  next
    case Empty
    have "svcs_ok (bye_loop env st nid is) \<and> reg (bye_loop env st nid is) = (reg st)(nid := Map.empty)"
      by (rule Cons.IH [OF Cons.prems(1,2)]) (use Cons.prems(3,4) Empty in \<open>force+\<close>)
    then show ?thesis using Empty by (simp add: svc_def)
  next
    case Deleted
    have "svcs_ok (bye_loop env st nid is) \<and> reg (bye_loop env st nid is) = (reg st)(nid := Map.empty)"
      by (rule Cons.IH [OF Cons.prems(1,2)]) (use Cons.prems(3,4) Deleted in \<open>force+\<close>)
    then show ?thesis using Deleted by (simp add: svc_def)
  qed
qed


lemma ctrl_cmd_bye_reg:
  assumes "ns_wf st" "svcs_ok st"
  shows "svcs_ok (snd (ctrl_cmd_bye env st from)) \<and>
    reg (snd (ctrl_cmd_bye env st from)) = (reg st)(sq_node from := Map.empty)"
proof -
  let ?n = "sq_node from"
  obtain nd st1 where g: "node_get env st ?n = (nd, st1)" by fastforce
  note g1 = node_get_reg [OF assms(1) g]
  show ?thesis
  proof (cases nd)
    case None
    then have "reg st ?n = Map.empty" using g1(8) by (auto simp: reg_comp fun_eq_iff)
    then show ?thesis using None g g1(2,3) assms(2) by (auto simp: ctrl_cmd_bye_def fun_eq_iff)
  next
    case (Some nd')
    have sv: "services nd' = svc st1 ?n" using g1(9) Some by (simp add: svc_def)
    let ?st2 = "bye_loop env st1 ?n [0..<msize (services nd')]"
    have ok1: "svcs_ok st1" using g1(3) assms(2) by simp
    have r2: "svcs_ok ?st2 \<and> reg ?st2 = (reg st1)(?n := Map.empty)"
      by (rule bye_loop_reg [OF g1(1) ok1]) (auto simp: sv)
    have w2: "ns_wf ?st2" using bye_loop_step [OF g1(1)] by (rule step_ok_wf)
    obtain ln st3 where g3: "node_get env ?st2 (local_node ?st2) = (ln, st3)" by fastforce
    note g3' = node_get_reg [OF w2 g3]
    show ?thesis using g Some g3 g3'(2,3) r2 g1(2)
      by (cases ln) (simp_all add: ctrl_cmd_bye_def Let_def send_each_eq ns_frame)
  qed
qed

lemma ctrl_cmd_del_server_reg:
  assumes "ns_wf st" "svcs_ok st" "from_ok = (sq_node from = local_node st \<or> sq_node from = nid)"
    "p = (if sq_node from = local_node st then sq_port from else port)"
  shows "svcs_ok (snd (ctrl_cmd_del_server env st from service instance nid port)) \<and>
    reg (snd (ctrl_cmd_del_server env st from service instance nid port)) =
      (if from_ok then unregister (reg st) (sq_node from, p) else reg st)"
proof -
  let ?n = "sq_node from"
  obtain nd st1 where g: "node_get env st ?n = (nd, st1)" by fastforce
  note g1 = node_get_reg [OF assms(1) g]
  obtain rc st2 where d: "server_del env st1 ?n p = (rc, st2)" by fastforce
  have ok1: "nodes_ok st1" "svcs_ok st1" using g1(1,3) assms(2) by (auto simp: ns_wf_def)
  note d2 = server_del_reg [OF ok1 d]
  show ?thesis
  proof (cases nd)
    case None
    then have "reg st ?n p = None" using g1(8) by (auto simp: reg_comp)
    then have "unregister (reg st) (?n, p) = reg st" by (rule unregister_absent)
    then show ?thesis using None g g1(2,3) assms by (auto simp: ctrl_cmd_del_server_def)
  next
    case (Some nd')
    then show ?thesis using g d d2 g1(2) assms by (auto simp: ctrl_cmd_del_server_def)
  qed
qed

lemma ctrl_cmd_del_client_reg:
  assumes "ns_wf st" "svcs_ok st"
    "from_ok = (sq_node from = nid \<and> (sq_node from = local_node st \<longrightarrow> sq_port from = port))"
  shows "svcs_ok (snd (ctrl_cmd_del_client env st from nid port)) \<and>
    reg (snd (ctrl_cmd_del_client env st from nid port)) =
      (if from_ok then unregister (reg st) (nid, port) else reg st)"
proof (cases from_ok)
  case False
  then show ?thesis using assms by (auto simp: ctrl_cmd_del_client_def)
next
  case True
  let ?st1 = "st\<lparr>lookups := filter (\<lambda>l. \<not> (sq_node (lk_sq l) = nid \<and> sq_port (lk_sq l) = port)) (lookups st)\<rparr>"
  have w1: "ns_wf ?st1" "svcs_ok ?st1" using assms by (simp_all add: ns_frame)
  obtain nd st2 where g: "node_get env ?st1 nid = (nd, st2)" by fastforce
  note g2 = node_get_reg [OF w1(1) g]
  obtain rc st3 where d: "server_del env st2 nid port = (rc, st3)" by fastforce
  have ok2: "nodes_ok st2" "svcs_ok st2" using g2(1,3) w1(2) by (auto simp: ns_wf_def)
  note d3 = server_del_reg [OF ok2 d] and w3 = step_ok_wf [OF server_del_step [OF g2(1) d]]
  let ?st4 = "case nd of Some x \<Rightarrow> st3 | None \<Rightarrow> st2"
  have r4: "ns_wf ?st4" "svcs_ok ?st4" "reg ?st4 = unregister (reg st) (nid, port)"
  proof -
    have "nd = None \<Longrightarrow> reg st nid port = None" using g2(8) by (auto simp: reg_comp ns_frame)
    then have "nd = None \<Longrightarrow> unregister (reg st) (nid, port) = reg st" by (simp add: unregister_absent)
    then show "ns_wf ?st4" "svcs_ok ?st4" "reg ?st4 = unregister (reg st) (nid, port)"
      using g2(1,2) ok2 d3 w3 by (auto simp: ns_frame split: option.splits)
  qed
  obtain ln st5 where g5: "node_get env ?st4 (local_node ?st4) = (ln, st5)" by fastforce
  note g5' = node_get_reg [OF r4(1) g5]
  have "snd (ctrl_cmd_del_client env st from nid port) = st5 \<or>
      (\<exists>log. snd (ctrl_cmd_del_client env st from nid port) = st5\<lparr>sent := log\<rparr>)"
    using True assms(3) g d g5
    by (cases nd; cases ln) (auto simp: ctrl_cmd_del_client_def Let_def send_each_eq split: prod.splits)
  then show ?thesis using g5'(2,3) r4 True by (auto simp: ns_frame)
qed

lemma ctrl_cmd_new_server_reg:
  assumes "ns_wf st" "svcs_ok st" "from_ok = (sq_node from = local_node st \<or> sq_node from = nid)"
    "p = (if sq_node from = local_node st then sq_port from else port)"
    and fresh: "reg st (sq_node from) p = None"
  shows "svcs_ok (snd (ctrl_cmd_new_server env st from service instance nid port)) \<and>
    (reg (snd (ctrl_cmd_new_server env st from service instance nid port)) =
      (if from_ok \<and> p \<noteq> 0 \<and> service \<noteq> 0 then register (reg st) (sq_node from, p) service instance else reg st) \<or>
     oom env \<and> reg (snd (ctrl_cmd_new_server env st from service instance nid port)) = reg st)"
proof -
  let ?n = "sq_node from"
  obtain r st1 where a: "server_add env st service instance ?n p = (r, st1)" by fastforce
  have ok: "nodes_ok st" "map_wf (svc st ?n)" "map_ok (svc st ?n)"
    using assms(1,2) by (auto simp: ns_wf_def svc_wf_def svcs_ok_def)
  from server_add_effect [OF ok(1,2) a] have
    e: "r = None \<and> svc st1 = svc st \<and> (service = 0 \<or> p = 0 \<or> oom env) \<or>
     r = Some (new_server service instance ?n p) \<and> service \<noteq> 0 \<and> p \<noteq> 0 \<and>
     svcs_ok st1 \<and> reg st1 = register (reg st) (?n, p) service instance"
  proof (elim exE conjE disjE)
    fix n a m' assume *: "r = Some (new_server service instance ?n p)" "service \<noteq> 0" "p \<noteq> 0"
      "svc st1 = (svc st)(?n := m')" "map_ok (svc st ?n) \<and> reg st ?n p = None \<longrightarrow> map_ok m' \<and>
          map_get m' = (map_get (svc st ?n))(hash_u32 p \<mapsto> new_server service instance ?n p)"
    then have m: "map_ok m'" "map_get m' = (map_get (svc st ?n))(hash_u32 p \<mapsto> new_server service instance ?n p)"
      using ok(3) fresh by auto
    have "reg st1 = register (reg st) (?n, p) service instance"
      by (rule ext) (simp add: register_def reg_comp *(4) m(2) hash_comp_upd)
    moreover have "svcs_ok st1" using *(4) m(1) assms(2) by (auto simp: svcs_ok_def)
    ultimately show ?thesis using * by simp
  qed auto
  have "snd (ctrl_cmd_new_server env st from service instance nid port) = st1 \<or>
      (\<exists>log. snd (ctrl_cmd_new_server env st from service instance nid port) = st1\<lparr>sent := log\<rparr>)"
    if from_ok
  proof -
    have *: "ctrl_cmd_new_server env st from service instance nid port =
      (case server_add env st service instance ?n p of
        (None, st1) \<Rightarrow> (- EINVAL, st1)
      | (Some srv, st1) \<Rightarrow> let (rc, st2) = (if srv_node srv = local_node st1
            then service_announce_new env st1 (bcast_sq st1) srv else (0, st1))
          in (rc, notify_lookups env st2 (lookups st2) srv True))"
      using that assms(3,4) by (auto simp: ctrl_cmd_new_server_def split: prod.splits option.splits)
    show ?thesis unfolding * a
      by (cases r) (auto simp: notify_lookups_eq service_announce_new_def sendto_def Let_def)
  qed
  moreover have "\<not> from_ok \<Longrightarrow> snd (ctrl_cmd_new_server env st from service instance nid port) = st"
    using assms(3) by (auto simp: ctrl_cmd_new_server_def)
  moreover have "r = None \<Longrightarrow> svcs_ok st1 \<and> reg st1 = reg st"
    using e assms(2) reg_svc [of st1 st] svcs_ok_svc [of st1 st] by simp
  ultimately show ?thesis using e assms(2) by (cases from_ok) (auto simp: ns_frame)
qed


section \<open>Runs of the daemon\<close>

inductive ns_reach :: "ns_env \<Rightarrow> int \<Rightarrow> u32 \<Rightarrow> ns \<Rightarrow> bool" for env fd local where
  start: "ns_start env fd local = Some st \<Longrightarrow> ns_reach env fd local st"
| step: "ns_reach env fd local st \<Longrightarrow> sock st \<ge> 0 \<Longrightarrow> ns_reach env fd local (ctrl_port_fn env st ev)"

inductive_cases ns_reachE: "ns_reach env fd local st"

lemma ns_start_wf: "ns_start env fd local = Some st \<Longrightarrow> ns_wf st"
  by (auto simp: ns_start_def say_hello_def sendto_def Let_def ns_wf_def nodes_ok_def svc_wf_def
      svc_def node_at_def map_ok_create map_wf_create map_create_def [THEN arg_cong [of _ _ mdata]]
      split: if_splits)

lemma ctrl_port_fn_step:
  assumes "ns_wf st"
  shows "ns_wf (ctrl_port_fn env st ev)"
  using assms dispatch_step [OF assms, THEN step_ok_wf]
  by (auto simp: ctrl_port_fn_def ns_frame split: rx.splits)

lemma ns_reach_wf: "ns_reach env fd local st \<Longrightarrow> ns_wf st"
  by (induction rule: ns_reach.induct) (auto intro: ns_start_wf ctrl_port_fn_step)

lemma ns_loop_reach: "ns_reach env fd local st \<Longrightarrow> ns_reach env fd local (ns_loop env st evs)"
  by (induction evs arbitrary: st) (auto intro: ns_reach.step)

lemma svc_items:
  assumes "ns_wf st" "srv \<in> set (map_items (svc st n))"
  shows "srv_node srv = n" "srv_service srv \<noteq> 0" "srv_port srv \<noteq> 0"
proof -
  have "map_wf (svc st n)" using assms(1) by (simp add: ns_wf_def svc_wf_def)
  with assms(2) obtain k where "Item k srv \<in> set (mdata (svc st n))"
    by (auto simp: map_items_eq is_item_iff)
  with assms(1) have "server_ok n k srv" by (auto simp: ns_wf_def svc_wf_def)
  then show "srv_node srv = n" "srv_service srv \<noteq> 0" "srv_port srv \<noteq> 0" by (simp_all add: server_ok_def)
qed


lemma quiet_handlers_reg:
  assumes "ns_wf st" "svcs_ok st"
  shows "svcs_ok (snd (ctrl_cmd_hello env st sq data)) \<and> reg (snd (ctrl_cmd_hello env st sq data)) = reg st"
    "svcs_ok (snd (ctrl_cmd_new_lookup env st sq a b)) \<and> reg (snd (ctrl_cmd_new_lookup env st sq a b)) = reg st"
    "svcs_ok (snd (ctrl_cmd_del_lookup env st sq a b)) \<and> reg (snd (ctrl_cmd_del_lookup env st sq a b)) = reg st"
proof -
  obtain rc st1 where s: "sendto env st sq data = (rc, st1)" by fastforce
  then have st1: "st1 = st\<lparr>sent := sent st @ [(sq, data)]\<rparr>" by (simp add: sendto_def Let_def)
  then have w: "ns_wf st1" using assms(1) by (simp add: ns_frame)
  obtain nd st2 where g: "node_get env st1 (local_node st1) = (nd, st2)" by fastforce
  note g2 = node_get_reg [OF w g]
  have "snd (ctrl_cmd_hello env st sq data) = st1 \<or> (\<exists>log. snd (ctrl_cmd_hello env st sq data) = st2\<lparr>sent := log\<rparr>)
      \<or> snd (ctrl_cmd_hello env st sq data) = st2"
    using s g announce_each_sent [of env st2 sq]
    by (auto simp: ctrl_cmd_hello_def annouce_servers_def split: option.splits)
  then show "svcs_ok (snd (ctrl_cmd_hello env st sq data)) \<and> reg (snd (ctrl_cmd_hello env st sq data)) = reg st"
    using st1 g2(2,3) assms(2) by (auto simp: ns_frame)
  show "svcs_ok (snd (ctrl_cmd_new_lookup env st sq a b)) \<and> reg (snd (ctrl_cmd_new_lookup env st sq a b)) = reg st"
    using assms(2) by (auto simp: ctrl_cmd_new_lookup_def calloc_def Let_def notify_each_eq
        lookup_notify_def sendto_def ns_frame)
  show "svcs_ok (snd (ctrl_cmd_del_lookup env st sq a b)) \<and> reg (snd (ctrl_cmd_del_lookup env st sq a b)) = reg st"
    using assms(2) by (simp add: ctrl_cmd_del_lookup_def ns_frame)
qed

lemma eff_addr_own:
  assumes "fst (eff_addr local sq msg) = sq_node sq"
  shows "eff_addr local sq msg = (sq_node sq, if sq_node sq = local then sq_port sq else server_port msg)"
  using assms by (auto simp: eff_addr_def)

lemma eff_addr_iff:
  "fst (eff_addr local sq msg) = sq_node sq \<longleftrightarrow> sq_node sq = local \<or> sq_node sq = server_node msg"
  "snd (eff_addr local sq msg) = (if sq_node sq = local then sq_port sq else server_port msg)"
  by (auto simp: eff_addr_def)

lemma dispatch_refines:
  assumes wf: "ns_wf st" "svcs_ok st"
    and fresh: "cmd msg = QRTR_TYPE_NEW_SERVER \<Longrightarrow>
      reg st (sq_node sq) (snd (eff_addr (local_node st) sq msg)) = None"
  shows "svcs_ok (snd (dispatch env st sq msg data)) \<and>
    (reg (snd (dispatch env st sq msg data)) = ns_spec (local_node st) sq msg (reg st) \<or>
     oom env \<and> cmd msg = QRTR_TYPE_NEW_SERVER \<and> reg (snd (dispatch env st sq msg data)) = reg st)"
proof -
  let ?p = "if sq_node sq = local_node st then sq_port sq else server_port msg"
  consider (bye) "cmd msg = QRTR_TYPE_BYE" | (delc) "cmd msg = QRTR_TYPE_DEL_CLIENT"
    | (new) "cmd msg = QRTR_TYPE_NEW_SERVER" | (del) "cmd msg = QRTR_TYPE_DEL_SERVER"
    | (other) "cmd msg \<notin> {QRTR_TYPE_BYE, QRTR_TYPE_DEL_CLIENT, QRTR_TYPE_NEW_SERVER, QRTR_TYPE_DEL_SERVER}"
    by blast
  then show ?thesis
  proof cases
    case bye
    then show ?thesis using ctrl_cmd_bye_reg [OF wf] by (simp add: dispatch_def ns_spec_def)
  next
    case delc
    then show ?thesis using ctrl_cmd_del_client_reg [OF wf refl, of env sq "client_node msg" "client_port msg"]
      by (simp add: dispatch_def ns_spec_def)
  next
    case new
    have "reg st (sq_node sq) ?p = None" using fresh [OF new] by (simp only: eff_addr_iff)
    from ctrl_cmd_new_server_reg [OF wf refl refl this, of env "server_service msg" "server_instance msg"
        "server_node msg"] new show ?thesis
      by (auto simp: dispatch_def ns_spec_def eff_addr_def)
  next
    case del
    then show ?thesis using ctrl_cmd_del_server_reg [OF wf refl refl, of env sq "server_service msg"
        "server_instance msg" "server_node msg" "server_port msg"]
      by (auto simp: dispatch_def ns_spec_def eff_addr_def)
  next
    case other
    then show ?thesis using quiet_handlers_reg [OF wf] wf(2) by (simp add: dispatch_def ns_spec_def)
  qed
qed

section \<open>Properties\<close>

abbreviation demo_env :: ns_env where
  "demo_env \<equiv> \<lparr>sendto_rc = \<lambda>_. 20, calloc_ok = \<lambda>_ _. True, junk = \<lambda>_. (0, 0)\<rparr>"

definition demo_start :: ns where
  "demo_start = the (ns_start demo_env 3 1)"

lemma demo_start: "ns_start demo_env 3 1 = Some demo_start"
  by (simp add: demo_start_def ns_start_def say_hello_def sendto_def)

lemma demo_wf: "ns_wf demo_start"
  using demo_start by (rule ns_start_wf)

lemma demo_svc: "svc demo_start n = map_create" "local_node demo_start = 1" "lookups demo_start = []"
  by (simp_all add: demo_start_def ns_start_def say_hello_def sendto_def svc_def node_at_def)



text \<open>
  C12: spoofing has no effect. Whatever a datagram from node \<open>n\<close> says, the tables of the servers of
  all other nodes and the lookups of clients on other nodes are the same before and after, and the
  state stays well-formed.
\<close>

theorem ns_no_spoofing:
  assumes "ns_wf st" "n = sq_node sq"
  shows "ns_wf (ctrl_port_fn env st (Rx sq bs stale)) \<and>
    (\<forall>k. k \<noteq> n \<longrightarrow> svc (ctrl_port_fn env st (Rx sq bs stale)) k = svc st k) \<and>
    filter (\<lambda>l. sq_node (lk_sq l) \<noteq> n) (lookups (ctrl_port_fn env st (Rx sq bs stale))) =
    filter (\<lambda>l. sq_node (lk_sq l) \<noteq> n) (lookups st)"
  using assms dispatch_step [OF assms(1), of sq env] by (simp add: ctrl_port_fn_def step_ok_def ns_frame)

theorem ns_no_spoofing_witness:
  "ns_wf (ctrl_port_fn demo_env demo_start (Rx \<lparr>sq_family = 42, sq_node = 7, sq_port = 5\<rparr> [4,0,0,0] (\<lambda>_. 1))) \<and>
    svc (ctrl_port_fn demo_env demo_start
      (Rx \<lparr>sq_family = 42, sq_node = 7, sq_port = 5\<rparr> [4,0,0,0] (\<lambda>_. 1))) 3 = svc demo_start 3"
  using ns_no_spoofing [OF demo_wf, of 7 "\<lparr>sq_family = 42, sq_node = 7, sq_port = 5\<rparr>" demo_env
      "[4,0,0,0]" "\<lambda>_. 1"] by simp


abbreviation demo_peer :: sockaddr_qrtr where
  "demo_peer \<equiv> \<lparr>sq_family = 42, sq_node = 7, sq_port = 5\<rparr>"

abbreviation demo_new :: qrtr_ctrl_pkt where
  "demo_new \<equiv> \<lparr>cmd = 4, word0 = 15, word1 = 1, word2 = 7, word3 = 5\<rparr>"


end
