(* ===== verification/Qrtr_Ns_View.thy ===== *)
theory Qrtr_Ns_View
  imports Qrtr_Ns Qrtr_List
begin

text \<open>
  What the observers of the name service (\<open>qcom/qrtr/src/ns.c\<close>) learn: a client that has
  sent \<open>NEW_LOOKUP\<close> and applies the notifications it receives knows, after every packet the service
  handles, exactly the registered servers it asked for.
\<close>

section \<open>What an observer knows\<close>

text \<open>
  An observer that applies every notification it receives: \<open>view l st\<close> is the set of registered
  servers its lookup asks for, \<open>rcvd l pk\<close> the packets of a log sent to its address, and \<open>see\<close> what
  it makes of one (a \<open>NEW_SERVER\<close> of all zeros only ends the first list). \<open>in_sync\<close> says that the packets sent between two states take the observer from the
  view of the first to the view of the second.
\<close>

definition view :: "lookup \<Rightarrow> ns \<Rightarrow> server set" where
  "view l st = {srv. (\<exists>n p. reg st n p = Some srv) \<and>
     \<not> lookup_skips l (srv_service srv) (srv_instance srv)}"

definition pkt_server :: "qrtr_ctrl_pkt \<Rightarrow> server" where
  "pkt_server pkt = new_server (server_service pkt) (server_instance pkt) (server_node pkt) (server_port pkt)"

definition see :: "server set \<Rightarrow> qrtr_ctrl_pkt \<Rightarrow> server set" where
  "see V pkt = (if cmd pkt = QRTR_TYPE_NEW_SERVER then
       (if pkt_server pkt = new_server 0 0 0 0 then V else insert (pkt_server pkt) V)
     else if cmd pkt = QRTR_TYPE_DEL_SERVER then V - {pkt_server pkt} else V)"

definition rcvd :: "lookup \<Rightarrow> (sockaddr_qrtr \<times> bytes) list \<Rightarrow> qrtr_ctrl_pkt list" where
  "rcvd l pk = map (pkt_of \<circ> snd) (filter (\<lambda>x. fst x = lk_sq l) pk)"

definition sole :: "lookup \<Rightarrow> ns \<Rightarrow> bool" where
  "sole l st = (filter (\<lambda>k. lk_sq k = lk_sq l) (lookups st) = [l] \<and> lk_sq l \<noteq> bcast_sq st)"

definition in_sync :: "lookup \<Rightarrow> ns \<Rightarrow> ns \<Rightarrow> bool" where
  "in_sync l st st' = (sole l st' \<and>
     (\<exists>pk. sent st' = sent st @ pk \<and> foldl see (view l st) (rcvd l pk) = view l st'))"

lemma in_sync_refl: "sole l st \<Longrightarrow> in_sync l st st"
  by (auto simp: in_sync_def rcvd_def intro: exI [of _ "[]"])

lemma in_sync_trans: "in_sync l st st' \<Longrightarrow> in_sync l st' st'' \<Longrightarrow> in_sync l st st''"
  by (fastforce simp: in_sync_def rcvd_def)

lemma in_sync_sole: "in_sync l st st' \<Longrightarrow> sole l st'"
  by (simp add: in_sync_def)

lemma server_eqI: "srv = new_server (srv_service srv) (srv_instance srv) (srv_node srv) (srv_port srv)"
  by simp

lemma pkt_server_pkt [simp]: "pkt_server (server_pkt c srv) = srv"
  by (simp add: pkt_server_def server_pkt_def pkt_views)

lemma cmd_server_pkt [simp]: "cmd (server_pkt c srv) = c"
  by (simp add: server_pkt_def)

lemma rcvd_append [simp]: "rcvd l (xs @ ys) = rcvd l xs @ rcvd l ys"
  by (simp add: rcvd_def)

lemma rcvd_note_pkts:
  assumes "sole l st"
  shows "rcvd l (note_pkts (lookups st) srv new) =
    (if lookup_skips l (srv_service srv) (srv_instance srv) then [] else [notify_pkt (Some srv) new])"
proof -
  let ?Q = "\<lambda>k. \<not> lookup_skips k (srv_service srv) (srv_instance srv)"
  have "filter (\<lambda>k. lk_sq k = lk_sq l) (filter ?Q (lookups st)) =
      filter ?Q (filter (\<lambda>k. lk_sq k = lk_sq l) (lookups st))"
    by (simp add: conj_commute)
  then have "filter (\<lambda>k. lk_sq k = lk_sq l) (filter ?Q (lookups st)) = filter ?Q [l]"
    using assms by (simp only: sole_def)
  then show ?thesis by (simp add: rcvd_def note_pkts_def filter_map comp_def del: filter_filter)
qed

lemma rcvd_other: "(\<And>x. x \<in> set pk \<Longrightarrow> fst x \<noteq> lk_sq l) \<Longrightarrow> rcvd l pk = []"
  by (simp add: rcvd_def)

lemma reg_server:
  assumes "ns_wf st" "reg st n p = Some srv"
  shows "srv_node srv = n" "srv_port srv = p" "srv_service srv \<noteq> 0"
proof -
  have wf: "map_wf (svc st n)" "\<forall>k srv. Item k srv \<in> set (mdata (svc st n)) \<longrightarrow> server_ok n k srv"
    using assms(1) by (auto simp: ns_wf_def svc_wf_def)
  obtain i where i: "map_find (svc st n) (hash_u32 p) = Some i" "srv = item_val (mdata (svc st n) ! i)"
    using assms(2) by (auto simp: reg_def map_get_def split: option.splits)
  with map_find_Some [OF wf(1) i(1)] have "Item (hash_u32 p) srv \<in> set (mdata (svc st n))"
    using wf(1) by (metis map_wf_def nth_mem slot.sel(2))
  with wf(2) have "server_ok n (hash_u32 p) srv" by blast
  then show "srv_node srv = n" "srv_port srv = p" "srv_service srv \<noteq> 0"
    by (simp_all add: server_ok_def)
qed

lemma unregister_apply: "unregister R (n, p) n' p' = (if n' = n \<and> p' = p then None else R n' p')"
  by (simp add: unregister_def)

lemma register_apply: "register R (n, p) service instance n' p' =
    (if n' = n \<and> p' = p then Some (new_server service instance n p) else R n' p')"
  by (simp add: register_def)

lemma view_unregister:
  assumes wf: "ns_wf st" and srv: "reg st n p = Some srv"
    and r: "reg st' = unregister (reg st) (n, p)"
  shows "view l st' = view l st - {srv}"
proof -
  have "reg st' n' p' = Some s \<longleftrightarrow> reg st n' p' = Some s \<and> s \<noteq> srv" for n' p' s
  proof (cases "n' = n \<and> p' = p")
    case True
    then show ?thesis using srv by (simp add: r unregister_apply)
  next
    case False
    then have "reg st n' p' \<noteq> Some srv" using reg_server(1,2) [OF wf] srv by metis
    with False show ?thesis by (auto simp: r unregister_apply)
  qed
  then show ?thesis by (auto simp: view_def)
qed

lemma view_register:
  assumes "reg st n p = None" "reg st' = register (reg st) (n, p) service instance"
  shows "view l st' = (if lookup_skips l service instance then view l st
    else insert (new_server service instance n p) (view l st))"
proof -
  have r: "reg st' n' p' = Some s \<longleftrightarrow>
      reg st n' p' = Some s \<or> n' = n \<and> p' = p \<and> s = new_server service instance n p" for n' p' s
    using assms by (cases "n' = n \<and> p' = p") (auto simp: register_apply)
  show ?thesis by (auto simp: view_def r)
qed

lemma server_del_sync:
  assumes "ns_wf st" "svcs_ok st" "sole l st" "server_del env st n p = (rc, st')"
  shows "in_sync l st st'"
proof (cases "reg st n p")
  case None
  then show ?thesis using server_del_None [OF None, of env] assms(3,4) in_sync_refl by simp
next
  case (Some srv)
  have no: "nodes_ok st" using assms(1) by (simp add: ns_wf_def)
  have sent: "sent st' = sent st @ del_pkts st srv"
    using server_del_Some [OF Some, of env] assms(4) by auto
  have "rcvd l (del_pkts st srv) = rcvd l (note_pkts (lookups st) srv False)"
    using assms(3) by (auto simp: del_pkts_def sole_def rcvd_def)
  then have rc: "rcvd l (del_pkts st srv) = (if lookup_skips l (srv_service srv) (srv_instance srv) then []
      else [notify_pkt (Some srv) False])" by (simp add: rcvd_note_pkts [OF assms(3)])
  have "view l st' = view l st - {srv}"
    by (rule view_unregister [OF assms(1) Some server_del_reg(2) [OF no assms(2,4)]])
  moreover have "sole l st'"
    using server_del_effect(4,6) [OF no assms(4)] assms(3) by (simp add: sole_def)
  ultimately show ?thesis unfolding in_sync_def
    by (intro conjI exI [of _ "del_pkts st srv"])
      (auto simp: sent rc notify_pkt_def see_def view_def)
qed


lemma sync_sent:
  assumes "sole l st" "svc st' = svc st" "lookups st' = lookups st" "bcast_sq st' = bcast_sq st"
    "sent st' = sent st @ pk" "\<And>p. p \<in> set (rcvd l pk) \<Longrightarrow> cmd p \<notin> {QRTR_TYPE_NEW_SERVER, QRTR_TYPE_DEL_SERVER}"
  shows "in_sync l st st'"
proof -
  have "foldl see V ps = V" if "\<And>p. p \<in> set ps \<Longrightarrow> cmd p \<notin> {QRTR_TYPE_NEW_SERVER, QRTR_TYPE_DEL_SERVER}"
    for ps V using that by (induction ps) (auto simp: see_def)
  with assms(6) have "foldl see (view l st) (rcvd l pk) = view l st" by blast
  moreover have "view l st' = view l st" using reg_svc [OF assms(2)] by (simp add: view_def)
  ultimately show ?thesis using assms by (auto simp: in_sync_def sole_def)
qed

lemma node_get_sync:
  assumes "ns_wf st" "sole l st" "node_get env st nid = (r, st')"
  shows "in_sync l st st'"
proof -
  note g = node_get_reg [OF assms(1,3)]
  have "bcast_sq st' = bcast_sq st" using node_get_step [OF assms(1,3)] by (simp add: step_ok_def)
  with g show ?thesis by (intro sync_sent [OF assms(2), where pk = "[]"]) (auto simp: rcvd_def)
qed

lemma send_each_sync:
  assumes "sole l st" "cmd pkt \<notin> {QRTR_TYPE_NEW_SERVER, QRTR_TYPE_DEL_SERVER}"
  shows "in_sync l st (send_each env st pkt srvs)"
  by (rule sync_sent [OF assms(1), where pk = "map (\<lambda>srv. (server_addr srv, pkt_bytes pkt)) srvs"])
    (use assms(2) in \<open>auto simp: send_each_eq ns_frame rcvd_def\<close>)

lemma bye_loop_sync:
  assumes "ns_wf st" "svcs_ok st" "sole l st"
  shows "in_sync l st (bye_loop env st nid is)"
  using assms
proof (induction "is" arbitrary: st)
  case (Cons i "is")
  show ?case
  proof (cases "mdata (services (node_at st nid)) ! i")
    case (Item k srv)
    obtain rc st1 where d: "server_del env st nid (srv_port srv) = (rc, st1)" by fastforce
    have s1: "in_sync l st st1" by (rule server_del_sync [OF Cons.prems d])
    have "nodes_ok st" using Cons.prems(1) by (simp add: ns_wf_def)
    from server_del_reg(1) [OF this Cons.prems(2) d] have "svcs_ok st1" .
    moreover have "ns_wf st1" using server_del_step [OF Cons.prems(1) d] by (rule step_ok_wf)
    ultimately have "in_sync l st1 (bye_loop env st1 nid is)"
      using Cons.IH in_sync_sole [OF s1] by blast
    then show ?thesis using Item d in_sync_trans [OF s1] by simp
  qed (use Cons in simp_all)
qed (simp add: in_sync_refl)

lemma bye_sync:
  assumes "ns_wf st" "svcs_ok st" "sole l st"
  shows "in_sync l st (snd (ctrl_cmd_bye env st from))"
proof -
  let ?n = "sq_node from"
  obtain nd st1 where g: "node_get env st ?n = (nd, st1)" by fastforce
  note g1 = node_get_reg [OF assms(1) g] and s1 = node_get_sync [OF assms(1,3) g]
  show ?thesis
  proof (cases nd)
    case (Some nd')
    let ?st2 = "bye_loop env st1 ?n [0..<msize (services nd')]"
    have s2: "in_sync l st ?st2"
      using in_sync_trans [OF s1 bye_loop_sync] g1(1,3) assms(2) in_sync_sole [OF s1] by simp
    obtain ln st3 where g3: "node_get env ?st2 (local_node ?st2) = (ln, st3)" by fastforce
    have w2: "ns_wf ?st2" using bye_loop_step [OF g1(1)] by (rule step_ok_wf)
    have s3: "in_sync l st st3"
      using in_sync_trans [OF s2 node_get_sync [OF w2 in_sync_sole [OF s2] g3]] .
    show ?thesis
    proof (cases ln)
      case None
      then show ?thesis using g Some g3 s3 by (simp add: ctrl_cmd_bye_def Let_def)
    next
      case (Some ln')
      then show ?thesis using g \<open>nd = Some nd'\<close> g3
          in_sync_trans [OF s3 send_each_sync [OF in_sync_sole [OF s3]]]
        by (simp add: ctrl_cmd_bye_def Let_def)
    qed
  qed (use g s1 in \<open>simp add: ctrl_cmd_bye_def\<close>)
qed

lemma del_server_sync:
  assumes "ns_wf st" "svcs_ok st" "sole l st"
  shows "in_sync l st (snd (ctrl_cmd_del_server env st from service instance nid port))"
proof -
  let ?n = "sq_node from"
  define p where "p = (if ?n = local_node st then sq_port from else port)"
  obtain nd st1 where g: "node_get env st ?n = (nd, st1)" by fastforce
  note g1 = node_get_reg [OF assms(1) g] and s1 = node_get_sync [OF assms(1,3) g]
  obtain rc st2 where d: "server_del env st1 ?n p = (rc, st2)" by fastforce
  have "svcs_ok st1" using g1(3) assms(2) by simp
  from in_sync_trans [OF s1 server_del_sync [OF g1(1) this in_sync_sole [OF s1] d]]
  show ?thesis using s1 g d in_sync_refl [OF assms(3)]
    by (cases nd) (auto simp: ctrl_cmd_del_server_def p_def split: if_splits)
qed

lemma new_server_sent:
  assumes wf: "ns_wf st" "svcs_ok st"
    and p: "p = (if sq_node from = local_node st then sq_port from else port)"
    and fresh: "reg st (sq_node from) p = None"
    and own: "sq_node from = local_node st \<or> sq_node from = nid"
    and ok: "\<not> oom env" "service \<noteq> 0" "p \<noteq> 0"
    and srv: "srv = new_server service instance (sq_node from) p"
  shows "sent (snd (ctrl_cmd_new_server env st from service instance nid port)) = sent st @
    (if sq_node from = local_node st
     then [(bcast_sq st, pkt_bytes (server_pkt QRTR_TYPE_NEW_SERVER srv))] else []) @
    note_pkts (lookups st) srv True"
proof -
  let ?n = "sq_node from"
  obtain r st1 where a: "server_add env st service instance ?n p = (r, st1)" by fastforce
  have n: "nodes_ok st" "map_wf (svc st ?n)" using wf by (auto simp: ns_wf_def svc_wf_def)
  from server_add_effect [OF n a] ok obtain k c where
    "st1 = st\<lparr>nodes := k, allocs := c\<rparr>" "r = Some srv" using srv by blast
  then show ?thesis using a own p srv
    by (auto simp: ctrl_cmd_new_server_def notify_lookups_eq service_announce_new_def sendto_def Let_def)
qed

lemma new_server_sync:
  assumes wf: "ns_wf st" "svcs_ok st" and so: "sole l st"
    and p: "p = (if sq_node from = local_node st then sq_port from else port)"
    and fresh: "reg st (sq_node from) p = None"
  shows "in_sync l st (snd (ctrl_cmd_new_server env st from service instance nid port))"
proof -
  let ?n = "sq_node from" and ?srv = "new_server service instance (sq_node from) p"
  obtain r st1 where a: "server_add env st service instance ?n p = (r, st1)" by fastforce
  have ok: "nodes_ok st" "map_wf (svc st ?n)" "map_ok (svc st ?n)"
    using wf by (auto simp: ns_wf_def svc_wf_def svcs_ok_def)
  from server_add_effect [OF ok(1,2) a] obtain k c where st1: "st1 = st\<lparr>nodes := k, allocs := c\<rparr>"
    and e: "r = None \<and> svc st1 = svc st \<or> r = Some ?srv \<and> service \<noteq> 0 \<and>
      reg st1 = register (reg st) (?n, p) service instance"
  proof (elim exE conjE disjE)
    fix k c m' assume *: "r = Some ?srv" "service \<noteq> 0" "st1 = st\<lparr>nodes := k, allocs := c\<rparr>"
      "svc st1 = (svc st)(?n := m')" "map_ok (svc st ?n) \<and> reg st ?n p = None \<longrightarrow> map_ok m' \<and>
          map_get m' = (map_get (svc st ?n))(hash_u32 p \<mapsto> ?srv)"
    then have "map_get m' = (map_get (svc st ?n))(hash_u32 p \<mapsto> ?srv)" using ok(3) fresh by auto
    then have "reg st1 = register (reg st) (?n, p) service instance"
      by (intro ext) (simp add: register_def reg_comp *(4) hash_comp_upd)
    with * that show thesis by blast
  qed (use that in blast)+
  show ?thesis
  proof (cases "sq_node from = local_node st \<or> sq_node from = nid")
    case False
    then show ?thesis using in_sync_refl [OF so] by (simp add: ctrl_cmd_new_server_def)
  next
    case True
    define pk where "pk = (if ?n = local_node st
      then [(bcast_sq st, pkt_bytes (server_pkt QRTR_TYPE_NEW_SERVER ?srv))] else []) @
      note_pkts (lookups st) ?srv True"
    show ?thesis
    proof (cases r)
      case None
      then have "snd (ctrl_cmd_new_server env st from service instance nid port) = st1"
        using True a p by (auto simp: ctrl_cmd_new_server_def)
      moreover have "in_sync l st st1"
        by (rule sync_sent [OF so, where pk = "[]"]) (use e None st1 in \<open>auto simp: rcvd_def\<close>)
      ultimately show ?thesis by simp
    next
      case (Some s)
      with e have s: "s = ?srv" "service \<noteq> 0" "reg st1 = register (reg st) (?n, p) service instance" by auto
      have st': "snd (ctrl_cmd_new_server env st from service instance nid port) = st1\<lparr>sent := sent st @ pk\<rparr>"
        using True a p Some s(1) st1
        by (auto simp: pk_def ctrl_cmd_new_server_def notify_lookups_eq service_announce_new_def sendto_def Let_def)
      have "rcvd l pk = rcvd l (note_pkts (lookups st) ?srv True)"
        using so by (auto simp: pk_def sole_def rcvd_def)
      then have rc: "rcvd l pk = (if lookup_skips l service instance then [] else [notify_pkt (Some ?srv) True])"
        by (simp add: rcvd_note_pkts [OF so])
      have "view l (st1\<lparr>sent := sent st @ pk\<rparr>) = (if lookup_skips l service instance then view l st
          else insert ?srv (view l st))"
        by (rule view_register [OF fresh]) (simp add: ns_frame s(3))
      then show ?thesis unfolding st' in_sync_def using so s(2)
        by (intro conjI exI [of _ pk]) (simp_all add: rc sole_def st1 notify_pkt_def see_def)
    qed
  qed
qed


text \<open>A sender other than the observer, whose socket is on the local node.\<close>

definition other :: "lookup \<Rightarrow> ns \<Rightarrow> sockaddr_qrtr \<Rightarrow> bool" where
  "other l st sq = (sq_node (lk_sq l) = local_node st \<and>
     (sq_node sq \<noteq> sq_node (lk_sq l) \<or> sq_port sq \<noteq> sq_port (lk_sq l)))"

lemma sole_filter:
  assumes "sole l st" "P l"
  shows "sole l (st\<lparr>lookups := filter P (lookups st)\<rparr>)"
proof -
  have "filter (\<lambda>k. lk_sq k = lk_sq l) (filter P (lookups st)) =
      filter P (filter (\<lambda>k. lk_sq k = lk_sq l) (lookups st))" by (simp add: conj_commute)
  then show ?thesis using assms by (simp add: sole_def del: filter_filter)
qed

lemma lookups_sync:
  assumes "sole l (st\<lparr>lookups := ls\<rparr>)"
  shows "in_sync l st (st\<lparr>lookups := ls\<rparr>)"
  using assms by (auto simp: in_sync_def rcvd_def view_def ns_frame intro: exI [of _ "[]"])

lemma del_client_sync:
  assumes wf: "ns_wf st" "svcs_ok st" and so: "sole l st" and ot: "other l st from"
  shows "in_sync l st (snd (ctrl_cmd_del_client env st from nid port))"
proof (cases "sq_node from = nid \<and> (sq_node from = local_node st \<longrightarrow> sq_port from = port)")
  case False
  then show ?thesis using in_sync_refl [OF so] by (auto simp: ctrl_cmd_del_client_def)
next
  case True
  let ?st1 = "st\<lparr>lookups := filter (\<lambda>l. \<not> (sq_node (lk_sq l) = nid \<and> sq_port (lk_sq l) = port)) (lookups st)\<rparr>"
  have s1: "in_sync l st ?st1"
    by (intro lookups_sync sole_filter [OF so]) (use True ot in \<open>auto simp: other_def\<close>)
  have w1: "ns_wf ?st1" "svcs_ok ?st1" using wf by (simp_all add: ns_frame)
  obtain nd st2 where g: "node_get env ?st1 nid = (nd, st2)" by fastforce
  note g2 = node_get_reg [OF w1(1) g]
  have s2: "in_sync l st st2" using in_sync_trans [OF s1 node_get_sync [OF w1(1) in_sync_sole [OF s1] g]] .
  obtain rc st3 where d: "server_del env st2 nid port = (rc, st3)" by fastforce
  have ok2: "svcs_ok st2" using g2(3) w1(2) by simp
  have s3: "in_sync l st st3"
    using in_sync_trans [OF s2 server_del_sync [OF g2(1) ok2 in_sync_sole [OF s2] d]] .
  let ?st4 = "case nd of Some x \<Rightarrow> st3 | None \<Rightarrow> st2"
  have s4: "in_sync l st ?st4" using s2 s3 by (simp split: option.splits)
  have w4: "ns_wf ?st4" using g2(1) step_ok_wf [OF server_del_step [OF g2(1) d]] by (simp split: option.splits)
  obtain ln st5 where g5: "node_get env ?st4 (local_node ?st4) = (ln, st5)" by fastforce
  have s5: "in_sync l st st5" using in_sync_trans [OF s4 node_get_sync [OF w4 in_sync_sole [OF s4] g5]] .
  have "snd (ctrl_cmd_del_client env st from nid port) = st5 \<or>
      (\<exists>j k srvs. snd (ctrl_cmd_del_client env st from nid port) =
        send_each env st5 \<lparr>cmd = QRTR_TYPE_DEL_CLIENT, word0 = nid, word1 = port, word2 = j, word3 = k\<rparr> srvs)"
    using True g d g5
    by (cases nd; cases ln) (auto simp: ctrl_cmd_del_client_def Let_def split: prod.splits)
  then show ?thesis using s5 in_sync_trans [OF s5 send_each_sync [OF in_sync_sole [OF s5]]] by auto
qed

lemma hello_sync:
  assumes "ns_wf st" "sole l st" "sq \<noteq> lk_sq l"
  shows "in_sync l st (snd (ctrl_cmd_hello env st sq data))"
proof -
  obtain rc st1 where s: "sendto env st sq data = (rc, st1)" by fastforce
  then have st1: "st1 = st\<lparr>sent := sent st @ [(sq, data)]\<rparr>" by (simp add: sendto_def Let_def)
  have s1: "in_sync l st st1"
    by (rule sync_sent [OF assms(2), where pk = "[(sq, data)]"]) (use assms(3) st1 in \<open>auto simp: ns_frame rcvd_def\<close>)
  have w1: "ns_wf st1" using assms(1) st1 by (simp add: ns_frame)
  obtain nd st2 where g: "node_get env st1 (local_node st1) = (nd, st2)" by fastforce
  have s2: "in_sync l st st2" using in_sync_trans [OF s1 node_get_sync [OF w1 in_sync_sole [OF s1] g]] .
  have "in_sync l st (snd (announce_each env st2 sq srvs))" for srvs
  proof -
    obtain pk where pk: "snd (announce_each env st2 sq srvs) = st2\<lparr>sent := sent st2 @ pk\<rparr>" "\<forall>x\<in>set pk. fst x = sq"
      using announce_each_pk by blast
    have "in_sync l st2 (st2\<lparr>sent := sent st2 @ pk\<rparr>)"
      by (rule sync_sent [OF in_sync_sole [OF s2], where pk = pk]) (use pk(2) assms(3) in \<open>auto simp: ns_frame rcvd_def\<close>)
    then show ?thesis using pk(1) in_sync_trans [OF s2] by simp
  qed
  then show ?thesis using s g s1 s2
    by (cases nd) (auto simp: ctrl_cmd_hello_def annouce_servers_def)
qed

lemma new_lookup_sync:
  assumes "sole l st" "sq \<noteq> lk_sq l"
  shows "in_sync l st (snd (ctrl_cmd_new_lookup env st sq service instance))"
proof -
  let ?k = "\<lparr>lk_service = service, lk_instance = instance, lk_sq = sq\<rparr>"
  obtain pk a ls where e: "snd (ctrl_cmd_new_lookup env st sq service instance) =
      st\<lparr>lookups := ls, allocs := a, sent := sent st @ pk\<rparr>" "\<forall>x\<in>set pk. fst x = sq" "ls = lookups st \<or> ls = lookups st @ [?k]"
  proof (cases "sq_node sq \<noteq> local_node st \<or> \<not> calloc_ok env (allocs st) Lookup_Req")
    case True
    then have "snd (ctrl_cmd_new_lookup env st sq service instance) =
        st\<lparr>lookups := lookups st, allocs := (if sq_node sq \<noteq> local_node st then allocs st else allocs st + 1),
          sent := sent st @ []\<rparr>"
      by (auto simp: ctrl_cmd_new_lookup_def calloc_def)
    then show ?thesis by (rule that) auto
  next
    case False
    let ?st = "st\<lparr>allocs := allocs st + 1, lookups := lookups st @ [?k]\<rparr>"
    let ?q = "server_query ?st \<lparr>f_service = service, f_instance = instance, f_ifilter = 0\<rparr>"
    let ?pk = "map (\<lambda>srv. (sq, pkt_bytes (notify_pkt (Some srv) True))) ?q @ [(sq, pkt_bytes (notify_pkt None True))]"
    have "snd (ctrl_cmd_new_lookup env st sq service instance) =
        st\<lparr>lookups := lookups st @ [?k], allocs := allocs st + 1, sent := sent st @ ?pk\<rparr>"
      using False by (simp add: ctrl_cmd_new_lookup_def calloc_def Let_def notify_each_eq lookup_notify_def sendto_def)
    then show ?thesis using that [where ls = "lookups st @ [?k]" and a = "allocs st + 1" and pk = ?pk] by auto
  qed
  have "in_sync l (st\<lparr>lookups := ls\<rparr>) (st\<lparr>lookups := ls, allocs := a, sent := sent st @ pk\<rparr>)"
    by (rule sync_sent [where pk = pk]) (use e(2,3) assms in \<open>auto simp: ns_frame rcvd_def sole_def\<close>)
  moreover have "in_sync l st (st\<lparr>lookups := ls\<rparr>)"
    by (rule lookups_sync) (use e(3) assms in \<open>auto simp: sole_def\<close>)
  ultimately show ?thesis unfolding e(1) by (rule in_sync_trans [rotated])
qed

lemma dispatch_sync:
  assumes wf: "ns_wf st" "svcs_ok st" and so: "sole l st" and ot: "other l st sq"
    and fresh: "cmd msg = QRTR_TYPE_NEW_SERVER \<Longrightarrow>
      reg st (sq_node sq) (snd (eff_addr (local_node st) sq msg)) = None"
  shows "in_sync l st (snd (dispatch env st sq msg data))"
proof -
  have ne: "sq \<noteq> lk_sq l" using ot by (auto simp: other_def)
  have "in_sync l st (snd (ctrl_cmd_del_lookup env st sq a b))" for a b
    unfolding ctrl_cmd_del_lookup_def snd_conv
    by (intro lookups_sync sole_filter [OF so]) (use ot in \<open>auto simp: other_def\<close>)
  moreover have "cmd msg = QRTR_TYPE_NEW_SERVER \<Longrightarrow> in_sync l st (snd (ctrl_cmd_new_server env st sq
      (server_service msg) (server_instance msg) (server_node msg) (server_port msg)))"
    by (rule new_server_sync [OF wf so refl]) (use fresh in \<open>simp add: eff_addr_iff\<close>)
  ultimately show ?thesis
    using hello_sync [OF wf(1) so ne] bye_sync [OF wf so] del_client_sync [OF wf so ot]
      del_server_sync [OF wf so] new_lookup_sync [OF so ne] in_sync_refl [OF so]
    by (simp add: dispatch_def)
qed


section \<open>The first answer\<close>

lemma server_match_lookup:
  "server_match srv \<lparr>f_service = service, f_instance = instance, f_ifilter = 0\<rparr> \<longleftrightarrow>
   \<not> lookup_skips \<lparr>lk_service = service, lk_instance = instance, lk_sq = sq\<rparr> (srv_service srv) (srv_instance srv)"
  by (auto simp: server_match_def lookup_skips_def Let_def)

lemma hash_u32_surj: "\<exists>p. k = hash_u32 p"
proof -
  have "finite (UNIV :: u32 set)" by simp
  then have "surj hash_u32" using finite_UNIV_inj_surj [of hash_u32] by (simp add: inj_on_def)
  then show ?thesis by (metis surj_def)
qed

lemma map_items_svc:
  assumes "map_ok (svc st n)"
  shows "srv \<in> set (map_items (svc st n)) \<longleftrightarrow> (\<exists>p. reg st n p = Some srv)"
  using map_items_iff [OF assms] hash_u32_surj by (metis reg_def)

lemma server_query_set:
  assumes "ns_wf st" "svcs_ok st"
  shows "set (server_query st f) = {srv. (\<exists>n p. reg st n p = Some srv) \<and> server_match srv f}"
proof -
  have no: "map_ok (nodes st)" using assms(1) by (simp add: ns_wf_def nodes_ok_def)
  have sv: "map_ok (svc st n)" for n using assms(2) by (simp add: svcs_ok_def)
  have "(\<exists>nd\<in>set (map_items (nodes st)). srv \<in> set (map_items (services nd))) \<longleftrightarrow>
      (\<exists>n p. reg st n p = Some srv)" (is "?L = ?R") for srv
  proof
    assume ?L
    then obtain nd k where "map_get (nodes st) k = Some nd" "srv \<in> set (map_items (services nd))"
      using map_items_iff [OF no] by blast
    moreover obtain n where "k = hash_u32 n" using hash_u32_surj by blast
    ultimately have "srv \<in> set (map_items (svc st n))" by (simp add: svc_def node_at_def)
    then show ?R using map_items_svc [OF sv] by blast
  next
    assume ?R
    then obtain n p where r: "reg st n p = Some srv" by blast
    then have "srv \<in> set (map_items (svc st n))" using map_items_svc [OF sv] by blast
    moreover obtain nd where "map_get (nodes st) (hash_u32 n) = Some nd" "svc st n = services nd"
      using present_if_reg [OF r] by (auto simp: present_def svc_def node_at_def)
    ultimately show ?L using map_items_iff [OF no] by metis
  qed
  then show ?thesis unfolding server_query_def by (simp add: set_eq_iff)
qed

lemma foldl_see_new:
  assumes "\<And>srv. srv \<in> set srvs \<Longrightarrow> srv_service srv \<noteq> 0"
  shows "foldl see V (map (\<lambda>srv. notify_pkt (Some srv) True) srvs) = V \<union> set srvs"
  using assms
proof (induction srvs arbitrary: V)
  case (Cons srv srvs)
  then have "srv \<noteq> new_server 0 0 0 0" by (metis list.set_intros(1) server.select_convs(1))
  then have "see V (notify_pkt (Some srv) True) = insert srv V" by (simp add: see_def notify_pkt_def)
  then show ?case using Cons by simp
qed simp

section \<open>Properties\<close>



abbreviation demo_client :: sockaddr_qrtr where
  "demo_client \<equiv> \<lparr>sq_family = 42, sq_node = 1, sq_port = 9\<rparr>"

abbreviation demo_lookup :: lookup where
  "demo_lookup \<equiv> \<lparr>lk_service = 15, lk_instance = 0, lk_sq = demo_client\<rparr>"

lemma demo_ok: "svcs_ok demo_start"
  by (simp add: svcs_ok_def demo_svc map_ok_create)



end
