(* ===== verification/Qrtr_Lib.thy ===== *)
theory Qrtr_Lib
  imports Qrtr_Proto
begin

text \<open>
  The client library \<open>qcom/qrtr/lib/qrtr.c\<close>. The kernel is a record of answers: what each system call
  returns. A function returns its result and the list of the calls with an effect it has made.
\<close>

section \<open>The kernel interface\<close>

datatype sys_call = Sys_Bind sockaddr_qrtr | Sys_Close int | Sys_Send int sockaddr_qrtr bytes

record qrtr_sys =
  sys_socket :: int
  sys_setsockopt :: "int \<Rightarrow> int"
  sys_bind :: "int \<Rightarrow> sockaddr_qrtr \<Rightarrow> int"
  sys_getsockname :: "int \<Rightarrow> int \<times> sockaddr_qrtr \<times> nat"
  sys_sendto :: "int \<Rightarrow> sockaddr_qrtr \<Rightarrow> bytes \<Rightarrow> int"
  sys_recvfrom :: "int \<Rightarrow> nat \<Rightarrow> int \<times> bytes \<times> sockaddr_qrtr"
  sys_poll :: "int \<Rightarrow> nat \<Rightarrow> int"

section \<open>Operations\<close>

text \<open>\<open>None\<close> is the failure -1; \<open>struct sockaddr_qrtr\<close> is 12 bytes.\<close>

definition qrtr_getname :: "qrtr_sys \<Rightarrow> int \<Rightarrow> sockaddr_qrtr option" where
  "qrtr_getname sys sk = (case sys_getsockname sys sk of (rc, sq, sl) \<Rightarrow>
     if rc \<noteq> 0 then None
     else if sq_family sq \<noteq> AF_QIPCRTR \<or> sl \<noteq> 12 then None
     else Some sq)"

definition qrtr_open :: "qrtr_sys \<Rightarrow> u32 \<Rightarrow> int \<times> sys_call list" where
  "qrtr_open sys rport = (let sk = sys_socket sys in
     if sk < 0 then (-1, [])
     else if sys_setsockopt sys sk \<noteq> 0 then (-1, [Sys_Close sk])
     else if rport \<noteq> 0 then
       let sq = \<lparr>sq_family = AF_QIPCRTR, sq_node = 1, sq_port = rport\<rparr> in
       if sys_bind sys sk sq < 0 then (-1, [Sys_Bind sq, Sys_Close sk]) else (sk, [Sys_Bind sq])
     else (sk, []))"

definition qrtr_close :: "int \<Rightarrow> sys_call list" where
  "qrtr_close sk = [Sys_Close sk]"

definition qrtr_sendto :: "qrtr_sys \<Rightarrow> int \<Rightarrow> u32 \<Rightarrow> u32 \<Rightarrow> bytes \<Rightarrow> int \<times> sys_call list" where
  "qrtr_sendto sys sk node port data =
     (let sq = \<lparr>sq_family = AF_QIPCRTR, sq_node = node, sq_port = port\<rparr>
      in (if sys_sendto sys sk sq data < 0 then -1 else 0, [Sys_Send sk sq data]))"

text \<open>\<open>instance << 8 | version\<close>, on 16-bit arguments promoted to \<open>int\<close>.\<close>

definition pack_instance :: "u16 \<Rightarrow> u16 \<Rightarrow> u32" where
  "pack_instance version instance = push_bit 8 (ucast instance) OR ucast version"

definition qrtr_new_server :: "qrtr_sys \<Rightarrow> int \<Rightarrow> u32 \<Rightarrow> u16 \<Rightarrow> u16 \<Rightarrow> int \<times> sys_call list" where
  "qrtr_new_server sys sk service version instance = (case qrtr_getname sys sk of
     None \<Rightarrow> (-1, [])
   | Some sq \<Rightarrow> qrtr_sendto sys sk (sq_node sq) QRTR_PORT_CTRL
       (pkt_bytes \<lparr>cmd = QRTR_TYPE_NEW_SERVER, word0 = service,
          word1 = pack_instance version instance, word2 = 0, word3 = 0\<rparr>))"

definition qrtr_remove_server :: "qrtr_sys \<Rightarrow> int \<Rightarrow> u32 \<Rightarrow> u16 \<Rightarrow> u16 \<Rightarrow> int \<times> sys_call list" where
  "qrtr_remove_server sys sk service version instance = (case qrtr_getname sys sk of
     None \<Rightarrow> (-1, [])
   | Some sq \<Rightarrow> qrtr_sendto sys sk (sq_node sq) QRTR_PORT_CTRL
       (pkt_bytes \<lparr>cmd = QRTR_TYPE_DEL_SERVER, word0 = service,
          word1 = pack_instance version instance, word2 = sq_node sq, word3 = sq_port sq\<rparr>))"

definition qrtr_publish :: "qrtr_sys \<Rightarrow> int \<Rightarrow> u32 \<Rightarrow> u16 \<Rightarrow> u16 \<Rightarrow> int \<times> sys_call list" where
  "qrtr_publish sys sk service version instance = qrtr_new_server sys sk service version instance"

definition qrtr_bye :: "qrtr_sys \<Rightarrow> int \<Rightarrow> u32 \<Rightarrow> u16 \<Rightarrow> u16 \<Rightarrow> int \<times> sys_call list" where
  "qrtr_bye sys sk service version instance = qrtr_remove_server sys sk service version instance"

definition qrtr_new_lookup :: "qrtr_sys \<Rightarrow> int \<Rightarrow> u32 \<Rightarrow> u16 \<Rightarrow> u16 \<Rightarrow> int \<times> sys_call list" where
  "qrtr_new_lookup sys sk service version instance = (case qrtr_getname sys sk of
     None \<Rightarrow> (-1, [])
   | Some sq \<Rightarrow> qrtr_sendto sys sk (sq_node sq) QRTR_PORT_CTRL
       (pkt_bytes \<lparr>cmd = QRTR_TYPE_NEW_LOOKUP, word0 = service,
          word1 = pack_instance version instance, word2 = 0, word3 = 0\<rparr>))"

definition qrtr_remove_lookup :: "qrtr_sys \<Rightarrow> int \<Rightarrow> u32 \<Rightarrow> u16 \<Rightarrow> u16 \<Rightarrow> int \<times> sys_call list" where
  "qrtr_remove_lookup sys sk service version instance = (case qrtr_getname sys sk of
     None \<Rightarrow> (-1, [])
   | Some sq \<Rightarrow> qrtr_sendto sys sk (sq_node sq) QRTR_PORT_CTRL
       (pkt_bytes \<lparr>cmd = QRTR_TYPE_DEL_LOOKUP, word0 = service,
          word1 = pack_instance version instance, word2 = sq_node sq, word3 = sq_port sq\<rparr>))"

definition qrtr_poll :: "qrtr_sys \<Rightarrow> int \<Rightarrow> nat \<Rightarrow> int" where
  "qrtr_poll sys sk ms = sys_poll sys sk ms"

definition qrtr_recv :: "qrtr_sys \<Rightarrow> int \<Rightarrow> nat \<Rightarrow> int \<times> bytes" where
  "qrtr_recv sys sk bsz = (case sys_recvfrom sys sk bsz of (rc, bs, sq) \<Rightarrow> (rc, bs))"

text \<open>The node and the port are stored only when the call succeeds.\<close>

definition qrtr_recvfrom :: "qrtr_sys \<Rightarrow> int \<Rightarrow> nat \<Rightarrow> u32 \<Rightarrow> u32 \<Rightarrow> int \<times> bytes \<times> u32 \<times> u32" where
  "qrtr_recvfrom sys sk bsz node port = (case sys_recvfrom sys sk bsz of (rc, bs, sq) \<Rightarrow>
     if rc < 0 then (rc, bs, node, port) else (rc, bs, sq_node sq, sq_port sq))"

section \<open>Versions and instances\<close>

lemma and_0xff: "x AND 0xff = take_bit 8 (x :: u32)"
  by (simp add: take_bit_eq_mask mask_eq_exp_minus_1)

lemma pack_instance_version: "pack_instance version instance AND 0xff = take_bit 8 (ucast version)"
  unfolding and_0xff by (rule bit_word_eqI) (auto simp: pack_instance_def bit_simps)

lemma pack_instance_instance:
  "drop_bit 8 (pack_instance version instance) = ucast instance OR ucast (drop_bit 8 version)"
  by (rule bit_word_eqI) (auto simp: pack_instance_def bit_simps dest: bit_imp_le_length)

lemma small_version:
  assumes "(version :: u16) < 256"
  shows "drop_bit 8 version = 0" "take_bit 8 (ucast version) = (ucast version :: u32)"
proof -
  have "unat version < 2 ^ 8" using assms by (simp add: word_less_nat_alt)
  then have v: "take_bit 8 version = version"
    by (simp add: word_unat_eq_iff unsigned_take_bit_eq take_bit_nat_eq_self)
  then show "drop_bit 8 version = 0" by (metis drop_bit_take_bit take_bit_0 diff_self_eq_0)
  show "take_bit 8 (ucast version) = (ucast version :: u32)"
    using v by (metis unsigned_take_bit_eq)
qed


lemma decode_server_pkt:
  assumes "c = QRTR_TYPE_NEW_SERVER \<or> c = QRTR_TYPE_DEL_SERVER" "sq_port sq = QRTR_PORT_CTRL"
  shows "qrtr_decode dest (pkt_bytes \<lparr>cmd = c, word0 = service, word1 = i, word2 = node, word3 = port\<rparr>) sq =
    (0, dest\<lparr>ptype := sint c, pnode := node, pport := port, pservice := service,
       pversion := i AND 0xff, pinstance := drop_bit 8 i\<rparr>)"
  using assms by (auto simp: qrtr_decode_def pkt_views)

section \<open>Properties\<close>


abbreviation no_packet :: qrtr_packet where
  "no_packet \<equiv> \<lparr>ptype = 0, pnode = 0, pport = 0, pservice = 0, pinstance = 0, pversion = 0, pdata = []\<rparr>"


text \<open>
  A version of 256 or more is not kept apart from the instance: the packet of instance 0 in
  version 256 is the packet of instance 1 in version 0.
\<close>

lemma pack_instance_collision: "pack_instance 256 0 = pack_instance 0 1"
  by (simp add: pack_instance_def)

end
