(* ===== verification/C_Mem.thy ===== *)
theory C_Mem
  imports Prelude
begin

text \<open>
  C objects and the results of C functions, shared by the daemons. An object (a structure, a
  buffer, a mapped file) is the list of its bytes and a pointer into it is an offset; \<open>rd\<close> and \<open>wr\<close>
  fail outside the object. A function that can reach undefined behaviour returns a \<open>cres\<close>: the value
  \<open>UB\<close>, an error code or a result. \<open>strlen\<close>, and 32- and 64-bit subtraction, are those of C.
\<close>

section \<open>Results\<close>

datatype 'a cres = UB | Err int | Ok 'a

fun cbind :: "'a cres \<Rightarrow> ('a \<Rightarrow> 'b cres) \<Rightarrow> 'b cres" where
  "cbind UB f = UB"
| "cbind (Err x) f = Err x"
| "cbind (Ok a) f = f a"

lemma cbind_cong [fundef_cong]:
  "r = r' \<Longrightarrow> (\<And>a. r' = Ok a \<Longrightarrow> f a = g a) \<Longrightarrow> cbind r f = cbind r' g"
  by (cases r') auto

lemma cbind_eq_Ok [simp]: "cbind r f = Ok b \<longleftrightarrow> (\<exists>a. r = Ok a \<and> f a = Ok b)"
  by (cases r) auto

lemma cbind_eq_UB [simp]: "cbind r f = UB \<longleftrightarrow> r = UB \<or> (\<exists>a. r = Ok a \<and> f a = UB)"
  by (cases r) auto

definition of_opt :: "'a option \<Rightarrow> 'a cres" where
  "of_opt x = (case x of None \<Rightarrow> UB | Some a \<Rightarrow> Ok a)"

lemma of_opt_simps [simp]: "of_opt None = UB" "of_opt (Some a) = Ok a"
  "of_opt x = UB \<longleftrightarrow> x = None" "of_opt x = Ok a \<longleftrightarrow> x = Some a" "of_opt x \<noteq> Err e"
  by (simp_all add: of_opt_def split: option.splits)

section \<open>Objects\<close>

definition rd :: "bytes \<Rightarrow> nat \<Rightarrow> nat \<Rightarrow> bytes option" where
  "rd m off n = (if off + n \<le> length m then Some (take n (drop off m)) else None)"

definition wr :: "bytes \<Rightarrow> nat \<Rightarrow> bytes \<Rightarrow> bytes option" where
  "wr m off bs = (if off + length bs \<le> length m
     then Some (take off m @ bs @ drop (off + length bs) m) else None)"

lemma wr_length: "wr m off bs = Some m' \<Longrightarrow> length m' = length m"
  by (auto simp: wr_def split: if_splits)

lemma rd_length: "rd m off n = Some bs \<Longrightarrow> length bs = n"
  by (auto simp: rd_def split: if_splits)

lemma rd_wr_same: "wr m off bs = Some m' \<Longrightarrow> rd m' off (length bs) = Some bs"
  by (auto simp: rd_def wr_def split: if_splits)

lemma take_drop_eqI:
  assumes "length xs = length ys" "\<And>i. a \<le> i \<Longrightarrow> i < a + n \<Longrightarrow> i < length ys \<Longrightarrow> xs ! i = ys ! i"
  shows "take n (drop a xs) = take n (drop a ys)"
  by (rule nth_equalityI) (use assms in auto)

lemma wr_nth_other:
  "wr m off bs = Some m' \<Longrightarrow> i < off \<or> off + length bs \<le> i \<Longrightarrow> i < length m \<Longrightarrow> m' ! i = m ! i"
  by (auto simp: wr_def nth_append split: if_splits)

lemma wr_nth_in: "wr m off bs = Some m' \<Longrightarrow> off \<le> i \<Longrightarrow> i < off + length bs \<Longrightarrow> m' ! i = bs ! (i - off)"
  by (auto simp: wr_def nth_append split: if_splits)

lemma rd_wr_other:
  assumes "wr m off bs = Some m'" "off' + n \<le> off \<or> off + length bs \<le> off'"
  shows "rd m' off' n = rd m off' n"
  using assms wr_length [OF assms(1)] unfolding rd_def
  by (auto intro!: take_drop_eqI wr_nth_other [OF assms(1)])

section \<open>Strings\<close>

text \<open>The bytes up to the first zero; \<open>None\<close> when there is none in the object.\<close>

fun strlen :: "bytes \<Rightarrow> nat option" where
  "strlen [] = None"
| "strlen (b # bs) = (if b = 0 then Some 0 else map_option Suc (strlen bs))"

definition cstr :: "bytes \<Rightarrow> bytes" where
  "cstr bs = takeWhile (\<lambda>b. b \<noteq> 0) bs"

lemma strlen_Some: "strlen bs = Some n \<Longrightarrow> n < length bs \<and> bs ! n = 0 \<and> take n bs = cstr bs"
  by (induction bs arbitrary: n) (auto simp: cstr_def split: if_splits)

lemma strlen_append: "0 \<notin> set bs \<Longrightarrow> strlen (bs @ 0 # cs) = Some (length bs)"
  by (induction bs) auto

lemma strlen_None: "strlen bs = None \<longleftrightarrow> 0 \<notin> set bs"
  by (induction bs) auto

definition isspace :: "u8 \<Rightarrow> bool" where
  "isspace ch \<longleftrightarrow> ch = 32 \<or> 9 \<le> ch \<and> ch \<le> 13"

definition isdigit :: "u8 \<Rightarrow> bool" where
  "isdigit ch \<longleftrightarrow> 48 \<le> ch \<and> ch \<le> 57"

text \<open>A string literal, as the bytes in front of its terminating zero.\<close>

definition str :: "string \<Rightarrow> bytes" where
  "str s = map of_char s"

section \<open>Unsigned arithmetic\<close>

definition w32 :: "nat \<Rightarrow> nat" where "w32 n = n mod 2 ^ 32"

definition sub32 :: "nat \<Rightarrow> nat \<Rightarrow> nat" where "sub32 a b = (a + 2 ^ 32 - b) mod 2 ^ 32"

definition sub64 :: "nat \<Rightarrow> nat \<Rightarrow> nat" where "sub64 a b = (a + 2 ^ 64 - b) mod 2 ^ 64"

lemma w32_small [simp]: "n < 2 ^ 32 \<Longrightarrow> w32 n = n"
  by (simp add: w32_def)

lemma sub_wrap: "b \<le> a \<Longrightarrow> a < m \<Longrightarrow> (a + m - b) mod m = a - (b :: nat)"
proof -
  assume ab: "b \<le> a" "a < m"
  then have e: "a + m - b = a - b + m" by arith
  show ?thesis unfolding e mod_add_self2 using ab by (intro mod_less) arith
qed

lemma sub32_le [simp]: "b \<le> a \<Longrightarrow> a < 2 ^ 32 \<Longrightarrow> sub32 a b = a - b"
  unfolding sub32_def by (rule sub_wrap)

lemma sub64_le [simp]: "b \<le> a \<Longrightarrow> a < 2 ^ 64 \<Longrightarrow> sub64 a b = a - b"
  unfolding sub64_def by (rule sub_wrap)

lemma sub64_wraps: "a < b \<Longrightarrow> b \<le> 2 ^ 64 \<Longrightarrow> sub64 a b = a + 2 ^ 64 - b"
  unfolding sub64_def by (intro mod_less) arith

end
