(* ===== verification/Qmi_Codec.thy ===== *)
theory Qmi_Codec
  imports Qrtr_Proto C_Mem
begin

text \<open>
  The QMI message codec \<open>qcom/qrtr/lib/qmi.c\<close>, driven by tables of element descriptors. A C object
  (the structure to encode or to fill, the message buffer) is the list of its bytes, and a pointer
  into it is an offset; an access outside the object is the result \<open>UB\<close>. A pointer into a table of
  descriptors is the rest of the table from there, which ends with the \<open>QMI_EOTI\<close> entry.

  Byte counters are natural numbers, with the wrap-around of \<open>uint32_t\<close> written out (\<open>sub32\<close>, \<open>w32\<close>)
  where the code subtracts or multiplies; the other counters only grow by what has been read or
  written inside an object, or by a 16-bit length before the next access.
\<close>

section \<open>Descriptors\<close>

datatype qmi_elem_type =
    QMI_EOTI | QMI_OPT_FLAG | QMI_DATA_LEN
  | QMI_UNSIGNED_1_BYTE | QMI_UNSIGNED_2_BYTE | QMI_UNSIGNED_4_BYTE | QMI_UNSIGNED_8_BYTE
  | QMI_SIGNED_1_BYTE_ENUM | QMI_SIGNED_2_BYTE_ENUM | QMI_SIGNED_4_BYTE_ENUM
  | QMI_STRUCT | QMI_STRING

datatype qmi_array_type = NO_ARRAY | STATIC_ARRAY | VAR_LEN_ARRAY

datatype qmi_elem_info = EI (data_type: qmi_elem_type) (elem_len: nat) (elem_size: nat)
  (array_type: qmi_array_type) (tlv_type: u8) (elem_offset: nat)
  (ei_array: "qmi_elem_info list option")

fun skip_same :: "u8 \<Rightarrow> qmi_elem_info list \<Rightarrow> qmi_elem_info list option" where
  "skip_same t [] = None"
| "skip_same t (e # es) = (if tlv_type e = t then skip_same t es else Some (e # es))"

text \<open>\<open>None\<close> is running past the end of the table.\<close>

fun skip_to_next_elem :: "nat \<Rightarrow> qmi_elem_info list \<Rightarrow> qmi_elem_info list option" where
  "skip_to_next_elem level [] = None"
| "skip_to_next_elem level (e # es) = (if level > 1 then Some es else skip_same (tlv_type e) es)"

lemma skip_same_suffix: "skip_same t es = Some es' \<Longrightarrow> size_list size es' \<le> size_list size es"
  by (induction es) (auto split: if_splits)

lemma skip_same_length: "skip_same t es = Some es' \<Longrightarrow> length es' \<le> length es"
  by (induction es) (auto split: if_splits)

lemma skip_suffix:
  assumes "skip_to_next_elem level es = Some es'"
  shows "size_list size es' < size_list size es"
  using assms by (cases es) (auto split: if_splits dest: skip_same_suffix)

lemma sub_size: "ei_array e = Some sub \<Longrightarrow> size_list size sub < size e"
  by (cases e) auto

section \<open>The shortest message\<close>

function qmi_calc_min_msg_len :: "nat \<Rightarrow> qmi_elem_info list \<Rightarrow> nat option" where
  "qmi_calc_min_msg_len level [] = None"
| "qmi_calc_min_msg_len level (e # es) =
    (if data_type e = QMI_EOTI then Some 0
     else if data_type e = QMI_OPT_FLAG then
       (case skip_to_next_elem level (e # es) of
          None \<Rightarrow> None
        | Some es' \<Rightarrow> qmi_calc_min_msg_len level es')
     else if data_type e = QMI_DATA_LEN then
       map_option ((+) (if elem_size e = 1 then 1 else 2)) (qmi_calc_min_msg_len level es)
     else
       (let own = (if data_type e = QMI_STRUCT then
                     (case ei_array e of None \<Rightarrow> Some 0 | Some sub \<Rightarrow> qmi_calc_min_msg_len (level + 1) sub)
                   else if data_type e = QMI_STRING then
                     Some ((if level > 1 then (if elem_len e \<le> 256 then 1 else 2) else 0) +
                       elem_len e * elem_size e)
                   else Some (elem_len e * elem_size e))
        in case (own, qmi_calc_min_msg_len level es) of
             (Some a, Some b) \<Rightarrow> Some (a + (if level = 1 then 3 else 0) + b)
           | _ \<Rightarrow> None))"
  by pat_completeness auto
termination
  by (relation "measure (\<lambda>(level, es). size_list size es)") (auto dest: skip_suffix skip_same_suffix sub_size
      split: if_splits)

section \<open>Encoding\<close>

text \<open>\<open>elem_len\<close> copies of \<open>elem_size\<close> bytes; the number of bytes written is their product.\<close>

fun qmi_encode_basic_elem :: "bytes \<Rightarrow> nat \<Rightarrow> bytes \<Rightarrow> nat \<Rightarrow> nat \<Rightarrow> nat \<Rightarrow> bytes option" where
  "qmi_encode_basic_elem buf dst src off 0 sz = Some buf"
| "qmi_encode_basic_elem buf dst src off (Suc n) sz = (case rd src off sz of
     None \<Rightarrow> None
   | Some bs \<Rightarrow> (case wr buf dst bs of
       None \<Rightarrow> None
     | Some buf' \<Rightarrow> qmi_encode_basic_elem buf' (dst + sz) src (off + sz) n sz))"

record enc =
  ebuf :: bytes
  edst :: nat
  etlv :: nat
  etlv_len :: nat
  ebytes :: nat
  edata_len :: nat
  eflag :: bool

definition update_encode_variables :: "nat \<Rightarrow> enc \<Rightarrow> enc" where
  "update_encode_variables rc st = st\<lparr>edst := edst st + rc, ebytes := ebytes st + rc,
     etlv_len := etlv_len st + rc, eflag := True\<rparr>"

definition enc_init :: "nat \<Rightarrow> bytes \<Rightarrow> nat \<Rightarrow> enc" where
  "enc_init level buf dst = \<lparr>ebuf = buf, edst = (if level = 1 then dst + 3 else dst), etlv = dst,
     etlv_len = 0, ebytes = 0, edata_len = 0, eflag = False\<rparr>"

text \<open>The number of elements to encode; \<open>None\<close> is an invalid length.\<close>

definition enc_count :: "qmi_elem_info \<Rightarrow> nat \<Rightarrow> nat option" where
  "enc_count e dl = (case array_type e of
     NO_ARRAY \<Rightarrow> Some 1
   | STATIC_ARRAY \<Rightarrow> Some (elem_len e)
   | VAR_LEN_ARRAY \<Rightarrow> if dl = 0 \<or> elem_len e < dl then None else Some dl)"

text \<open>The header of a top-level element, written once the element is complete.\<close>

definition enc_tlv :: "nat \<Rightarrow> u8 \<Rightarrow> enc \<Rightarrow> enc cres" where
  "enc_tlv level t st = (if eflag st \<and> level = 1 then
     (case wr (ebuf st) (etlv st) (t # le16 (of_nat (etlv_len st))) of
        None \<Rightarrow> UB
      | Some buf \<Rightarrow> Ok (st\<lparr>ebuf := buf, ebytes := ebytes st + 3, etlv := edst st, etlv_len := 0,
          edst := edst st + 3, eflag := False\<rparr>))
     else Ok st)"

text \<open>The value of the length field, and its one or two bytes in the message.\<close>

definition enc_data_len :: "qmi_elem_info \<Rightarrow> bytes \<Rightarrow> nat \<Rightarrow> nat \<Rightarrow> enc \<Rightarrow> enc cres" where
  "enc_data_len e src soff out st = (if elem_size e > 4 then UB else
     (case rd src (soff + elem_offset e) (elem_size e) of
        None \<Rightarrow> UB
      | Some bs \<Rightarrow>
          let v = rd32 (bs @ drop (elem_size e) (le32 (of_nat (edata_len st))));
              sz = (if elem_size e = 1 then 1 else 2)
          in if sz + ebytes st + 3 > out then Err (- EINVAL)
             else (case wr (ebuf st) (edst st) (take sz (le32 v)) of
                 None \<Rightarrow> UB
               | Some buf \<Rightarrow> Ok (update_encode_variables sz (st\<lparr>ebuf := buf, edata_len := unat v\<rparr>)))))"

definition enc_basic :: "qmi_elem_info \<Rightarrow> bytes \<Rightarrow> nat \<Rightarrow> nat \<Rightarrow> enc \<Rightarrow> enc cres" where
  "enc_basic e src soff out st =
    (if w32 (w32 (edata_len st * elem_size e) + ebytes st) + 3 > out then Err (- EINVAL)
     else (case qmi_encode_basic_elem (ebuf st) (edst st) src (soff + elem_offset e)
             (edata_len st) (elem_size e) of
         None \<Rightarrow> UB
       | Some buf \<Rightarrow> Ok (update_encode_variables (edata_len st * elem_size e) (st\<lparr>ebuf := buf\<rparr>))))"

definition qmi_encode_string_elem ::
    "nat \<Rightarrow> qmi_elem_info \<Rightarrow> bytes \<Rightarrow> nat \<Rightarrow> bytes \<Rightarrow> nat \<Rightarrow> nat \<Rightarrow> (nat \<times> bytes) cres" where
  "qmi_encode_string_elem level e buf dst src off out = (case strlen (drop off src) of
     None \<Rightarrow> UB
   | Some n \<Rightarrow>
      let sz = (if elem_len e \<le> 256 then 1 else 2) in
      if n > elem_len e then Err (- EINVAL)
      else if level = 1 then
        if n + 3 > out then Err (- EINVAL)
        else (case qmi_encode_basic_elem buf dst src off n (elem_size e) of
            None \<Rightarrow> UB
          | Some buf \<Rightarrow> Ok (n * elem_size e, buf))
      else if n + sz > out then Err (- EINVAL)
      else (case wr buf dst (take sz (le32 (of_nat n))) of
          None \<Rightarrow> UB
        | Some buf \<Rightarrow> (case qmi_encode_basic_elem buf (dst + sz) src off n (elem_size e) of
            None \<Rightarrow> UB
          | Some buf \<Rightarrow> Ok (sz + n * elem_size e, buf))))"

definition enc_string :: "nat \<Rightarrow> qmi_elem_info \<Rightarrow> bytes \<Rightarrow> nat \<Rightarrow> nat \<Rightarrow> enc \<Rightarrow> enc cres" where
  "enc_string level e src soff out st =
    (case qmi_encode_string_elem level e (ebuf st) (edst st) src (soff + elem_offset e)
        (sub32 out (ebytes st)) of
       UB \<Rightarrow> UB
     | Err x \<Rightarrow> Err x
     | Ok (rc, buf) \<Rightarrow> Ok (update_encode_variables rc (st\<lparr>ebuf := buf\<rparr>)))"

fun basic_type :: "qmi_elem_type \<Rightarrow> bool" where
  "basic_type QMI_UNSIGNED_1_BYTE = True"
| "basic_type QMI_UNSIGNED_2_BYTE = True"
| "basic_type QMI_UNSIGNED_4_BYTE = True"
| "basic_type QMI_UNSIGNED_8_BYTE = True"
| "basic_type QMI_SIGNED_1_BYTE_ENUM = True"
| "basic_type QMI_SIGNED_2_BYTE_ENUM = True"
| "basic_type QMI_SIGNED_4_BYTE_ENUM = True"
| "basic_type _ = False"

text \<open>
  The loop of \<open>qmi_encode\<close> from the descriptor it has reached, and the loop of
  \<open>qmi_encode_struct_elem\<close> over the structures that are left, with the bytes encoded so far.
\<close>

function enc_loop :: "nat \<Rightarrow> qmi_elem_info list \<Rightarrow> bytes \<Rightarrow> nat \<Rightarrow> nat \<Rightarrow> enc \<Rightarrow> enc cres"
  and enc_structs :: "nat \<Rightarrow> qmi_elem_info list option \<Rightarrow> nat \<Rightarrow> nat \<Rightarrow> bytes \<Rightarrow> nat \<Rightarrow> nat \<Rightarrow>
    bytes \<Rightarrow> nat \<Rightarrow> nat \<Rightarrow> (nat \<times> bytes) cres" where
  "enc_loop level [] src soff out st = UB"
| "enc_loop level (e # es) src soff out st =
    (if data_type e = QMI_EOTI then Ok st
     else (case enc_count e (edata_len st) of
         None \<Rightarrow> Err (- EINVAL)
       | Some n \<Rightarrow>
          let st = st\<lparr>edata_len := n\<rparr> in
          if data_type e = QMI_OPT_FLAG then
            (case rd src (soff + elem_offset e) 1 of
               None \<Rightarrow> UB
             | Some bs \<Rightarrow>
                 if bs = [0] then
                   (case skip_to_next_elem level (e # es) of
                      None \<Rightarrow> UB
                    | Some es' \<Rightarrow> cbind (enc_tlv level (tlv_type e) st) (enc_loop level es' src soff out))
                 else cbind (enc_tlv level (tlv_type e) st) (enc_loop level es src soff out))
          else if data_type e = QMI_DATA_LEN then
            cbind (enc_data_len e src soff out st) (\<lambda>st.
              if edata_len st = 0 then
                (case skip_to_next_elem level es of
                   None \<Rightarrow> UB
                 | Some es' \<Rightarrow> cbind (enc_tlv level (tlv_type e) st) (enc_loop level es' src soff out))
              else cbind (enc_tlv level (tlv_type e) (st\<lparr>eflag := False\<rparr>)) (enc_loop level es src soff out))
          else if basic_type (data_type e) then
            cbind (enc_basic e src soff out st) (\<lambda>st.
              cbind (enc_tlv level (tlv_type e) st) (enc_loop level es src soff out))
          else if data_type e = QMI_STRUCT then
            cbind (enc_structs n (ei_array e) (elem_size e) (level + 1) (ebuf st) (edst st) 0 src
                (soff + elem_offset e) (sub32 out (ebytes st))) (\<lambda>(rc, buf).
              cbind (enc_tlv level (tlv_type e) (update_encode_variables rc (st\<lparr>ebuf := buf\<rparr>)))
                (enc_loop level es src soff out))
          else
            cbind (enc_string level e src soff out st) (\<lambda>st.
              cbind (enc_tlv level (tlv_type e) st) (enc_loop level es src soff out))))"
| "enc_structs 0 sub esz level buf dst acc src soff out = Ok (acc, buf)"
| "enc_structs (Suc n) sub esz level buf dst acc src soff out =
    cbind (case sub of
        None \<Rightarrow> Ok (enc_init level buf dst)
      | Some ei \<Rightarrow> enc_loop level ei src soff (sub32 out acc) (enc_init level buf dst)) (\<lambda>st.
      enc_structs n sub esz level (ebuf st) (dst + ebytes st) (acc + ebytes st) src (soff + esz) out)"
  by pat_completeness auto

termination
  by (relation "measures
      [\<lambda>x. case x of Inl (level, es, _) \<Rightarrow> 2 * size_list size es
         | Inr (n, sub, _) \<Rightarrow> (case sub of None \<Rightarrow> 0 | Some ei \<Rightarrow> 2 * size_list size ei + 1),
       \<lambda>x. case x of Inl _ \<Rightarrow> 0 | Inr (n, _) \<Rightarrow> n]")
    (auto dest: skip_suffix skip_same_suffix sub_size split: option.splits if_splits)


definition qmi_encode :: "qmi_elem_info list option \<Rightarrow> bytes \<Rightarrow> nat \<Rightarrow> bytes \<Rightarrow> nat \<Rightarrow> nat \<Rightarrow>
    (nat \<times> bytes) cres" where
  "qmi_encode ei buf dst src soff out = (case ei of
     None \<Rightarrow> Ok (0, buf)
   | Some ei \<Rightarrow> cbind (enc_loop 1 ei src soff out (enc_init 1 buf dst)) (\<lambda>st. Ok (ebytes st, ebuf st)))"

section \<open>Decoding\<close>

fun qmi_decode_basic_elem :: "bytes \<Rightarrow> nat \<Rightarrow> bytes \<Rightarrow> nat \<Rightarrow> nat \<Rightarrow> nat \<Rightarrow> bytes option" where
  "qmi_decode_basic_elem dst doff src off 0 sz = Some dst"
| "qmi_decode_basic_elem dst doff src off (Suc n) sz = (case rd src off sz of
     None \<Rightarrow> None
   | Some bs \<Rightarrow> (case wr dst doff bs of
       None \<Rightarrow> None
     | Some dst' \<Rightarrow> qmi_decode_basic_elem dst' (doff + sz) src (off + sz) n sz))"

text \<open>The bytes consumed and the object written, with the terminating zero.\<close>

definition qmi_decode_string_elem ::
    "nat \<Rightarrow> qmi_elem_info \<Rightarrow> bytes \<Rightarrow> nat \<Rightarrow> bytes \<Rightarrow> nat \<Rightarrow> nat \<Rightarrow> (nat \<times> bytes) cres" where
  "qmi_decode_string_elem level e dst doff src off tlv_len =
    (let sz = (if level = 1 then 0 else if elem_len e \<le> 256 then 1 else 2) in
     case (if level = 1 then Some tlv_len
           else map_option (\<lambda>bs. unat (rd32 (bs @ drop sz (le32 0)))) (rd src off sz)) of
       None \<Rightarrow> UB
     | Some n \<Rightarrow>
         if n > elem_len e then Err (- EINVAL)
         else if n > tlv_len then Err (- EFAULT)
         else (case qmi_decode_basic_elem dst doff src (off + sz) n (elem_size e) of
             None \<Rightarrow> UB
           | Some dst \<Rightarrow> (case wr dst (doff + n) [0] of
               None \<Rightarrow> UB
             | Some dst \<Rightarrow> Ok (sz + n * elem_size e, dst))))"

fun find_ei :: "qmi_elem_info list \<Rightarrow> u8 \<Rightarrow> qmi_elem_info list cres" where
  "find_ei [] t = UB"
| "find_ei (e # es) t = (if data_type e = QMI_EOTI then Err 0
     else if tlv_type e = t then Ok (e # es) else find_ei es t)"

lemma find_ei_suffix: "find_ei es t = Ok es' \<Longrightarrow> size_list size es' \<le> size_list size es"
  by (induction es) (auto split: if_splits)

record dec =
  dout :: bytes
  dsrc :: nat
  dbytes :: nat
  ddata_len :: nat

definition update_decode_variables :: "nat \<Rightarrow> dec \<Rightarrow> dec" where
  "update_decode_variables rc st = st\<lparr>dsrc := dsrc st + rc, dbytes := dbytes st + rc\<rparr>"

definition dec_init :: "bytes \<Rightarrow> nat \<Rightarrow> dec" where
  "dec_init dst off = \<lparr>dout = dst, dsrc = off, dbytes = 0, ddata_len = 0\<rparr>"

text \<open>The optional-element flag in front of an element is set in the structure.\<close>

definition dec_flag :: "qmi_elem_info list \<Rightarrow> nat \<Rightarrow> dec \<Rightarrow> (qmi_elem_info list \<times> dec) cres" where
  "dec_flag es doff st = (case es of
     [] \<Rightarrow> UB
   | e # es' \<Rightarrow>
      if data_type e = QMI_OPT_FLAG then
        (case wr (dout st) (doff + elem_offset e) [1] of
           None \<Rightarrow> UB
         | Some dst \<Rightarrow> Ok (es', st\<lparr>dout := dst\<rparr>))
      else Ok (es, st))"

text \<open>A length field in front of an array; the third result is the rest of the element's length.\<close>

definition dec_data_len :: "qmi_elem_info list \<Rightarrow> bytes \<Rightarrow> nat \<Rightarrow> nat \<Rightarrow> dec \<Rightarrow>
    (qmi_elem_info list \<times> nat \<times> dec) cres" where
  "dec_data_len es src doff tlv_len st = (case es of
     [] \<Rightarrow> UB
   | e # es' \<Rightarrow>
      if data_type e = QMI_DATA_LEN then
        let sz = (if elem_size e = 1 then 1 else 2) in
        (case rd src (dsrc st) sz of
           None \<Rightarrow> UB
         | Some bs \<Rightarrow>
             let v = rd32 (bs @ drop sz (le32 (of_nat (ddata_len st)))) in
             (case wr (dout st) (doff + elem_offset e) (le32 v) of
                None \<Rightarrow> UB
              | Some dst \<Rightarrow> Ok (es', sub32 tlv_len sz,
                  update_decode_variables sz (st\<lparr>dout := dst, ddata_len := unat v\<rparr>))))
      else Ok (es, tlv_len, st))"

definition dec_count :: "qmi_elem_info \<Rightarrow> nat \<Rightarrow> nat option" where
  "dec_count e dl = (case array_type e of
     NO_ARRAY \<Rightarrow> Some 1
   | STATIC_ARRAY \<Rightarrow> Some (elem_len e)
   | VAR_LEN_ARRAY \<Rightarrow> if dl > elem_len e then None else Some dl)"

definition dec_basic :: "qmi_elem_info \<Rightarrow> bytes \<Rightarrow> nat \<Rightarrow> dec \<Rightarrow> dec cres" where
  "dec_basic e src doff st =
    (case qmi_decode_basic_elem (dout st) (doff + elem_offset e) src (dsrc st) (ddata_len st) (elem_size e) of
       None \<Rightarrow> UB
     | Some dst \<Rightarrow> Ok (update_decode_variables (ddata_len st * elem_size e) (st\<lparr>dout := dst\<rparr>)))"

definition dec_string :: "nat \<Rightarrow> qmi_elem_info \<Rightarrow> bytes \<Rightarrow> nat \<Rightarrow> nat \<Rightarrow> dec \<Rightarrow> dec cres" where
  "dec_string level e src doff tlv_len st =
    cbind (qmi_decode_string_elem level e (dout st) (doff + elem_offset e) src (dsrc st) tlv_len)
      (\<lambda>(rc, dst). Ok (update_decode_variables rc (st\<lparr>dout := dst\<rparr>)))"

text \<open>
  The header of a top-level element: its type and length, the descriptors from the one that has the
  type (\<open>None\<close> for an unknown optional element, which is skipped), or an error.
\<close>

definition dec_tlv :: "qmi_elem_info list \<Rightarrow> bytes \<Rightarrow> dec \<Rightarrow>
    (qmi_elem_info list option \<times> nat \<times> dec) cres" where
  "dec_tlv ei src st = (case rd src (dsrc st) 3 of
     Some [t, l0, l1] \<Rightarrow>
       let len = unat (rd16 [l0, l1]);
           st = update_decode_variables 3 st
       in (case find_ei ei t of
            UB \<Rightarrow> UB
          | Ok es \<Rightarrow> Ok (Some es, len, st)
          | Err _ \<Rightarrow> if t < 0x10 then Err (- EINVAL)
                     else Ok (None, len, update_decode_variables len st))
   | _ \<Rightarrow> UB)"


text \<open>Where an element starts: at its header on the top level, at once in a nested structure.\<close>

definition dec_head :: "nat \<Rightarrow> qmi_elem_info list \<Rightarrow> qmi_elem_info list \<Rightarrow> bytes \<Rightarrow> nat \<Rightarrow> dec \<Rightarrow>
    (qmi_elem_info list option \<times> nat \<times> dec) cres" where
  "dec_head level ei es src in_len st =
    (if level = 1 then dec_tlv ei src st else Ok (Some es, in_len - dbytes st, st))"

text \<open>The flag, the length field and the number of elements, up to the \<open>switch\<close>.\<close>

definition dec_prefix :: "qmi_elem_info list \<Rightarrow> bytes \<Rightarrow> nat \<Rightarrow> nat \<Rightarrow> dec \<Rightarrow>
    (qmi_elem_info \<times> qmi_elem_info list \<times> nat \<times> dec) cres" where
  "dec_prefix es src doff len st =
    cbind (dec_flag es doff st) (\<lambda>(es, st).
    cbind (dec_data_len es src doff len st) (\<lambda>(es, len, st).
      case es of
        [] \<Rightarrow> UB
      | e # es' \<Rightarrow> (case dec_count e (ddata_len st) of
          None \<Rightarrow> Err (- EINVAL)
        | Some n \<Rightarrow> Ok (e, es', len, st\<lparr>ddata_len := n\<rparr>))))"

lemma update_decode_simps [simp]:
  "dbytes (update_decode_variables n st) = dbytes st + n"
  "dsrc (update_decode_variables n st) = dsrc st + n"
  "dout (update_decode_variables n st) = dout st"
  "ddata_len (update_decode_variables n st) = ddata_len st"
  by (simp_all add: update_decode_variables_def)

lemma dec_flag_size:
  "dec_flag es doff st = Ok (es', st') \<Longrightarrow> size_list size es' \<le> size_list size es \<and> dbytes st' = dbytes st"
  by (auto simp: dec_flag_def split: list.splits if_splits option.splits)

lemma dec_data_len_size:
  "dec_data_len es src doff len st = Ok (es', len', st') \<Longrightarrow>
    size_list size es' \<le> size_list size es \<and> dbytes st \<le> dbytes st'"
  by (auto simp: dec_data_len_def Let_def split: list.splits if_splits option.splits)

lemma dec_prefix_size:
  assumes "dec_prefix es src doff len st = Ok (e, es', len', st')"
  shows "size e < size_list size es" "size_list size es' < size_list size es" "dbytes st \<le> dbytes st'"
proof -
  from assms obtain es1 st1 where f1: "dec_flag es doff st = Ok (es1, st1)"
    by (auto simp: dec_prefix_def)
  with assms obtain es2 l2 st2 where f2: "dec_data_len es1 src doff len st1 = Ok (es2, l2, st2)"
    by (auto simp: dec_prefix_def)
  with f1 assms have e: "es2 = e # es'" "dbytes st' = dbytes st2"
    by (auto simp: dec_prefix_def split: list.splits option.splits)
  show "size e < size_list size es" "size_list size es' < size_list size es" "dbytes st \<le> dbytes st'"
    using dec_flag_size [OF f1] dec_data_len_size [OF f2] e by auto
qed

lemma dec_head_size:
  assumes "dec_head level ei es src in_len st = Ok (r, len, st')"
  shows "level = 1 \<Longrightarrow> dbytes st < dbytes st'" "dbytes st \<le> dbytes st'"
    "r = Some es' \<Longrightarrow> level = 1 \<Longrightarrow> size_list size es' \<le> size_list size ei"
    "r = Some es' \<Longrightarrow> level \<noteq> 1 \<Longrightarrow> es' = es" "r = None \<Longrightarrow> level = 1"
  using assms by (auto simp: dec_head_def dec_tlv_def Let_def dest: find_ei_suffix
      split: if_splits option.splits list.splits cres.splits)

lemma dec_basic_bytes: "dec_basic e src doff st = Ok st' \<Longrightarrow> dbytes st \<le> dbytes st'"
  by (auto simp: dec_basic_def split: option.splits)

lemma dec_string_bytes: "dec_string level e src doff len st = Ok st' \<Longrightarrow> dbytes st \<le> dbytes st'"
  by (auto simp: dec_string_def)

lemma dec_step_size:
  assumes "dec_head level ei es src in_len st = Ok (Some es1, len1, st1)"
    "dec_prefix es1 src doff len1 st1 = Ok (e, es2, len2, st2)"
  shows "size e < (if level = 1 then size_list size ei else size_list size es)"
    "level \<noteq> 1 \<Longrightarrow> size_list size es2 < size_list size es"
    "level = 1 \<Longrightarrow> dbytes st < dbytes st2"
  using dec_head_size [OF assms(1)] dec_prefix_size [OF assms(2)] by (auto split: if_splits)

function dec_loop :: "nat \<Rightarrow> qmi_elem_info list \<Rightarrow> qmi_elem_info list \<Rightarrow> bytes \<Rightarrow> nat \<Rightarrow> nat \<Rightarrow> dec \<Rightarrow> dec cres"
  and dec_structs :: "nat \<Rightarrow> qmi_elem_info list option \<Rightarrow> nat \<Rightarrow> nat \<Rightarrow> bytes \<Rightarrow> nat \<Rightarrow> nat \<Rightarrow> nat \<Rightarrow> nat \<Rightarrow>
    bytes \<Rightarrow> (nat \<times> bytes) cres" where
  "dec_loop level ei es src doff in_len st =
    (if dbytes st \<ge> in_len then Ok st
     else if level \<noteq> 1 \<and> es = [] then UB
     else if level \<noteq> 1 \<and> data_type (hd es) = QMI_EOTI then Ok st
     else cbind (dec_head level ei es src in_len st) (\<lambda>(found, len, st).
       case found of
         None \<Rightarrow> dec_loop level ei es src doff in_len st
       | Some es' \<Rightarrow> cbind (dec_prefix es' src doff len st) (\<lambda>(e, es', len, st).
           if basic_type (data_type e) then
             cbind (dec_basic e src doff st) (dec_loop level ei es' src doff in_len)
           else if data_type e = QMI_STRUCT then
             cbind (dec_structs (ddata_len st) (ei_array e) (elem_size e) (level + 1) src
                 (doff + elem_offset e) (dsrc st) len 0 (dout st)) (\<lambda>(rc, dst).
               dec_loop level ei es' src doff in_len (update_decode_variables rc (st\<lparr>dout := dst\<rparr>)))
           else if data_type e = QMI_STRING then
             cbind (dec_string level e src doff len st) (dec_loop level ei es' src doff in_len)
           else Err (- EINVAL))))"
| "dec_structs n sub esz level src doff soff tlv_len acc dst =
    (if n > 0 \<and> acc < tlv_len then
       cbind (case sub of
           None \<Rightarrow> UB
         | Some ei \<Rightarrow> dec_loop level ei ei src doff (tlv_len - acc) (dec_init dst soff)) (\<lambda>st.
         dec_structs (n - 1) sub esz level src (doff + esz) (soff + dbytes st) tlv_len (acc + dbytes st) (dout st))
     else if level \<le> 2 \<and> acc \<noteq> tlv_len \<or> level > 2 \<and> (n > 0 \<or> acc > tlv_len) then Err (- EFAULT)
     else Ok (acc, dst))"
  by pat_completeness auto
termination
  apply (relation "measures
      [\<lambda>x. case x of Inl (level, ei, es, _) \<Rightarrow> 2 * (if level = 1 then size_list size ei else size_list size es)
         | Inr (n, sub, _) \<Rightarrow> (case sub of None \<Rightarrow> 0 | Some ei \<Rightarrow> 2 * size_list size ei + 1),
       \<lambda>x. case x of Inl (level, ei, es, src, doff, in_len, st) \<Rightarrow> in_len - dbytes st | Inr (n, _) \<Rightarrow> n]")
  subgoal by simp
  subgoal for level ei es src doff in_len st a x y xa ya
    using dec_head_size(1,5) [of level ei es src in_len st x xa ya] by auto
  subgoal for level ei es src doff in_len st a x y xa ya x2 aa xb yb xc yc xd yd ab
    using dec_step_size [of level ei es src in_len st x2 xa ya doff xb xc xd yd]
      dec_basic_bytes [of xb src doff yd ab] by auto
  subgoal for level ei es src doff in_len st a x y xa ya x2 aa xb yb xc yc xd yd
    using dec_step_size [of level ei es src in_len st x2 xa ya doff xb xc xd yd]
      sub_size [of xb] by (auto split: option.splits if_splits)
  subgoal for level ei es src doff in_len st a x y xa ya x2 aa xb yb xc yc xd yd ab xe ye
    using dec_step_size [of level ei es src in_len st x2 xa ya doff xb xc xd yd] by auto
  subgoal for level ei es src doff in_len st a x y xa ya x2 aa xb yb xc yc xd yd ab
    using dec_step_size [of level ei es src in_len st x2 xa ya doff xb xc xd yd]
      dec_string_bytes [of level xb src doff xd yd ab] by auto
  subgoal by auto
  subgoal by auto
  done

declare dec_loop.simps [simp del] dec_structs.simps [simp del]

definition qmi_decode :: "qmi_elem_info list \<Rightarrow> bytes \<Rightarrow> nat \<Rightarrow> bytes \<Rightarrow> nat \<Rightarrow> nat \<Rightarrow> (nat \<times> bytes) cres" where
  "qmi_decode ei dst doff src soff in_len =
    cbind (dec_loop 1 ei ei src doff in_len (dec_init dst soff)) (\<lambda>st. Ok (dbytes st, dout st))"

section \<open>Messages\<close>

record qmi_header =
  hdr_type :: u8
  hdr_txn_id :: u16
  hdr_msg_id :: u16
  hdr_msg_len :: u16

definition header_bytes :: "qmi_header \<Rightarrow> bytes" where
  "header_bytes h = hdr_type h # le16 (hdr_txn_id h) @ le16 (hdr_msg_id h) @ le16 (hdr_msg_len h)"

definition header_of :: "bytes \<Rightarrow> qmi_header option" where
  "header_of m = (case rd m 0 7 of
     Some (t # bs) \<Rightarrow> Some \<lparr>hdr_type = t, hdr_txn_id = rd16 bs, hdr_msg_id = rd16 (drop 2 bs),
       hdr_msg_len = rd16 (drop 4 bs)\<rparr>
   | _ \<Rightarrow> None)"

text \<open>
  A packet is its data buffer \<open>data\<close> and the length \<open>data_len\<close> of the part in use. The result of
  encoding is the new length and the buffer.
\<close>

abbreviation (input) QMI_REQUEST :: u8 where "QMI_REQUEST \<equiv> 0"
abbreviation (input) QMI_RESPONSE :: u8 where "QMI_RESPONSE \<equiv> 2"
abbreviation (input) QMI_INDICATION :: u8 where "QMI_INDICATION \<equiv> 4"

definition qmi_encode_message :: "bytes \<Rightarrow> nat \<Rightarrow> u8 \<Rightarrow> u16 \<Rightarrow> u16 \<Rightarrow> bytes option \<Rightarrow>
    qmi_elem_info list option \<Rightarrow> (nat \<times> bytes) cres" where
  "qmi_encode_message data data_len type msg_id txn_id c_struct ei =
    (case (if c_struct = None then (case ei of None \<Rightarrow> Some 0 | Some es \<Rightarrow> qmi_calc_min_msg_len 1 es)
           else Some 0) of
       None \<Rightarrow> UB
     | Some n \<Rightarrow>
        if n \<noteq> 0 then Err (- EINVAL)
        else if data_len < 7 then Err (- EMSGSIZE)
        else cbind (case c_struct of
            None \<Rightarrow> Ok (0, data)
          | Some src \<Rightarrow> qmi_encode ei data 7 src 0 (w32 (data_len - 7))) (\<lambda>(msglen, data).
            (case wr data 0 (header_bytes \<lparr>hdr_type = type, hdr_txn_id = txn_id, hdr_msg_id = msg_id,
                hdr_msg_len = of_nat msglen\<rparr>) of
               None \<Rightarrow> UB
             | Some data \<Rightarrow> Ok (7 + msglen, data))))"

text \<open>\<open>data_len - sizeof(*qmi)\<close> is computed in the 64 bits of \<open>size_t\<close>.\<close>

definition qmi_decode_header :: "bytes \<Rightarrow> nat \<Rightarrow> u16 cres" where
  "qmi_decode_header data data_len = (case header_of data of
     None \<Rightarrow> UB
   | Some h \<Rightarrow> if unat (hdr_msg_len h) \<noteq> sub64 data_len 7 then Err (- EINVAL) else Ok (hdr_msg_id h))"

text \<open>The transaction id that was stored, if any, and the number of bytes decoded with the structure.\<close>

definition qmi_decode_message :: "bytes option \<Rightarrow> bytes \<Rightarrow> nat \<Rightarrow> u8 \<Rightarrow> u16 \<Rightarrow>
    qmi_elem_info list option \<Rightarrow> u16 option \<times> (nat \<times> bytes) cres" where
  "qmi_decode_message c_struct data data_len type msg_id ei = (case (ei, c_struct) of
     (Some es, Some dst) \<Rightarrow>
       if data_len = 0 then (None, Err (- EINVAL))
       else (case header_of data of
           None \<Rightarrow> (None, UB)
         | Some h \<Rightarrow>
             if hdr_type h \<noteq> type \<or> hdr_msg_id h \<noteq> msg_id then (None, Err (- EINVAL))
             else (Some (hdr_txn_id h), qmi_decode es dst 0 data 7 (w32 (sub64 data_len 7))))
   | _ \<Rightarrow> (None, Err (- EINVAL)))"

definition qmi_response_type_v01_ei :: "qmi_elem_info list" where
  "qmi_response_type_v01_ei =
    [EI QMI_SIGNED_2_BYTE_ENUM 1 2 NO_ARRAY 0 0 None,
     EI QMI_SIGNED_2_BYTE_ENUM 1 2 NO_ARRAY 0 2 None,
     EI QMI_EOTI 0 0 NO_ARRAY 0 0 None]"

end
