(* ===== verification/Qmi_Wire.thy ===== *)
theory Qmi_Wire
  imports Qmi_Codec
begin

text \<open>
  A reference for the encoder of \<open>qcom/qrtr/lib/qmi.c\<close>: \<open>wire\<close> builds the message by concatenation, without
  a buffer, a remaining length or a header that is filled in afterwards. The encoder writes exactly
  this message when it fits.
\<close>

section \<open>The reference\<close>

text \<open>
  A top-level element is closed by putting its type and length in front of its bytes. What is not
  closed yet (a length field whose array follows, the members of a nested structure) is pending.
\<close>

definition emit :: "nat \<Rightarrow> bool \<Rightarrow> u8 \<Rightarrow> bytes \<Rightarrow> bytes \<times> bytes" where
  "emit level closed t p = (if level = 1 \<and> closed then (t # le16 (of_nat (length p)) @ p, []) else ([], p))"

definition wire_string :: "nat \<Rightarrow> qmi_elem_info \<Rightarrow> bytes \<Rightarrow> nat \<Rightarrow> bytes option" where
  "wire_string level e src off = (case strlen (drop off src) of
     None \<Rightarrow> None
   | Some n \<Rightarrow> if n > elem_len e \<or> elem_size e \<noteq> 1 \<or> level \<noteq> 1 \<and> n \<ge> (if elem_len e \<le> 256 then 256 else 65536) then None
       else map_option ((@) (if level = 1 then [] else take (if elem_len e \<le> 256 then 1 else 2) (le32 (of_nat n))))
         (rd src off n))"

definition wire_len :: "qmi_elem_info \<Rightarrow> bytes \<Rightarrow> nat \<Rightarrow> nat \<Rightarrow> (nat \<times> bytes) option" where
  "wire_len e src off dl = (if elem_size e > 4 then None else
     map_option (\<lambda>bs. let v = rd32 (bs @ drop (elem_size e) (le32 (of_nat dl)))
       in (unat v, take (if elem_size e = 1 then 1 else 2) (le32 v))) (rd src off (elem_size e)))"

text \<open>
  One element, with \<open>n\<close> values and, for a structure, its encoding \<open>own\<close>: where the table goes on, the
  length that is in force then, whether the element is closed, and its bytes.
\<close>

definition wire_elem :: "nat \<Rightarrow> qmi_elem_info \<Rightarrow> qmi_elem_info list \<Rightarrow> bytes \<Rightarrow> nat \<Rightarrow> nat \<Rightarrow> bytes option \<Rightarrow>
    (qmi_elem_info list \<times> nat \<times> bool \<times> bytes) option" where
  "wire_elem level e es src off n own =
    (if data_type e = QMI_OPT_FLAG then
       (case rd src off 1 of
          None \<Rightarrow> None
        | Some bs \<Rightarrow> if bs = [0] then map_option (\<lambda>es'. (es', n, False, [])) (skip_to_next_elem level (e # es))
            else Some (es, n, False, []))
     else if data_type e = QMI_DATA_LEN then
       (case wire_len e src off n of
          None \<Rightarrow> None
        | Some (v, bs) \<Rightarrow> if v = 0 then map_option (\<lambda>es'. (es', v, True, bs)) (skip_to_next_elem level es)
            else Some (es, v, False, bs))
     else map_option (\<lambda>bs. (es, n, True, bs))
       (if basic_type (data_type e) then rd src off (n * elem_size e)
        else if data_type e = QMI_STRUCT then own
        else wire_string level e src off))"

lemma wire_elem_size: "wire_elem level e es src off n own = Some (es', r) \<Longrightarrow> size_list size es' \<le> size_list size es"
  by (auto simp: wire_elem_def split: if_splits option.splits dest: less_imp_le [OF skip_suffix] skip_same_suffix)

function wire :: "nat \<Rightarrow> qmi_elem_info list \<Rightarrow> bytes \<Rightarrow> nat \<Rightarrow> nat \<Rightarrow> bytes \<Rightarrow> bytes option"
  and wire_structs :: "nat \<Rightarrow> qmi_elem_info list option \<Rightarrow> nat \<Rightarrow> nat \<Rightarrow> bytes \<Rightarrow> nat \<Rightarrow> bytes option" where
  "wire level [] src soff dl pend = None"
| "wire level (e # es) src soff dl pend =
    (if data_type e = QMI_EOTI then (if level = 1 \<and> pend \<noteq> [] then None else Some pend)
     else (case enc_count e dl of
         None \<Rightarrow> None
       | Some n \<Rightarrow>
          (case wire_elem level e es src (soff + elem_offset e) n
              (if data_type e = QMI_STRUCT
               then wire_structs n (ei_array e) (elem_size e) (level + 1) src (soff + elem_offset e) else None) of
             None \<Rightarrow> None
           | Some (es', dl, closed, bs) \<Rightarrow>
               map_option ((@) (fst (emit level closed (tlv_type e) (pend @ bs))))
                 (wire level es' src soff dl (snd (emit level closed (tlv_type e) (pend @ bs)))))))"
| "wire_structs 0 sub esz level src soff = Some []"
| "wire_structs (Suc n) sub esz level src soff =
    (case (case sub of None \<Rightarrow> Some [] | Some ei \<Rightarrow> wire level ei src soff 0 []) of
       None \<Rightarrow> None
     | Some bs \<Rightarrow> map_option ((@) bs) (wire_structs n sub esz level src (soff + esz)))"
  by pat_completeness auto

termination
  by (relation "measures
      [\<lambda>x. case x of Inl (level, es, _) \<Rightarrow> 2 * size_list size es
         | Inr (n, sub, _) \<Rightarrow> (case sub of None \<Rightarrow> 0 | Some ei \<Rightarrow> 2 * size_list size ei + 1),
       \<lambda>x. case x of Inl _ \<Rightarrow> 0 | Inr (n, _) \<Rightarrow> n]")
    (auto dest: wire_elem_size sub_size split: option.splits if_splits)

text \<open>The encoding of a structure element, and what is left of a table behind its first element.\<close>

abbreviation (input) own_bytes :: "nat \<Rightarrow> qmi_elem_info \<Rightarrow> bytes \<Rightarrow> nat \<Rightarrow> nat \<Rightarrow> bytes option" where
  "own_bytes level e src soff n \<equiv> (if data_type e = QMI_STRUCT
     then wire_structs n (ei_array e) (elem_size e) (level + 1) src (soff + elem_offset e) else None)"

lemma wire_Cons:
  assumes "wire level (e # es) src soff dl pend = Some w" "data_type e \<noteq> QMI_EOTI"
  shows "\<exists>n es' dl' closed bs w'. enc_count e dl = Some n \<and>
    wire_elem level e es src (soff + elem_offset e) n (own_bytes level e src soff n) = Some (es', dl', closed, bs) \<and>
    wire level es' src soff dl' (snd (emit level closed (tlv_type e) (pend @ bs))) = Some w' \<and>
    w = fst (emit level closed (tlv_type e) (pend @ bs)) @ w'"
  using assms by (cases "data_type e = QMI_STRUCT") (auto split: option.splits)

lemma wire_pending:
  "wire level es src soff dl pend = Some w \<Longrightarrow>
     (if level = 1 \<and> pend \<noteq> [] then 3 else 0) + length pend \<le> length w"
  "wire_structs n sub esz level src soff = Some w \<Longrightarrow> True"
proof (induction level es src soff dl pend and n sub esz level src soff arbitrary: w rule: wire_wire_structs.induct)
  case (2 level e es src soff dl pend)
  show ?case
  proof (cases "data_type e = QMI_EOTI")
    case False
    from wire_Cons [OF 2(3) False] obtain n es' dl' closed bs w' where
      a: "enc_count e dl = Some n"
        "wire_elem level e es src (soff + elem_offset e) n (own_bytes level e src soff n) = Some (es', dl', closed, bs)"
        "wire level es' src soff dl' (snd (emit level closed (tlv_type e) (pend @ bs))) = Some w'"
        "w = fst (emit level closed (tlv_type e) (pend @ bs)) @ w'"
      by blast
    from 2(2) [OF False a(1,2) refl refl refl a(3)] a(4) show ?thesis
      by (auto simp: emit_def split: if_splits)
  qed (use 2(3) in \<open>auto split: if_splits\<close>)
qed auto

section \<open>Writing at a position\<close>

definition put :: "bytes \<Rightarrow> nat \<Rightarrow> bytes \<Rightarrow> bytes" where
  "put m off bs = take off m @ bs @ drop (off + length bs) m"

lemma wr_put: "wr m off bs = (if off + length bs \<le> length m then Some (put m off bs) else None)"
  by (simp add: wr_def put_def)

lemma length_put [simp]: "off + length bs \<le> length m \<Longrightarrow> length (put m off bs) = length m"
  by (simp add: put_def)

lemma put_Nil [simp]: "put m off [] = m"
  by (simp add: put_def)

lemma put_append: "off + length bs + length cs \<le> length m \<Longrightarrow> put (put m off bs) (off + length bs) cs = put m off (bs @ cs)"
  by (simp add: put_def add.commute add.left_commute)

lemma put_header:
  assumes "off + length h + length bs \<le> length m"
  shows "put (put m (off + length h) bs) off h = put m off (h @ bs)"
  using assms by (simp add: put_def take_drop add.commute add.left_commute min_def drop_take)

lemma encode_basic_put:
  "rd src off (n * sz) = Some bs \<Longrightarrow> dst + length bs \<le> length buf \<Longrightarrow>
     qmi_encode_basic_elem buf dst src off n sz = Some (put buf dst bs)"
proof (induction n arbitrary: buf dst off bs)
  case (Suc n)
  from Suc.prems have l: "off + (sz + n * sz) \<le> length src" "length bs = sz + n * sz"
    by (auto simp: rd_def split: if_splits)
  let ?b = "take sz (drop off src)" and ?c = "take (n * sz) (drop (off + sz) src)"
  have bs: "bs = ?b @ ?c" "rd src off sz = Some ?b" "rd src (off + sz) (n * sz) = Some ?c"
    using Suc.prems(1) l by (auto simp: rd_def take_add add.commute add.left_commute)
  have lb: "length ?b = sz" "length ?c = n * sz" using l by auto
  have "qmi_encode_basic_elem (put buf dst ?b) (dst + sz) src (off + sz) n sz = Some (put (put buf dst ?b) (dst + sz) ?c)"
    by (rule Suc.IH [OF bs(3)]) (use Suc.prems(2) l lb in auto)
  then show ?case using bs(2) Suc.prems(2) l lb put_append [of dst ?b ?c buf] by (simp add: wr_put bs(1))
qed (auto simp: rd_def split: if_splits)

section \<open>The encoder writes the message\<close>

text \<open>
  The state of the loop: \<open>fin\<close> has been written at \<open>b\<close>, and \<open>pend\<close> behind the place of the next header.
\<close>

definition hdr :: "nat \<Rightarrow> nat" where "hdr level = (if level = 1 then 3 else 0)"

definition enc_inv :: "nat \<Rightarrow> bytes \<Rightarrow> nat \<Rightarrow> bytes \<Rightarrow> bytes \<Rightarrow> enc \<Rightarrow> bool" where
  "enc_inv level m b fin pend st \<longleftrightarrow>
     ebuf st = put (put m b fin) (b + length fin + hdr level) pend \<and> etlv st = b + length fin \<and>
     edst st = b + length fin + hdr level + length pend \<and> ebytes st = length fin + length pend \<and>
     (level = 1 \<longrightarrow> etlv_len st = length pend \<and> \<not> eflag st) \<and> (level \<noteq> 1 \<longrightarrow> fin = [])"

lemma enc_inv_init: "enc_inv level m b [] [] (enc_init level m b)"
  by (simp add: enc_inv_def enc_init_def hdr_def)

lemma enc_inv_data_len: "enc_inv level m b fin pend st \<Longrightarrow> enc_inv level m b fin pend (st\<lparr>edata_len := n\<rparr>)"
  by (simp add: enc_inv_def)

lemma enc_tlv_open:
  "enc_inv level m b fin pend st \<Longrightarrow> enc_tlv level t st = Ok st"
  by (auto simp: enc_tlv_def enc_inv_def)

text \<open>Adding the bytes of an element, and closing it.\<close>

definition push :: "bytes \<Rightarrow> enc \<Rightarrow> enc" where
  "push bs st = update_encode_variables (length bs) (st\<lparr>ebuf := put (ebuf st) (edst st) bs\<rparr>)"

lemma push_inv:
  assumes "enc_inv level m b fin pend st" "edst st + length bs \<le> length m"
  shows "enc_inv level m b fin (pend @ bs) ((push bs st)\<lparr>eflag := False\<rparr>)"
    "level \<noteq> 1 \<Longrightarrow> enc_inv level m b fin (pend @ bs) (push bs st)"
  using assms put_append [of "b + length fin + hdr level" pend bs "put m b fin"]
  by (auto simp: enc_inv_def push_def update_encode_variables_def)

lemma push_close:
  assumes "enc_inv level m b fin pend st" "edst st + length bs \<le> length m"
  shows "\<exists>st'. enc_tlv level t (push bs st) = Ok st' \<and> edata_len st' = edata_len st \<and>
    enc_inv level m b (fin @ fst (emit level True t (pend @ bs))) (snd (emit level True t (pend @ bs))) st'"
proof (cases "level = 1")
  case True
  let ?h = "t # le16 (of_nat (length (pend @ bs)))"
  have i: "enc_inv level m b fin (pend @ bs) ((push bs st)\<lparr>eflag := False\<rparr>)" by (rule push_inv(1) [OF assms])
  have l: "b + length fin + 3 + length (pend @ bs) \<le> length m"
    using assms True by (simp add: enc_inv_def hdr_def)
  have "put (put (put m b fin) (b + length fin + 3) (pend @ bs)) (b + length fin) ?h = put m b (fin @ ?h @ pend @ bs)"
    using put_header [of "b + length fin" ?h "pend @ bs" "put m b fin"] l
      put_append [of b fin "?h @ pend @ bs" m] by simp
  moreover have f: "ebuf (push bs st) = put (put m b fin) (b + length fin + 3) (pend @ bs)"
    "etlv (push bs st) = b + length fin" "edst (push bs st) = b + length fin + 3 + length (pend @ bs)"
    "ebytes (push bs st) = length fin + length (pend @ bs)" "etlv_len (push bs st) = length (pend @ bs)"
    "eflag (push bs st)" "edata_len (push bs st) = edata_len st"
    using i True by (auto simp: enc_inv_def hdr_def push_def update_encode_variables_def)
  ultimately have "enc_tlv level t (push bs st) = Ok ((push bs st)\<lparr>ebuf := put m b (fin @ ?h @ pend @ bs),
      ebytes := ebytes (push bs st) + 3, etlv := edst (push bs st), etlv_len := 0,
      edst := edst (push bs st) + 3, eflag := False\<rparr>)"
    using l True unfolding enc_tlv_def f wr_put by simp
  then show ?thesis using f l True by (simp add: enc_inv_def emit_def hdr_def)
next
  case False
  then show ?thesis using push_inv(2) [OF assms False]
    by (simp add: enc_tlv_def emit_def push_def update_encode_variables_def)
qed

text \<open>The three kinds of payload, when there is room for them.\<close>

lemma enc_data_len_push:
  assumes "wire_len e src (soff + elem_offset e) (edata_len st) = Some (v, bs)"
    "length bs + ebytes st + 3 \<le> out" "edst st + length bs \<le> length (ebuf st)"
  shows "enc_data_len e src soff out st = Ok ((push bs st)\<lparr>edata_len := v\<rparr>)"
  using assms by (auto simp: wire_len_def enc_data_len_def Let_def wr_put push_def update_encode_variables_def
      split: if_splits option.splits)

lemma enc_basic_push:
  assumes "rd src (soff + elem_offset e) (edata_len st * elem_size e) = Some bs"
    "length bs + ebytes st + 3 \<le> out" "out < 2 ^ 32" "edst st + length bs \<le> length (ebuf st)"
  shows "enc_basic e src soff out st = Ok (push bs st)"
proof -
  have l: "length bs = edata_len st * elem_size e" by (rule rd_length [OF assms(1)])
  then have "w32 (w32 (edata_len st * elem_size e) + ebytes st) + 3 \<le> out" using assms(2,3) by simp
  then show ?thesis using encode_basic_put [OF assms(1,4)] l by (simp add: enc_basic_def push_def)
qed

lemma enc_string_push:
  assumes "wire_string level e src (soff + elem_offset e) = Some bs"
    "length bs + ebytes st + 3 \<le> out" "out < 2 ^ 32" "edst st + length bs \<le> length (ebuf st)"
  shows "enc_string level e src soff out st = Ok (push bs st)"
proof -
  let ?off = "soff + elem_offset e"
  obtain n cs where n: "strlen (drop ?off src) = Some n" "n \<le> elem_len e"
      "rd src ?off n = Some cs" "elem_size e = 1"
    and bs: "bs = (if level = 1 then [] else take (if elem_len e \<le> 256 then 1 else 2) (le32 (of_nat n))) @ cs"
    using assms(1) by (auto simp: wire_string_def split: option.splits if_splits)
  have l: "length cs = n" by (rule rd_length [OF n(3)])
  show ?thesis
  proof (cases "level = 1")
    case True
    then show ?thesis using n bs l assms(2-4) encode_basic_put [of src ?off n 1 cs "edst st" "ebuf st"]
      by (simp add: enc_string_def qmi_encode_string_elem_def push_def)
  next
    case False
    let ?h = "take (if elem_len e \<le> 256 then 1 else 2) (le32 (of_nat n))"
    have "qmi_encode_basic_elem (put (ebuf st) (edst st) ?h) (edst st + length ?h) src ?off n 1 =
        Some (put (ebuf st) (edst st) (?h @ cs))"
      using encode_basic_put [of src ?off n 1 cs "edst st + length ?h" "put (ebuf st) (edst st) ?h"]
        put_append [of "edst st" ?h cs "ebuf st"] n bs l assms(4) False by simp
    then show ?thesis using n bs l assms(2-4) False
      by (auto simp: enc_string_def qmi_encode_string_elem_def push_def wr_put Let_def split: if_splits)
  qed
qed

lemma enc_step:
  assumes "data_type e \<noteq> QMI_EOTI" "enc_count e (edata_len st) = Some n"
    and el: "wire_elem level e es src (soff + elem_offset e) n own = Some (es', dl', closed, bs)"
    and inv: "enc_inv level m b fin pend st" and lm: "data_type e \<noteq> QMI_OPT_FLAG \<Longrightarrow> edst st + length bs \<le> length m" and out: "out < 2 ^ 32"
    and fit: "data_type e \<noteq> QMI_OPT_FLAG \<Longrightarrow> length bs + ebytes st + 3 \<le> out"
    and own: "data_type e = QMI_STRUCT \<Longrightarrow> enc_structs n (ei_array e) (elem_size e) (level + 1) (ebuf st) (edst st) 0 src
      (soff + elem_offset e) (sub32 out (ebytes st)) = Ok (length bs, put (ebuf st) (edst st) bs)"
  shows "\<exists>st'. enc_loop level (e # es) src soff out st = enc_loop level es' src soff out st' \<and> edata_len st' = dl' \<and>
    enc_inv level m b (fin @ fst (emit level closed (tlv_type e) (pend @ bs)))
      (snd (emit level closed (tlv_type e) (pend @ bs))) st'"
proof -
  define s where "s = st\<lparr>edata_len := n\<rparr>"
  have s: "enc_inv level m b fin pend s" "edst s = edst st" "ebuf s = ebuf st" "ebytes s = ebytes st" "edata_len s = n"
    using enc_inv_data_len [OF inv] by (simp_all add: s_def)
  have lb: "data_type e \<noteq> QMI_OPT_FLAG \<Longrightarrow> edst s + length bs \<le> length (ebuf s)" using s(1) lm s(2) by (simp add: enc_inv_def)
  consider (flag) "data_type e = QMI_OPT_FLAG" | (len) "data_type e = QMI_DATA_LEN"
    | (data) "data_type e \<noteq> QMI_OPT_FLAG" "data_type e \<noteq> QMI_DATA_LEN" by blast
  then show ?thesis
  proof cases
    case flag
    then have e: "\<not> closed" "bs = []" "dl' = n" using el by (auto simp: wire_elem_def split: option.splits if_splits)
    have "enc_loop level (e # es) src soff out st = enc_loop level es' src soff out s"
      using el flag assms(1,2) enc_tlv_open [OF s(1)]
      by (auto simp: wire_elem_def s_def [symmetric] split: option.splits if_splits)
    then show ?thesis using e s by (intro exI [of _ s]) (simp add: emit_def)
  next
    case len
    then obtain v where v: "wire_len e src (soff + elem_offset e) n = Some (v, bs)" "dl' = v" "closed = (v = 0)"
      "v = 0 \<Longrightarrow> skip_to_next_elem level es = Some es'" "v \<noteq> 0 \<Longrightarrow> es' = es"
      using el by (auto simp: wire_elem_def split: option.splits if_splits)
    have d: "enc_data_len e src soff out s = Ok ((push bs s)\<lparr>edata_len := v\<rparr>)"
      by (rule enc_data_len_push) (use v(1) s fit len lb in auto)
    show ?thesis
    proof (cases "v = 0")
      case True
      obtain st' where st': "enc_tlv level (tlv_type e) (push bs (s\<lparr>edata_len := v\<rparr>)) = Ok st'" "edata_len st' = v"
        "enc_inv level m b (fin @ fst (emit level True (tlv_type e) (pend @ bs)))
          (snd (emit level True (tlv_type e) (pend @ bs))) st'"
        using push_close [OF enc_inv_data_len [OF s(1), of v], of bs "tlv_type e"] lm s(2) len by auto
      have "push bs (s\<lparr>edata_len := v\<rparr>) = (push bs s)\<lparr>edata_len := v\<rparr>"
        by (simp add: push_def update_encode_variables_def)
      then show ?thesis using d st' v True len assms(1,2)
        by (intro exI [of _ st']) (simp add: s_def [symmetric])
    next
      case False
      let ?s = "((push bs s)\<lparr>edata_len := v\<rparr>)\<lparr>eflag := False\<rparr>"
      have "enc_inv level m b fin (pend @ bs) (((push bs s)\<lparr>eflag := False\<rparr>)\<lparr>edata_len := v\<rparr>)"
        by (intro enc_inv_data_len push_inv(1)) (use s lm len in auto)
      then have i: "enc_inv level m b fin (pend @ bs) ?s" by (simp add: enc_inv_def)
      from d v False len assms(1,2) enc_tlv_open [OF i] i show ?thesis
        by (intro exI [of _ ?s]) (simp add: s_def [symmetric] emit_def)
    qed
  next
    case data
    then have e: "closed" "es' = es" "dl' = n" using el by (auto simp: wire_elem_def)
    obtain st' where st': "enc_tlv level (tlv_type e) (push bs s) = Ok st'" "edata_len st' = edata_len s"
        "enc_inv level m b (fin @ fst (emit level True (tlv_type e) (pend @ bs)))
          (snd (emit level True (tlv_type e) (pend @ bs))) st'"
      using push_close [OF s(1)] lm [OF data(1)] s(2) by metis
    consider (b) "basic_type (data_type e)" | (s) "data_type e = QMI_STRUCT" | (t) "\<not> basic_type (data_type e)" "data_type e \<noteq> QMI_STRUCT"
      by blast
    then have "enc_loop level (e # es) src soff out st = enc_loop level es src soff out st'"
    proof cases
      case b
      have "enc_basic e src soff out s = Ok (push bs s)"
        by (rule enc_basic_push) (use b el data s fit out lb in \<open>auto simp: wire_elem_def\<close>)
      then show ?thesis using b data st' assms(1,2) by (simp add: s_def [symmetric])
    next
      case s
      then show ?thesis using own [OF s] data st' assms(1,2)
        by (simp add: s_def [symmetric]) (simp add: s_def push_def)
    next
      case t
      have "enc_string level e src soff out s = Ok (push bs s)"
        by (rule enc_string_push) (use t el data s fit out lb in \<open>auto simp: wire_elem_def split: if_splits\<close>)
      then show ?thesis using t data st' assms(1,2) by (simp add: s_def [symmetric])
    qed
    then show ?thesis using e s st' by auto
  qed
qed

lemma wire_elem_flag:
  "wire_elem level e es src off n own = Some (es', dl', closed, bs) \<Longrightarrow> data_type e = QMI_OPT_FLAG \<Longrightarrow> bs = [] \<and> \<not> closed"
  by (auto simp: wire_elem_def split: option.splits if_splits)

lemma wire_room:
  assumes el: "wire_elem level e es src off n own = Some (es', dl', closed, bs)"
    and w': "wire level es' src soff dl' (snd (emit level closed t (pend @ bs))) = Some w'"
    and w: "w = fst (emit level closed t (pend @ bs)) @ w'"
  shows "(if level = 1 \<and> (data_type e = QMI_OPT_FLAG \<longrightarrow> pend \<noteq> []) then 3 else 0) + length pend + length bs \<le> length w"
proof -
  have "bs \<noteq> []" if "\<not> closed" "data_type e \<noteq> QMI_OPT_FLAG"
    using el that by (auto simp: wire_elem_def wire_len_def Let_def le32_def split: if_splits option.splits)
  then show ?thesis using wire_pending(1) [OF w'] w by (auto simp: emit_def split: if_splits)
qed

lemma enc_fits:
  "wire level es src soff dl pend = Some w \<Longrightarrow> edata_len st = dl \<Longrightarrow> enc_inv level m b fin pend st \<Longrightarrow>
     length fin + length w + (3 - hdr level) \<le> out \<Longrightarrow> out < 2 ^ 32 \<Longrightarrow> b + length fin + length w \<le> length m \<Longrightarrow> 1 \<le> level \<Longrightarrow>
     \<exists>st'. enc_loop level es src soff out st = Ok st' \<and> ebuf st' = put m b (fin @ w) \<and> ebytes st' = length fin + length w"
  "wire_structs n sub esz level src soff = Some w \<Longrightarrow> acc + length w + 3 \<le> out \<Longrightarrow> out < 2 ^ 32 \<Longrightarrow>
     dst + length w \<le> length buf \<Longrightarrow> 1 < level \<Longrightarrow>
     enc_structs n sub esz level buf dst acc src soff out = Ok (acc + length w, put buf dst w)"
proof (induction level es src soff dl pend and n sub esz level src soff
    arbitrary: w st m b fin out and w acc out dst buf rule: wire_wire_structs.induct)
  case (2 level e es src soff dl pend)
  show ?case
  proof (cases "data_type e = QMI_EOTI")
    case True
    then have "w = pend" "level = 1 \<longrightarrow> pend = []" using 2(3) by (auto split: if_splits)
    then show ?thesis using True 2(5) by (cases "level = 1") (auto simp: enc_inv_def hdr_def put_append)
  next
    case False
    from wire_Cons [OF 2(3) False] obtain n es' dl' closed bs w' where
      n: "enc_count e dl = Some n" and
      el: "wire_elem level e es src (soff + elem_offset e) n (own_bytes level e src soff n) = Some (es', dl', closed, bs)" and
      w': "wire level es' src soff dl' (snd (emit level closed (tlv_type e) (pend @ bs))) = Some w'" and
      w: "w = fst (emit level closed (tlv_type e) (pend @ bs)) @ w'"
      by blast
    note lw = wire_room [OF el w' w]
    have st: "edst st = b + length fin + hdr level + length pend" "ebytes st = length fin + length pend"
      "length (ebuf st) = length m"
      using 2(5,8) lw by (auto simp: enc_inv_def hdr_def split: if_splits)
    have f: "data_type e \<noteq> QMI_OPT_FLAG \<Longrightarrow> length bs + ebytes st + 3 \<le> out" "data_type e \<noteq> QMI_OPT_FLAG \<Longrightarrow> edst st + length bs \<le> length m"
      using lw st 2(6,8) wire_elem_flag [OF el] by (auto simp: hdr_def split: if_splits)
    have own: "enc_structs n (ei_array e) (elem_size e) (level + 1) (ebuf st) (edst st) 0 src
        (soff + elem_offset e) (sub32 out (ebytes st)) = Ok (length bs, put (ebuf st) (edst st) bs)"
      if t: "data_type e = QMI_STRUCT"
    proof -
      have "wire_structs n (ei_array e) (elem_size e) (level + 1) src (soff + elem_offset e) = Some bs"
        using el t by (auto simp: wire_elem_def)
      from 2(1) [OF False n t this, of 0 "sub32 out (ebytes st)" "edst st" "ebuf st"] show ?thesis
        using f st 2(7,9) t by simp
    qed
    from enc_step [OF False n [folded 2(4)] el 2(5) f(2) 2(7) f(1) own] obtain st' where
      st': "enc_loop level (e # es) src soff out st = enc_loop level es' src soff out st'" "edata_len st' = dl'"
        "enc_inv level m b (fin @ fst (emit level closed (tlv_type e) (pend @ bs)))
          (snd (emit level closed (tlv_type e) (pend @ bs))) st'" by blast
    show ?thesis
      using 2(2) [OF False n el refl refl refl w' st'(2,3), of out] 2(6-9) w st'(1) by (simp add: add.assoc)
  qed
next
  case (4 n sub esz level src soff)
  then obtain bs w' where w: "(case sub of None \<Rightarrow> Some [] | Some ei \<Rightarrow> wire level ei src soff 0 []) = Some bs"
    "wire_structs n sub esz level src (soff + esz) = Some w'" "w = bs @ w'"
    by (auto split: option.splits)
  have "\<exists>st. (case sub of None \<Rightarrow> Ok (enc_init level buf dst)
      | Some ei \<Rightarrow> enc_loop level ei src soff (sub32 out acc) (enc_init level buf dst)) = Ok st \<and>
      ebuf st = put buf dst bs \<and> ebytes st = length bs"
  proof (cases sub)
    case None
    then show ?thesis using w 4(7) by (auto simp: enc_init_def)
  next
    case (Some ei)
    then show ?thesis using w 4(4-7) 4(1) [OF Some, of bs "enc_init level buf dst" buf dst "[]" "sub32 out acc"]
        enc_inv_init [of level buf dst] by (simp add: enc_init_def hdr_def)
  qed
  then show ?case using 4(2) [OF w(1,2), of "acc + length bs" out "dst + length bs" "put buf dst bs"] 4(4-7) w(3)
    by (auto simp: put_append)
qed auto

section \<open>A message that does not fit\<close>

text \<open>
  The length is checked before every element except a string in a nested structure and a structure
  without members. Tables without these are guarded.
\<close>

definition starts_checked :: "qmi_elem_info list \<Rightarrow> bool" where
  "starts_checked es \<longleftrightarrow> es \<noteq> [] \<and> (basic_type (data_type (hd es)) \<or> data_type (hd es) = QMI_DATA_LEN)"

function guarded :: "nat \<Rightarrow> qmi_elem_info list \<Rightarrow> bool" where
  "guarded level [] = True"
| "guarded level (e # es) = (guarded level es \<and>
    (data_type e = QMI_STRING \<longrightarrow> level = 1) \<and>
    (data_type e = QMI_STRUCT \<longrightarrow> (array_type e = STATIC_ARRAY \<longrightarrow> 0 < elem_len e) \<and>
      (case ei_array e of None \<Rightarrow> False | Some sub \<Rightarrow> starts_checked sub \<and> guarded (level + 1) sub)))"
  by pat_completeness auto
termination
  by (relation "measure (\<lambda>(level, es). size_list size es)") (auto dest: sub_size)

lemma skip_same_guarded: "skip_same t es = Some es' \<Longrightarrow> guarded level es \<Longrightarrow> guarded level es'"
  by (induction es) (auto split: if_splits)

lemma skip_guarded: "skip_to_next_elem level es = Some es' \<Longrightarrow> guarded l es \<Longrightarrow> guarded l es'"
  by (cases es) (auto split: if_splits dest: skip_same_guarded)

lemma wire_elem_guarded:
  "wire_elem level e es src off n own = Some (es', dl', closed, bs) \<Longrightarrow> guarded l (e # es) \<Longrightarrow> guarded l es'"
  using skip_guarded [of level "e # es" es' l] skip_guarded [of level es es' l]
  by (auto simp: wire_elem_def simp del: skip_to_next_elem.simps split: option.splits if_splits)

lemma enc_full:
  assumes "data_type e \<noteq> QMI_EOTI" "enc_count e (edata_len st) = Some n"
    and el: "wire_elem level e es src (soff + elem_offset e) n own = Some (es', dl', closed, bs)"
    and full: "data_type e \<noteq> QMI_OPT_FLAG" "out < length bs + ebytes st + 3" "ebytes st \<le> out"
    and out: "out + length src + 3 < 2 ^ 32" and str: "data_type e = QMI_STRING \<Longrightarrow> level = 1"
    and own: "data_type e = QMI_STRUCT \<Longrightarrow> enc_structs n (ei_array e) (elem_size e) (level + 1) (ebuf st) (edst st) 0 src
      (soff + elem_offset e) (sub32 out (ebytes st)) = Err (- EINVAL)"
  shows "enc_loop level (e # es) src soff out st = Err (- EINVAL)"
proof -
  consider (len) "data_type e = QMI_DATA_LEN" | (b) "basic_type (data_type e)" | (s) "data_type e = QMI_STRUCT"
    | (t) "data_type e = QMI_STRING" using assms(1) full(1) by (cases "data_type e") auto
  then show ?thesis
  proof cases
    case len
    then obtain v where "wire_len e src (soff + elem_offset e) n = Some (v, bs)"
      using el by (auto simp: wire_elem_def split: option.splits if_splits)
    then have "enc_data_len e src soff out (st\<lparr>edata_len := n\<rparr>) = Err (- EINVAL)"
      using full by (auto simp: wire_len_def enc_data_len_def Let_def split: if_splits option.splits)
    then show ?thesis using len assms(1,2) by simp
  next
    case b
    then have d: "data_type e \<noteq> QMI_DATA_LEN" by auto
    have r: "rd src (soff + elem_offset e) (n * elem_size e) = Some bs"
      using el b d full(1) by (auto simp: wire_elem_def)
    then have "n * elem_size e = length bs" "length bs \<le> length src" using rd_length [OF r]
      by (auto simp: rd_def split: if_splits)
    then have "enc_basic e src soff out (st\<lparr>edata_len := n\<rparr>) = Err (- EINVAL)"
      using full out by (simp add: enc_basic_def)
    then show ?thesis using b d assms(1,2) full(1) by simp
  next
    case s
    then show ?thesis using own assms(1,2) by simp
  next
    case t
    then have "wire_string level e src (soff + elem_offset e) = Some bs" using el by (auto simp: wire_elem_def)
    then have "enc_string level e src soff out (st\<lparr>edata_len := n\<rparr>) = Err (- EINVAL)"
      using full out str [OF t] rd_length
      by (fastforce simp: wire_string_def enc_string_def qmi_encode_string_elem_def Let_def split: option.splits if_splits)
    then show ?thesis using t assms(1,2) by simp
  qed
qed

lemma enc_overflow:
  "wire level es src soff dl pend = Some w \<Longrightarrow> edata_len st = dl \<Longrightarrow> enc_inv level m b fin pend st \<Longrightarrow>
     guarded level es \<Longrightarrow> out < length fin + length w + (3 - hdr level) \<Longrightarrow> out + length src + 3 < 2 ^ 32 \<Longrightarrow>
     length fin + length pend + (if level = 1 \<and> pend = [] then 0 else 3) \<le> out \<or> fin = [] \<and> pend = [] \<and> starts_checked es \<Longrightarrow>
     b + out \<le> length m + (3 - hdr level) \<Longrightarrow> 1 \<le> level \<Longrightarrow>
     enc_loop level es src soff out st = Err (- EINVAL)"
  "wire_structs n sub esz level src soff = Some w \<Longrightarrow> sub = Some ei \<Longrightarrow> starts_checked ei \<Longrightarrow> guarded level ei \<Longrightarrow>
     out < acc + length w + 3 \<Longrightarrow> acc \<le> out \<Longrightarrow> 0 < n \<or> acc + 3 \<le> out \<Longrightarrow> out + length src + 3 < 2 ^ 32 \<Longrightarrow>
     dst + (out - acc) \<le> length buf + 3 \<Longrightarrow> 1 < level \<Longrightarrow>
     enc_structs n sub esz level buf dst acc src soff out = Err (- EINVAL)"
proof (induction level es src soff dl pend and n sub esz level src soff
    arbitrary: w st m b fin out and w acc out dst buf ei rule: wire_wire_structs.induct)
  case (2 level e es src soff dl pend)
  show ?case
  proof (cases "data_type e = QMI_EOTI")
    case True
    then have "w = pend" "level = 1 \<longrightarrow> pend = []" using 2(3) by (auto split: if_splits)
    then show ?thesis using True 2(7-11) by (auto simp: hdr_def starts_checked_def split: if_splits)
  next
    case False
    from wire_Cons [OF 2(3) False] obtain n es' dl' closed bs w' where
      n: "enc_count e dl = Some n" and
      el: "wire_elem level e es src (soff + elem_offset e) n (own_bytes level e src soff n) = Some (es', dl', closed, bs)" and
      w': "wire level es' src soff dl' (snd (emit level closed (tlv_type e) (pend @ bs))) = Some w'" and
      w: "w = fst (emit level closed (tlv_type e) (pend @ bs)) @ w'"
      by blast
    have st: "edst st = b + length fin + hdr level + length pend" "ebytes st = length fin + length pend"
      using 2(5) by (auto simp: enc_inv_def)
    then have eo: "ebytes st \<le> out" using 2(9) by (auto split: if_splits)
    have own: "enc_structs n (ei_array e) (elem_size e) (level + 1) (ebuf st) (edst st) 0 src
        (soff + elem_offset e) (sub32 out (ebytes st)) =
        (if length bs + ebytes st + 3 \<le> out then Ok (length bs, put (ebuf st) (edst st) bs) else Err (- EINVAL))"
      if t: "data_type e = QMI_STRUCT"
    proof -
      have "wire_structs n (ei_array e) (elem_size e) (level + 1) src (soff + elem_offset e) = Some bs"
        using el t by (auto simp: wire_elem_def)
      note ws = this
      from 2(6) t obtain ei where ei: "ei_array e = Some ei" "starts_checked ei" "guarded (level + 1) ei"
        by (auto split: option.splits)
      have n0: "0 < n" using n t 2(6) by (auto simp: enc_count_def split: qmi_array_type.splits if_splits)
      have lb: "length (ebuf st) = length m" using 2(5,9,10) by (auto simp: enc_inv_def hdr_def split: if_splits)
      have so: "sub32 out (ebytes st) = out - ebytes st" using eo 2(8) by simp
      show ?thesis
      proof (cases "length bs + ebytes st + 3 \<le> out")
        case True
        then show ?thesis
          using enc_fits(2) [OF ws, of 0 "out - ebytes st" "edst st" "ebuf st"] 2(8,10,11) st so lb
          by (simp add: hdr_def split: if_splits)
      next
        case False
        then show ?thesis
          using 2(1) [OF \<open>data_type e \<noteq> QMI_EOTI\<close> n t ws ei, of "out - ebytes st" 0 "edst st" "ebuf st"]
            2(7,8,10,11) st so lb n0 eo by (simp add: hdr_def split: if_splits)
      qed
    qed
    show ?thesis
    proof (cases "data_type e = QMI_OPT_FLAG \<or> length bs + ebytes st + 3 \<le> out")
      case False
      then show ?thesis
        using enc_full [OF \<open>data_type e \<noteq> QMI_EOTI\<close> n [folded 2(4)] el, of out] own eo 2(6,8) by auto
    next
      case True
      have lm: "data_type e \<noteq> QMI_OPT_FLAG \<Longrightarrow> edst st + length bs \<le> length m"
        using True st 2(10) by (auto simp: hdr_def split: if_splits)
      from enc_step [OF False n [folded 2(4)] el 2(5) lm, of out] True own 2(8) obtain st' where
        st': "enc_loop level (e # es) src soff out st = enc_loop level es' src soff out st'" "edata_len st' = dl'"
          "enc_inv level m b (fin @ fst (emit level closed (tlv_type e) (pend @ bs)))
            (snd (emit level closed (tlv_type e) (pend @ bs))) st'" by auto
      show ?thesis
        using 2(2) [OF False n el refl refl refl w' st'(2,3) wire_elem_guarded [OF el 2(6)], of out]
          wire_elem_flag [OF el] True st(2) 2(7-11) w st'(1) by (auto simp: emit_def starts_checked_def split: if_splits)
    qed
  qed
next
  case (4 n sub esz level src soff)
  then obtain bs w' where w: "wire level ei src soff 0 [] = Some bs"
    "wire_structs n sub esz level src (soff + esz) = Some w'" "w = bs @ w'"
    by (auto split: option.splits)
  have so: "sub32 out acc = out - acc" using 4(8,10) by simp
  have ini: "enc_inv level buf dst [] [] (enc_init level buf dst)" "edata_len (enc_init level buf dst) = 0"
    by (rule enc_inv_init) (simp add: enc_init_def)
  show ?case
  proof (cases "acc + length bs + 3 \<le> out")
    case True
    then have b: "length bs + 3 \<le> out - acc" "out - acc < 2 ^ 32" "dst + length bs \<le> length buf"
      using 4(10,11) by auto
    have "enc_structs n sub esz level (put buf dst bs) (dst + length bs) (acc + length bs) src (soff + esz) out = Err (- EINVAL)"
      by (rule 4(2) [OF _ w(2) 4(4-6)]) (use w 4(4,7-12) b True in auto)
    moreover from b enc_fits(1) [OF w(1) ini(2,1), of "out - acc"] 4(12)
    obtain st where "enc_loop level ei src soff (out - acc) (enc_init level buf dst) = Ok st"
        "ebuf st = put buf dst bs" "ebytes st = length bs" by (auto simp: hdr_def)
    ultimately show ?thesis using 4(4) so by simp
  next
    case False
    then show ?thesis using 4(1) [OF 4(4) w(1) ini(2,1), of "out - acc"] 4(4-12) so
      by (simp add: hdr_def)
  qed
qed auto

lemma encode_fits:
  assumes "wire 1 es src soff 0 [] = Some bs" "length bs \<le> out" "out < 2 ^ 32" "dst + length bs \<le> length buf"
  shows "qmi_encode (Some es) buf dst src soff out = Ok (length bs, put buf dst bs)"
  using enc_fits(1) [OF assms(1) _ enc_inv_init, of buf dst out] assms(2-4)
  by (auto simp: qmi_encode_def hdr_def enc_init_def)


definition result_only_ei :: "qmi_elem_info list" where
  "result_only_ei = [EI QMI_STRUCT 1 4 NO_ARRAY 2 0 (Some qmi_response_type_v01_ei), EI QMI_EOTI 0 0 NO_ARRAY 0 0 None]"


section \<open>Messages\<close>

text \<open>A packet that is built by \<open>qmi_encode_message\<close>: the header and the encoding of the structure.\<close>

lemma encode_message_fits:
  assumes "wire 1 es src 0 0 [] = Some bs" "7 + length bs \<le> data_len" "data_len \<le> length data" "data_len < 2 ^ 32"
  shows "qmi_encode_message data data_len type msg_id txn_id (Some src) (Some es) =
    Ok (7 + length bs, put data 0 (header_bytes \<lparr>hdr_type = type, hdr_txn_id = txn_id, hdr_msg_id = msg_id,
      hdr_msg_len = of_nat (length bs)\<rparr> @ bs))"
proof -
  let ?h = "header_bytes \<lparr>hdr_type = type, hdr_txn_id = txn_id, hdr_msg_id = msg_id, hdr_msg_len = of_nat (length bs)\<rparr>"
  have h: "length ?h = 7" by (simp add: header_bytes_def)
  have "qmi_encode (Some es) data 7 src 0 (data_len - 7) = Ok (length bs, put data 7 bs)"
    by (rule encode_fits [OF assms(1)]) (use assms(2-4) in auto)
  then show ?thesis using assms(2-4) h put_header [of 0 ?h bs data]
    by (simp add: qmi_encode_message_def wr_put)
qed

end
