(* ===== verification/Qmi_Roundtrip.thy ===== *)
theory Qmi_Roundtrip
  imports Qmi_Wire
begin

text \<open>
  The decoder of \<open>qcom/qrtr/lib/qmi.c\<close> undoes the encoder. A well-formed table is a sequence of fields, each
  an optional flag, an optional length and a data element; \<open>patches\<close> are the pieces of the structure
  that a message carries. Decoding a message puts exactly these pieces into the structure.
\<close>

section \<open>Fields\<close>

datatype qfield = Field (fflag: "qmi_elem_info option") (flen: "qmi_elem_info option") (felem: qmi_elem_info)

definition opt_list :: "'a option \<Rightarrow> 'a list" where
  "opt_list x = (case x of None \<Rightarrow> [] | Some a \<Rightarrow> [a])"

lemma opt_list_simps [simp]: "opt_list None = []" "opt_list (Some a) = [a]"
  by (simp_all add: opt_list_def)

definition flat :: "qfield \<Rightarrow> qmi_elem_info list" where
  "flat f = opt_list (fflag f) @ opt_list (flen f) @ [felem f]"

definition wf_flag :: "nat \<Rightarrow> qfield \<Rightarrow> bool" where
  "wf_flag level f \<longleftrightarrow> (\<forall>x. fflag f = Some x \<longrightarrow> level = 1 \<and> data_type x = QMI_OPT_FLAG \<and> array_type x = NO_ARRAY \<and>
     tlv_type x = tlv_type (felem f))"

definition wf_len :: "qfield \<Rightarrow> bool" where
  "wf_len f \<longleftrightarrow> (array_type (felem f) = VAR_LEN_ARRAY \<longleftrightarrow> flen f \<noteq> None) \<and>
     (\<forall>x. flen f = Some x \<longrightarrow> data_type x = QMI_DATA_LEN \<and> array_type x = NO_ARRAY \<and> elem_size x = 1 \<and>
     tlv_type x = tlv_type (felem f))"

definition wf_data :: "qfield \<Rightarrow> bool" where
  "wf_data f \<longleftrightarrow> (let e = felem f in
     (array_type e \<noteq> NO_ARRAY \<longrightarrow> elem_len e < 256) \<and> (array_type e = STATIC_ARRAY \<longrightarrow> 0 < elem_len e) \<and>
     (basic_type (data_type e) \<and> 0 < elem_size e \<or> data_type e = QMI_STRUCT \<or>
      data_type e = QMI_STRING \<and> array_type e = NO_ARRAY))"

inductive wf_table :: "nat \<Rightarrow> qfield list \<Rightarrow> qmi_elem_info list \<Rightarrow> bool" where
  wf_table: "\<lbrakk>\<And>f. f \<in> set fs \<Longrightarrow> wf_flag level f \<and> wf_len f \<and> wf_data f;
     \<And>f. f \<in> set fs \<Longrightarrow> data_type (felem f) = QMI_STRUCT \<Longrightarrow>
       \<exists>sub sfs. ei_array (felem f) = Some sub \<and> sfs \<noteq> [] \<and> wf_table (level + 1) sfs sub;
     level = 1 \<Longrightarrow> distinct (tlv_type eoti # map (tlv_type \<circ> felem) fs);
     data_type eoti = QMI_EOTI\<rbrakk> \<Longrightarrow> wf_table level fs (concat (map flat fs) @ [eoti])"

lemma wf_tableI:
  assumes "es = concat (map flat fs) @ [eoti]" "data_type eoti = QMI_EOTI"
    "list_all (\<lambda>f. wf_flag level f \<and> wf_len f \<and> wf_data f) fs"
    "list_all (\<lambda>f. data_type (felem f) = QMI_STRUCT \<longrightarrow>
       (\<exists>sub sfs. ei_array (felem f) = Some sub \<and> sfs \<noteq> [] \<and> wf_table (level + 1) sfs sub)) fs"
    "level = 1 \<longrightarrow> distinct (tlv_type eoti # map (tlv_type \<circ> felem) fs)"
  shows "wf_table level fs es"
  using assms unfolding assms(1) by (intro wf_table) (auto simp: list_all_iff)

section \<open>Pieces\<close>

text \<open>An offset and the bytes that the decoder writes there, for every part of a message.\<close>

type_synonym patch = "nat \<times> bytes"

definition elem_patches :: "qmi_elem_info \<Rightarrow> bytes \<Rightarrow> nat \<Rightarrow> nat \<Rightarrow> patch list \<Rightarrow> patch list" where
  "elem_patches e src off n own =
    (if data_type e = QMI_OPT_FLAG then (if rd src off 1 = Some [0] then [] else [(off, [1])])
     else if data_type e = QMI_DATA_LEN then
       (case wire_len e src off n of None \<Rightarrow> [] | Some (v, bs) \<Rightarrow> [(off, le32 (of_nat v))])
     else if basic_type (data_type e) then (case rd src off (n * elem_size e) of None \<Rightarrow> [] | Some bs \<Rightarrow> [(off, bs)])
     else if data_type e = QMI_STRUCT then own
     else [(off, cstr (drop off src) @ [0])])"

function patches :: "nat \<Rightarrow> qmi_elem_info list \<Rightarrow> bytes \<Rightarrow> nat \<Rightarrow> nat \<Rightarrow> patch list"
  and patches_structs :: "nat \<Rightarrow> qmi_elem_info list option \<Rightarrow> nat \<Rightarrow> nat \<Rightarrow> bytes \<Rightarrow> nat \<Rightarrow> patch list" where
  "patches level [] src soff dl = []"
| "patches level (e # es) src soff dl =
    (if data_type e = QMI_EOTI then []
     else (case enc_count e dl of
         None \<Rightarrow> []
       | Some n \<Rightarrow>
          (case wire_elem level e es src (soff + elem_offset e) n (own_bytes level e src soff n) of
             None \<Rightarrow> []
           | Some (es', dl, closed, bs) \<Rightarrow>
               elem_patches e src (soff + elem_offset e) n
                 (if data_type e = QMI_STRUCT
                  then patches_structs n (ei_array e) (elem_size e) (level + 1) src (soff + elem_offset e) else []) @
               patches level es' src soff dl)))"
| "patches_structs 0 sub esz level src soff = []"
| "patches_structs (Suc n) sub esz level src soff =
    (case sub of None \<Rightarrow> [] | Some ei \<Rightarrow> patches level ei src soff 0) @ patches_structs n sub esz level src (soff + esz)"
  by pat_completeness auto

termination
  by (relation "measures
      [\<lambda>x. case x of Inl (level, es, _) \<Rightarrow> 2 * size_list size es
         | Inr (n, sub, _) \<Rightarrow> (case sub of None \<Rightarrow> 0 | Some ei \<Rightarrow> 2 * size_list size ei + 1),
       \<lambda>x. case x of Inl _ \<Rightarrow> 0 | Inr (n, _) \<Rightarrow> n]")
    (auto dest: wire_elem_size sub_size split: option.splits if_splits)

declare wire.simps(2) [simp del] patches.simps(2) [simp del]

definition apply_patches :: "patch list \<Rightarrow> bytes \<Rightarrow> bytes" where
  "apply_patches ps m = fold (\<lambda>(off, bs) m. put m off bs) ps m"

definition patches_fit :: "patch list \<Rightarrow> bytes \<Rightarrow> bool" where
  "patches_fit ps m \<longleftrightarrow> (\<forall>(off, bs) \<in> set ps. off + length bs \<le> length m)"

lemma apply_patches_simps [simp]:
  "apply_patches [] m = m" "apply_patches ((off, bs) # ps) m = apply_patches ps (put m off bs)"
  "apply_patches (ps @ qs) m = apply_patches qs (apply_patches ps m)"
  by (simp_all add: apply_patches_def)

lemma patches_fit_simps [simp]:
  "patches_fit [] m" "patches_fit ((off, bs) # ps) m \<longleftrightarrow> off + length bs \<le> length m \<and> patches_fit ps m"
  "patches_fit (ps @ qs) m \<longleftrightarrow> patches_fit ps m \<and> patches_fit qs m"
  by (auto simp: patches_fit_def)

lemma apply_patches_length [simp]: "patches_fit ps m \<Longrightarrow> length (apply_patches ps m) = length m"
proof (induction ps arbitrary: m)
  case (Cons p ps)
  then show ?case by (cases p) (auto simp: patches_fit_def)
qed simp

lemma patches_fit_cong: "length m = length m' \<Longrightarrow> patches_fit ps m = patches_fit ps m'"
  by (simp add: patches_fit_def)

section \<open>Bytes of a message\<close>

definition has :: "bytes \<Rightarrow> nat \<Rightarrow> bytes \<Rightarrow> bool" where
  "has msg pos bs \<longleftrightarrow> rd msg pos (length bs) = Some bs"

lemma has_append [simp]: "has msg pos (as @ bs) \<longleftrightarrow> has msg pos as \<and> has msg (pos + length as) bs"
proof -
  have "take (length as + length bs) (drop pos msg) =
      take (length as) (drop pos msg) @ take (length bs) (drop (pos + length as) msg)"
    by (simp add: take_add add.commute)
  then show ?thesis unfolding has_def rd_def
    by (auto simp: append_eq_append_conv split: if_splits)
qed

lemma has_Cons: "has msg pos (b # bs) \<longleftrightarrow> has msg pos [b] \<and> has msg (pos + 1) bs"
  using has_append [of msg pos "[b]" bs] by simp

lemma has_rd: "has msg pos bs \<Longrightarrow> n = length bs \<Longrightarrow> rd msg pos n = Some bs"
  by (simp add: has_def)

section \<open>The encoding of a field\<close>

lemma wire_nested:
  "level \<noteq> 1 \<Longrightarrow> wire level es src soff dl pend = map_option ((@) pend) (wire level es src soff dl [])"
proof (induction "size_list size es" arbitrary: es dl pend rule: less_induct)
  case less
  show ?case
  proof (cases es)
    case (Cons e es')
    have "wire level r src soff d (p @ bs) = map_option ((@) p) (wire level r src soff d bs)"
      if "wire_elem level e es' src (soff + elem_offset e) n own = Some (r, d, closed, bs)" for r d n own closed bs p
    proof -
      have sz: "size_list size r < size_list size es" using wire_elem_size [OF that] Cons by simp
      show ?thesis using less(1) [OF sz less(2), of d "p @ bs"] less(1) [OF sz less(2), of d bs]
        by (cases "wire level r src soff d []") auto
    qed
    then show ?thesis using Cons less(2)
      by (auto simp: wire.simps(2) emit_def option.map_comp comp_def option.map_ident split: option.splits)
  qed simp
qed

definition count_bytes :: "qfield \<Rightarrow> nat \<Rightarrow> bytes" where
  "count_bytes f n = (case flen f of None \<Rightarrow> [] | Some x \<Rightarrow> [of_nat n])"

definition count_ok :: "qfield \<Rightarrow> nat \<Rightarrow> bool" where
  "count_ok f n \<longleftrightarrow> (case flen f of
     None \<Rightarrow> n = (if array_type (felem f) = NO_ARRAY then 1 else elem_len (felem f))
   | Some x \<Rightarrow> n < 256 \<and> n \<le> elem_len (felem f))"

definition data_bytes :: "nat \<Rightarrow> qmi_elem_info \<Rightarrow> bytes \<Rightarrow> nat \<Rightarrow> nat \<Rightarrow> bytes option" where
  "data_bytes level e src off n = (if n = 0 then Some []
     else if basic_type (data_type e) then rd src off (n * elem_size e)
     else if data_type e = QMI_STRUCT then wire_structs n (ei_array e) (elem_size e) (level + 1) src off
     else wire_string level e src off)"

definition data_patches :: "nat \<Rightarrow> qmi_elem_info \<Rightarrow> bytes \<Rightarrow> nat \<Rightarrow> nat \<Rightarrow> patch list" where
  "data_patches level e src off n = (if n = 0 then []
     else elem_patches e src off n (if data_type e = QMI_STRUCT
       then patches_structs n (ei_array e) (elem_size e) (level + 1) src off else []))"

definition flag_patches :: "qfield \<Rightarrow> nat \<Rightarrow> patch list" where
  "flag_patches f soff = (case fflag f of None \<Rightarrow> [] | Some x \<Rightarrow> [(soff + elem_offset x, [1])])"

definition len_patches :: "qfield \<Rightarrow> nat \<Rightarrow> nat \<Rightarrow> patch list" where
  "len_patches f soff n = (case flen f of None \<Rightarrow> [] | Some x \<Rightarrow> [(soff + elem_offset x, le32 (of_nat n))])"

lemma data_not_special:
  assumes "wf_data f"
  shows "data_type (felem f) \<noteq> QMI_EOTI" "data_type (felem f) \<noteq> QMI_OPT_FLAG" "data_type (felem f) \<noteq> QMI_DATA_LEN"
  using assms by (auto simp: wf_data_def Let_def)

lemma skip_field:
  assumes "level = 1 \<Longrightarrow> tlv_type r \<noteq> tlv_type e" "1 \<le> level"
  shows "skip_to_next_elem level (e # r # rs) = Some (r # rs)"
  using assms by auto

lemma wire_len_byte:
  assumes "wire_len x src off 1 = Some (v, bs)" "elem_size x = 1"
  shows "v < 256" "bs = [of_nat v]"
proof -
  from assms obtain b where b: "rd src off 1 = Some [b]" "v = unat (rd32 [b, 0, 0, 0])" "bs = take 1 (le32 (rd32 [b, 0, 0, 0]))"
    using rd_length [of src off 1] by (auto simp: wire_len_def Let_def le32_def length_Suc_conv split: option.splits)
  have r: "rd32 [b, 0, 0, 0] = ucast b" by (simp add: rd32_def)
  have "unat b < 2 ^ LENGTH(8)" by (rule unsigned_less)
  then have b8: "unat b < 256" by simp
  then have v: "v = unat b" using b(2) by (simp add: r unsigned_ucast_eq take_bit_nat_eq_self)
  show "v < 256" using b8 v by simp
  show "bs = [of_nat v]" using b(3) v by (simp only: le32_rd32) simp
qed

lemma wire_data:
  assumes "wf_data f" "enc_count (felem f) dl = Some n" "0 < n"
    "wire level (felem f # r # rs) src soff dl p = Some w"
  shows "\<exists>bs w'. data_bytes level (felem f) src (soff + elem_offset (felem f)) n = Some bs \<and>
    wire level (r # rs) src soff n [] = Some w' \<and>
    w = (if level = 1 then tlv_type (felem f) # le16 (of_nat (length (p @ bs))) else []) @ p @ bs @ w' \<and>
    patches level (felem f # r # rs) src soff dl =
      data_patches level (felem f) src (soff + elem_offset (felem f)) n @ patches level (r # rs) src soff n"
proof -
  let ?e = "felem f" and ?off = "soff + elem_offset (felem f)"
  note ns = data_not_special [OF assms(1)]
  have el: "wire_elem level ?e (r # rs) src ?off n (own_bytes level ?e src soff n) =
      map_option (\<lambda>bs. (r # rs, n, True, bs)) (data_bytes level ?e src ?off n)"
    using ns assms(3) by (simp add: wire_elem_def data_bytes_def)
  from wire_Cons [OF assms(4) ns(1)] el assms(2) obtain bs w' where
    bs: "data_bytes level ?e src ?off n = Some bs"
      "wire level (r # rs) src soff n (snd (emit level True (tlv_type ?e) (p @ bs))) = Some w'"
      "w = fst (emit level True (tlv_type ?e) (p @ bs)) @ w'" by auto
  have pa: "patches level (?e # r # rs) src soff dl = data_patches level ?e src ?off n @ patches level (r # rs) src soff n"
    using ns assms(2,3) el bs(1) by (simp add: data_patches_def patches.simps(2))
  show ?thesis
  proof (cases "level = 1")
    case True
    then show ?thesis using bs pa by (auto simp: emit_def)
  next
    case False
    then have "wire level (r # rs) src soff n (p @ bs) = Some w" using bs by (auto simp: emit_def)
    then obtain w'' where "wire level (r # rs) src soff n [] = Some w''" "w = (p @ bs) @ w''"
      using wire_nested [OF False, of "r # rs" src soff n "p @ bs"] by auto
    then show ?thesis using bs(1) pa False by auto
  qed
qed

text \<open>The length and the data, behind the flag.\<close>

lemma wire_len_data:
  assumes wf: "wf_len f" "wf_data f" and lv: "level = 1 \<Longrightarrow> tlv_type r \<noteq> tlv_type (felem f)" "1 \<le> level"
    and w: "wire level (opt_list (flen f) @ felem f # r # rs) src soff dl [] = Some w"
  shows "\<exists>n bs dl' w'. count_ok f n \<and> data_bytes level (felem f) src (soff + elem_offset (felem f)) n = Some bs \<and>
    wire level (r # rs) src soff dl' [] = Some w' \<and>
    w = (if level = 1 then tlv_type (felem f) # le16 (of_nat (length (count_bytes f n @ bs))) else []) @ count_bytes f n @ bs @ w' \<and>
    patches level (opt_list (flen f) @ felem f # r # rs) src soff dl = len_patches f soff n @
      data_patches level (felem f) src (soff + elem_offset (felem f)) n @ patches level (r # rs) src soff dl'"
proof (cases "flen f")
  case None
  then have a: "array_type (felem f) \<noteq> VAR_LEN_ARRAY" using wf(1) by (auto simp: wf_len_def)
  define n where "n = (if array_type (felem f) = NO_ARRAY then 1 else elem_len (felem f))"
  have n: "enc_count (felem f) dl = Some n" "0 < n" "count_ok f n"
    using a wf(2) None by (cases "array_type (felem f)"; force simp: enc_count_def n_def wf_data_def count_ok_def Let_def)+
  from wire_data [OF wf(2) n(1,2)] w None show ?thesis using n(3)
    by (fastforce simp: count_bytes_def len_patches_def)
next
  case (Some x)
  then have x: "data_type x = QMI_DATA_LEN" "enc_count x dl = Some 1" "elem_size x = 1" "tlv_type x = tlv_type (felem f)"
      "array_type (felem f) = VAR_LEN_ARRAY"
    using wf(1) by (auto simp: wf_len_def enc_count_def)
  let ?e = "felem f"
  have xe: "data_type x \<noteq> QMI_EOTI" using x(1) by simp
  from wire_Cons [OF w [unfolded Some opt_list_simps append_Cons append_Nil] xe] x obtain es' dl' closed bs w' where
    el: "wire_elem level x (?e # r # rs) src (soff + elem_offset x) 1 None = Some (es', dl', closed, bs)" and
    w': "wire level es' src soff dl' (snd (emit level closed (tlv_type ?e) bs)) = Some w'"
      "w = fst (emit level closed (tlv_type ?e) bs) @ w'"
    by auto
  from el x(1) obtain v where v: "wire_len x src (soff + elem_offset x) 1 = Some (v, bs)"
    by (auto simp: wire_elem_def split: option.splits if_splits)
  have vb: "v < 256" "bs = [of_nat v]" using wire_len_byte [OF v x(3)] by auto
  have pa: "patches level (x # ?e # r # rs) src soff dl = len_patches f soff v @ patches level es' src soff dl'"
    using x el v Some by (simp add: elem_patches_def len_patches_def patches.simps(2))
  show ?thesis
  proof (cases "v = 0")
    case True
    then have "es' = r # rs" "closed" "dl' = 0" using el x(1) v skip_field [OF lv, of rs]
      by (auto simp: wire_elem_def simp del: skip_to_next_elem.simps split: option.splits)
    with w' vb True obtain u where "wire level (r # rs) src soff 0 [] = Some u"
        "w = (if level = 1 then tlv_type ?e # le16 1 else []) @ [0] @ u"
      using wire_nested [of level "r # rs" src soff 0 "[0]"] by (cases "level = 1") (auto simp: emit_def)
    then show ?thesis using True pa Some \<open>es' = r # rs\<close> \<open>dl' = 0\<close>
      by - (rule exI [of _ 0], rule exI [of _ "[]"], rule exI [of _ 0], rule exI [of _ u],
        simp add: count_ok_def data_bytes_def data_patches_def count_bytes_def)
  next
    case False
    then have e: "es' = ?e # r # rs" "\<not> closed" "dl' = v" using el x(1) v
      by (auto simp: wire_elem_def split: option.splits)
    then have w2: "wire level (?e # r # rs) src soff v bs = Some w" using w' by (auto simp: emit_def)
    have c: "enc_count ?e v = Some v" "v \<le> elem_len ?e"
      using w2 data_not_special(1) [OF wf(2)] x(5) by (auto simp: wire.simps(2) enc_count_def split: if_splits)
    from wire_data [OF wf(2) c(1) _ w2] False obtain ds w'' where
      "data_bytes level ?e src (soff + elem_offset ?e) v = Some ds" "wire level (r # rs) src soff v [] = Some w''"
      "w = (if level = 1 then tlv_type ?e # le16 (of_nat (length (bs @ ds))) else []) @ bs @ ds @ w''"
      "patches level (?e # r # rs) src soff v =
        data_patches level ?e src (soff + elem_offset ?e) v @ patches level (r # rs) src soff v" by auto
    then show ?thesis using c(2) vb pa e Some
      by - (rule exI [of _ v], rule exI [of _ ds], rule exI [of _ v], rule exI [of _ w''],
        simp add: count_ok_def count_bytes_def)
  qed
qed

lemma wire_field:
  assumes wf: "wf_flag level f" "wf_len f" "wf_data f"
    and lv: "level = 1 \<Longrightarrow> tlv_type r \<noteq> tlv_type (felem f)" "1 \<le> level"
    and w: "wire level (flat f @ r # rs) src soff dl [] = Some w"
  shows "(level = 1 \<and> (\<exists>dl'. wire level (r # rs) src soff dl' [] = Some w \<and>
      patches level (flat f @ r # rs) src soff dl = patches level (r # rs) src soff dl')) \<or>
    (\<exists>n bs dl' w'. count_ok f n \<and> data_bytes level (felem f) src (soff + elem_offset (felem f)) n = Some bs \<and>
      wire level (r # rs) src soff dl' [] = Some w' \<and>
      w = (if level = 1 then tlv_type (felem f) # le16 (of_nat (length (count_bytes f n @ bs))) else []) @ count_bytes f n @ bs @ w' \<and>
      patches level (flat f @ r # rs) src soff dl = flag_patches f soff @ len_patches f soff n @
        data_patches level (felem f) src (soff + elem_offset (felem f)) n @ patches level (r # rs) src soff dl')"
proof (cases "fflag f")
  case None
  then show ?thesis using wire_len_data [OF wf(2,3) lv] w by (simp add: flat_def flag_patches_def)
next
  case (Some x)
  let ?es = "opt_list (flen f) @ felem f # r # rs"
  from Some wf(1) have x: "level = 1" "data_type x = QMI_OPT_FLAG" "enc_count x dl = Some 1" "tlv_type x = tlv_type (felem f)"
    by (auto simp: wf_flag_def enc_count_def)
  have w1: "wire level (x # ?es) src soff dl [] = Some w" using w Some by (simp add: flat_def)
  have sk: "skip_to_next_elem level (x # ?es) = Some (r # rs)"
    using x wf(2) lv(1) by (cases "flen f") (auto simp: wf_len_def)
  have xe: "data_type x \<noteq> QMI_EOTI" using x(2) by simp
  from wire_Cons [OF w1 xe] x obtain es' dl' closed bs w' where
    el: "wire_elem level x ?es src (soff + elem_offset x) 1 None = Some (es', dl', closed, bs)" and
    w': "wire level es' src soff dl' (snd (emit level closed (tlv_type x) bs)) = Some w'"
      "w = fst (emit level closed (tlv_type x) bs) @ w'"
    by auto
  note ef = wire_elem_flag [OF el x(2)]
  have w2: "wire level es' src soff dl' [] = Some w" using w' ef by (simp add: emit_def)
  have pa: "patches level (flat f @ r # rs) src soff dl =
      (if rd src (soff + elem_offset x) 1 = Some [0] then [] else flag_patches f soff) @ patches level es' src soff dl'"
    using x el Some by (simp add: patches.simps(2) elem_patches_def flag_patches_def flat_def)
  show ?thesis
  proof (cases "rd src (soff + elem_offset x) 1 = Some [0]")
    case True
    then have "es' = r # rs" using el x(2) sk by (auto simp: wire_elem_def simp del: skip_to_next_elem.simps)
    then show ?thesis using True w2 pa x(1) by auto
  next
    case False
    then have "es' = ?es" using el x(2) by (auto simp: wire_elem_def split: option.splits)
    then show ?thesis using False wire_len_data [OF wf(2,3) lv, of rs src soff dl' w] w2 pa by auto
  qed
qed

section \<open>Decoding a field\<close>

lemma decode_basic_put:
  "rd src off (n * sz) = Some bs \<Longrightarrow> dst + length bs \<le> length buf \<Longrightarrow>
     qmi_decode_basic_elem buf dst src off n sz = Some (put buf dst bs)"
proof -
  have "qmi_decode_basic_elem buf dst src off n sz = qmi_encode_basic_elem buf dst src off n sz" for buf dst off
    by (induction n arbitrary: buf dst off) (auto split: option.splits)
  then show "rd src off (n * sz) = Some bs \<Longrightarrow> dst + length bs \<le> length buf \<Longrightarrow>
     qmi_decode_basic_elem buf dst src off n sz = Some (put buf dst bs)" by (simp add: encode_basic_put)
qed

lemma of_nat_byte: "n < 256 \<Longrightarrow> (of_nat n :: u32) = ucast (of_nat n :: u8)"
proof -
  assume n: "n < 256"
  then have "unat (of_nat n :: u32) = n" "unat (of_nat n :: u8) = n"
    by (simp_all add: unat_of_nat take_bit_nat_eq_self)
  then have "unat (of_nat n :: u32) = unat (ucast (of_nat n :: u8) :: u32)"
    using n by (simp add: unsigned_ucast_eq take_bit_nat_eq_self)
  then show ?thesis by (rule unsigned_word_eqI)
qed

lemma le32_byte: "n < 256 \<Longrightarrow> le32 (of_nat n) = [of_nat n, 0, 0, 0]"
  unfolding of_nat_byte le32_def
  by (simp, intro conjI; rule bit_word_eqI) (auto simp: bit_simps dest: bit_imp_le_length)

lemma rd32_byte: "n < 256 \<Longrightarrow> rd32 [of_nat n, 0, 0, 0] = of_nat n"
  using le32_byte rd32_le32' by metis

text \<open>The flag and the length in front of the data.\<close>

lemma dec_prefix_field:
  assumes wf: "wf_flag level f" "wf_len f" "wf_data f" and n: "count_ok f n"
    and msg: "has msg (dsrc st) (count_bytes f n)" and len: "length (count_bytes f n) \<le> len" "len < 2 ^ 32"
    and dl: "ddata_len st < 256" and fit: "patches_fit (flag_patches f soff @ len_patches f soff n) (dout st)"
  shows "\<exists>st'. dec_prefix (flat f @ rest) msg soff len st = Ok (felem f, rest, len - length (count_bytes f n), st') \<and>
    dout st' = apply_patches (flag_patches f soff @ len_patches f soff n) (dout st) \<and>
    dsrc st' = dsrc st + length (count_bytes f n) \<and> dbytes st' = dbytes st + length (count_bytes f n) \<and>
    ddata_len st' = n \<and> n < 256"
proof -
  let ?es = "opt_list (flen f) @ felem f # rest"
  let ?m = "apply_patches (flag_patches f soff) (dout st)"
  have nl: "n < 256" using n wf(2,3)
    by (cases "flen f") (auto simp: count_ok_def wf_len_def wf_data_def Let_def split: if_splits)
  have "dec_flag (flat f @ rest) soff st = Ok (?es, st\<lparr>dout := ?m\<rparr>)"
  proof (cases "fflag f")
    case None
    then show ?thesis using data_not_special [OF wf(3)] wf(2)
      by (cases "flen f") (auto simp: dec_flag_def flat_def flag_patches_def wf_len_def)
  next
    case (Some x)
    then show ?thesis using wf(1) fit by (simp add: dec_flag_def flat_def flag_patches_def wf_flag_def wr_put)
  qed
  moreover have "\<exists>st'. dec_data_len ?es msg soff len (st\<lparr>dout := ?m\<rparr>) = Ok (felem f # rest, len - length (count_bytes f n), st') \<and>
    dout st' = apply_patches (len_patches f soff n) ?m \<and> dsrc st' = dsrc st + length (count_bytes f n) \<and>
    dbytes st' = dbytes st + length (count_bytes f n) \<and> (flen f \<noteq> None \<longrightarrow> ddata_len st' = n)"
  proof (cases "flen f")
    case None
    then show ?thesis using data_not_special [OF wf(3)] by (simp add: dec_data_len_def count_bytes_def len_patches_def)
  next
    case (Some x)
    have v: "rd32 ([of_nat n] @ drop 1 (le32 (of_nat (ddata_len st)))) = of_nat n"
      using dl nl by (simp add: le32_byte rd32_byte)
    have "unat (of_nat n :: u32) = n" using nl by (simp add: unat_of_nat take_bit_nat_eq_self)
    then show ?thesis using Some wf(2) v msg fit len
      by (simp add: dec_data_len_def wf_len_def count_bytes_def len_patches_def has_def Let_def wr_put)
  qed
  moreover have "dec_count (felem f) (if flen f = None then k else n) = Some n" for k
    using n wf(2) by (cases "flen f"; cases "array_type (felem f)") (auto simp: dec_count_def count_ok_def wf_len_def)
  ultimately show ?thesis using nl by (cases "flen f") (fastforce simp: dec_prefix_def)+
qed

section \<open>Tables\<close>

text \<open>What follows a field starts with another type on the top level.\<close>

lemma table_rest:
  assumes "\<And>f. f \<in> set fs \<Longrightarrow> wf_flag level f \<and> wf_len f"
  obtains r rs where "concat (map flat fs) @ [eoti] = r # rs"
    "tlv_type r = tlv_type (if fs = [] then eoti else felem (hd fs))"
proof (cases fs)
  case (Cons f fs')
  with assms [of f] show thesis
    by (cases "fflag f"; cases "flen f") (auto intro!: that simp: flat_def wf_flag_def wf_len_def)
qed (auto intro: that)

lemma field_nonempty:
  assumes f: "wf_len f" "wf_data f" and n: "count_ok f n" "data_bytes level (felem f) src off n = Some bs" "level \<noteq> 1"
    and sub: "data_type (felem f) = QMI_STRUCT \<Longrightarrow> \<exists>sub. ei_array (felem f) = Some sub \<and>
      (\<forall>src soff dl w. wire (level + 1) sub src soff dl [] = Some w \<longrightarrow> w \<noteq> [])"
  shows "count_bytes f n @ bs \<noteq> []"
proof (cases "flen f")
  case (Some x)
  then show ?thesis by (simp add: count_bytes_def)
next
  case None
  then have n0: "0 < n" using n(1) f
    by (cases "array_type (felem f)") (auto simp: count_ok_def wf_data_def wf_len_def Let_def)
  have "bs \<noteq> []"
  proof (cases "data_type (felem f) = QMI_STRUCT")
    case True
    then show ?thesis using sub n(2) n0 by (cases n) (auto simp: data_bytes_def split: option.splits)
  next
    case False
    then consider "basic_type (data_type (felem f))" "0 < elem_size (felem f)" | "data_type (felem f) = QMI_STRING"
      using f(2) by (auto simp: wf_data_def Let_def)
    then show ?thesis
    proof cases
      case 1
      then have "length bs = n * elem_size (felem f)" using n(2) n0 rd_length by (auto simp: data_bytes_def)
      then show ?thesis using 1 n0 by auto
    next
      case 2
      then show ?thesis using n(2,3) n0
        by (auto simp: data_bytes_def wire_string_def le32_def split: option.splits if_splits)
    qed
  qed
  then show ?thesis by simp
qed

lemma wire_nonempty:
  "wf_table level fs es \<Longrightarrow> fs \<noteq> [] \<Longrightarrow> 1 < level \<Longrightarrow> wire level es src soff dl [] = Some w \<Longrightarrow> w \<noteq> []"
proof (induction arbitrary: src soff dl w rule: wf_table.induct)
  case (wf_table fs level eoti)
  from wf_table.prems(1) obtain f fs' where fs: "fs = f # fs'" by (cases fs) auto
  have f: "wf_flag level f" "wf_len f" "wf_data f" using wf_table.hyps(1) fs by auto
  have "\<And>g. g \<in> set fs' \<Longrightarrow> wf_flag level g \<and> wf_len g" using wf_table.hyps(1) fs by auto
  then obtain r rs where r: "concat (map flat fs') @ [eoti] = r # rs" by (rule table_rest)
  have lv: "level = 1 \<Longrightarrow> tlv_type r \<noteq> tlv_type (felem f)" "1 \<le> level" using wf_table.prems(2) by auto
  have w: "wire level (flat f @ r # rs) src soff dl [] = Some w" using wf_table.prems(3) r fs by simp
  from wire_field [OF f lv w] wf_table.prems(2) obtain n bs w' where
    n: "count_ok f n" "data_bytes level (felem f) src (soff + elem_offset (felem f)) n = Some bs" "w = count_bytes f n @ bs @ w'"
    by auto
  have "count_bytes f n @ bs \<noteq> []"
    by (rule field_nonempty [OF f(2,3) n(1,2)]) (use wf_table.IH [of f] wf_table.prems(2) fs in auto)
  then show ?case using n(3) by auto
qed

text \<open>Decoding a message of this table from any position puts its pieces into the structure.\<close>

definition decodes :: "nat \<Rightarrow> qmi_elem_info list \<Rightarrow> qmi_elem_info list \<Rightarrow> qmi_elem_info list \<Rightarrow> bool" where
  "decodes level ei ptr es \<longleftrightarrow> (\<forall>src soff dl w msg in_len st.
     wire level es src soff dl [] = Some w \<longrightarrow> has msg (dsrc st) w \<longrightarrow> length w < 65536 \<longrightarrow> in_len < 2 ^ 32 \<longrightarrow>
     ddata_len st < 256 \<longrightarrow> patches_fit (patches level es src soff dl) (dout st) \<longrightarrow>
     (if level = 1 then dbytes st + length w = in_len else dbytes st + length w \<le> in_len) \<longrightarrow>
     (\<exists>st'. dec_loop level ei ptr msg soff in_len st = Ok st' \<and> dbytes st' = dbytes st + length w \<and>
        dsrc st' = dsrc st + length w \<and> dout st' = apply_patches (patches level es src soff dl) (dout st)))"

lemma decodesD:
  assumes "decodes level ei ptr es" "wire level es src soff dl [] = Some w" "has msg (dsrc st) w" "length w < 65536"
    "in_len < 2 ^ 32" "ddata_len st < 256" "patches_fit (patches level es src soff dl) (dout st)"
    "if level = 1 then dbytes st + length w = in_len else dbytes st + length w \<le> in_len"
  shows "\<exists>st'. dec_loop level ei ptr msg soff in_len st = Ok st' \<and> dbytes st' = dbytes st + length w \<and>
    dsrc st' = dsrc st + length w \<and> dout st' = apply_patches (patches level es src soff dl) (dout st)"
  using assms unfolding decodes_def by blast

lemma dec_structs_ok:
  assumes "decodes level sub sub sub" "1 < level"
    "\<And>src soff dl w. wire level sub src soff dl [] = Some w \<Longrightarrow> w \<noteq> []"
  shows "wire_structs n (Some sub) esz level src soff = Some w \<Longrightarrow> has msg pos w \<Longrightarrow> length w < 65536 \<Longrightarrow>
    tlv_len < 2 ^ 32 \<Longrightarrow> acc + length w \<le> tlv_len \<Longrightarrow> (level = 2 \<Longrightarrow> acc + length w = tlv_len) \<Longrightarrow>
    patches_fit (patches_structs n (Some sub) esz level src soff) dst \<Longrightarrow>
    dec_structs n (Some sub) esz level msg soff pos tlv_len acc dst =
      Ok (acc + length w, apply_patches (patches_structs n (Some sub) esz level src soff) dst)"
proof (induction n arbitrary: soff w pos acc dst)
  case 0
  then show ?case using assms(2) by (subst dec_structs.simps) auto
next
  case (Suc n)
  from Suc.prems(1) obtain bs w' where w: "wire level sub src soff 0 [] = Some bs"
    "wire_structs n (Some sub) esz level src (soff + esz) = Some w'" "w = bs @ w'" by (auto split: option.splits)
  have lt: "acc < tlv_len" using assms(3) [OF w(1)] Suc.prems(5) w(3) by (cases bs) auto
  have "tlv_len - acc < 2 ^ 32" "length bs \<le> tlv_len - acc" using Suc.prems(4,5) w(3) by auto
  with decodesD [OF assms(1) w(1), of msg "dec_init dst pos" "tlv_len - acc"] w(3) Suc.prems assms(2)
  obtain st where st: "dec_loop level sub sub msg soff (tlv_len - acc) (dec_init dst pos) = Ok st" "dbytes st = length bs"
    "dout st = apply_patches (patches level sub src soff 0) dst"
    by (auto simp: dec_init_def)
  have "dec_structs n (Some sub) esz level msg (soff + esz) (pos + length bs) tlv_len (acc + length bs) (dout st) =
      Ok (acc + length bs + length w', apply_patches (patches_structs n (Some sub) esz level src (soff + esz)) (dout st))"
    by (rule Suc.IH [OF w(2)]) (use Suc.prems w(3) st(3) in \<open>auto simp: patches_fit_cong [OF apply_patches_length]\<close>)
  then show ?case using st lt w(3) by (subst dec_structs.simps) simp
qed

text \<open>The step of \<open>dec_loop\<close> for a data element.\<close>

definition dec_data :: "nat \<Rightarrow> qmi_elem_info \<Rightarrow> bytes \<Rightarrow> nat \<Rightarrow> nat \<Rightarrow> dec \<Rightarrow> dec cres" where
  "dec_data level e msg doff len st =
    (if basic_type (data_type e) then dec_basic e msg doff st
     else if data_type e = QMI_STRUCT then
       cbind (dec_structs (ddata_len st) (ei_array e) (elem_size e) (level + 1) msg
           (doff + elem_offset e) (dsrc st) len 0 (dout st)) (\<lambda>(rc, dst). Ok (update_decode_variables rc (st\<lparr>dout := dst\<rparr>)))
     else if data_type e = QMI_STRING then dec_string level e msg doff len st
     else Err (- EINVAL))"

lemma dec_loop_step:
  assumes "dbytes st < in_len" "level \<noteq> 1 \<longrightarrow> ptr \<noteq> [] \<and> data_type (hd ptr) \<noteq> QMI_EOTI"
    "dec_head level ei ptr msg in_len st = Ok (Some es, len, st1)" "dec_prefix es msg doff len st1 = Ok (e, rest, len', st2)"
    "dec_data level e msg doff len' st2 = Ok st3"
  shows "dec_loop level ei ptr msg doff in_len st = dec_loop level ei rest msg doff in_len st3"
  using assms by (subst dec_loop.simps) (auto simp: dec_data_def split: if_splits)

lemma le32_half: "n < 65536 \<Longrightarrow> take 2 (le32 (of_nat n)) @ [0, 0] = le32 (of_nat n)"
proof -
  assume n: "n < 65536"
  then have "unat (of_nat n :: u32) = n" "unat (of_nat n :: u16) = n"
    by (simp_all add: unat_of_nat take_bit_nat_eq_self)
  then have "unat (of_nat n :: u32) = unat (ucast (of_nat n :: u16) :: u32)"
    using n by (simp add: unsigned_ucast_eq take_bit_nat_eq_self)
  then have e: "(of_nat n :: u32) = ucast (of_nat n :: u16)" by (rule unsigned_word_eqI)
  show ?thesis unfolding e le32_def
    by (simp, intro conjI; rule bit_word_eqI) (auto simp: bit_simps dest: bit_imp_le_length)
qed

lemma wire_string_decode:
  assumes "wire_string level e src off = Some bs" "has msg (dsrc st) bs" "length bs \<le> len" "level = 1 \<longrightarrow> len = length bs"
    "doff + elem_offset e = off" "off + length (cstr (drop off src)) < length (dout st)"
  shows "dec_string level e msg doff len st =
    Ok (update_decode_variables (length bs) (st\<lparr>dout := put (dout st) off (cstr (drop off src) @ [0])\<rparr>))"
proof -
  define n where "n = length (cstr (drop off src))"
  define h where "h = (if level = 1 then [] else take (if elem_len e \<le> 256 then 1 else 2) (le32 (of_nat n)) :: bytes)"
  let ?cs = "cstr (drop off src)"
  from assms(1) obtain k cs where k: "strlen (drop off src) = Some k" "k \<le> elem_len e" "elem_size e = 1"
      "level \<noteq> 1 \<Longrightarrow> k < (if elem_len e \<le> 256 then 256 else 65536)" "rd src off k = Some cs"
      "bs = (if level = 1 then [] else take (if elem_len e \<le> 256 then 1 else 2) (le32 (of_nat k))) @ cs"
    by (auto simp: wire_string_def not_le split: option.splits if_splits)
  have cs: "cs = ?cs" "k = n" using strlen_Some [OF k(1)] k(5) by (auto simp: rd_def n_def split: if_splits)
  have bs: "bs = h @ ?cs" "length ?cs = n" using k(6) cs by (auto simp: h_def n_def)
  then have hs: "has msg (dsrc st) h" "has msg (dsrc st + length h) ?cs" using assms(2) by simp_all
  have "(if level = 1 then Some len else map_option (\<lambda>b. unat (rd32 (b @ drop (length h) (le32 0)))) (rd msg (dsrc st) (length h))) =
      Some n"
  proof (cases "level = 1")
    case True
    then show ?thesis using assms(4) bs by (simp add: h_def)
  next
    case False
    have "rd msg (dsrc st) (length h) = Some h" using hs by (simp add: has_def)
    moreover have "rd32 (h @ drop (length h) (le32 0)) = of_nat n" "unat (of_nat n :: u32) = n"
      using k(4) [OF False] cs(2) False rd32_byte [of n] le32_half [of n]
      by (auto simp: h_def le32_byte unat_of_nat take_bit_nat_eq_self le32_def [of 0] split: if_splits)
    ultimately show ?thesis using False by simp
  qed
  moreover have "qmi_decode_basic_elem (dout st) off msg (dsrc st + length h) n 1 = Some (put (dout st) off ?cs)"
    using hs(2) assms(6) bs by (intro decode_basic_put) (auto simp: has_def)
  moreover have "wr (put (dout st) off ?cs) (off + n) [0] = Some (put (dout st) off (?cs @ [0]))"
    using assms(6) bs(2) put_append [of off ?cs "[0]" "dout st"] by (simp add: wr_put)
  moreover have "length h = (if level = 1 then 0 else if elem_len e \<le> 256 then 1 else 2)" by (simp add: h_def)
  ultimately show ?thesis using k(2,3) cs(2) bs assms(3,5)
    by (auto simp: dec_string_def qmi_decode_string_elem_def Let_def)
qed

lemma dec_data_ok:
  assumes wf: "wf_data f" and sub: "data_type (felem f) = QMI_STRUCT \<Longrightarrow> \<exists>sub. ei_array (felem f) = Some sub \<and>
      decodes (level + 1) sub sub sub \<and> (\<forall>src soff dl w. wire (level + 1) sub src soff dl [] = Some w \<longrightarrow> w \<noteq> [])"
    and bs: "data_bytes level (felem f) src (soff + elem_offset (felem f)) n = Some bs" "has msg (dsrc st) bs"
      "length bs < 65536" "length bs \<le> len" "level = 1 \<Longrightarrow> len = length bs" "len < 2 ^ 32" "1 \<le> level"
    and n: "ddata_len st = n" "n = 0 \<longrightarrow> array_type (felem f) = VAR_LEN_ARRAY"
    and fit: "patches_fit (data_patches level (felem f) src (soff + elem_offset (felem f)) n) (dout st)"
  shows "dec_data level (felem f) msg soff len st = Ok (update_decode_variables (length bs)
    (st\<lparr>dout := apply_patches (data_patches level (felem f) src (soff + elem_offset (felem f)) n) (dout st)\<rparr>))"
proof -
  let ?e = "felem f" and ?off = "soff + elem_offset (felem f)"
  consider (b) "basic_type (data_type ?e)" | (s) "data_type ?e = QMI_STRUCT"
    | (t) "data_type ?e = QMI_STRING" "array_type ?e = NO_ARRAY"
    using wf by (auto simp: wf_data_def Let_def)
  then show ?thesis
  proof cases
    case b
    have "data_type ?e \<noteq> QMI_OPT_FLAG" "data_type ?e \<noteq> QMI_DATA_LEN" using data_not_special [OF wf] by auto
    show ?thesis
    proof (cases "n = 0")
      case True
      then show ?thesis using b bs(1) n(1) by (simp add: dec_data_def dec_basic_def data_bytes_def data_patches_def)
    next
      case False
      then have r: "rd src ?off (n * elem_size ?e) = Some bs" using bs(1) b by (simp add: data_bytes_def)
      then have p: "data_patches level ?e src ?off n = [(?off, bs)]"
        using b False \<open>data_type ?e \<noteq> QMI_OPT_FLAG\<close> \<open>data_type ?e \<noteq> QMI_DATA_LEN\<close> by (simp add: data_patches_def elem_patches_def)
      have "rd msg (dsrc st) (n * elem_size ?e) = Some bs" using bs(2) rd_length [OF r] by (simp add: has_def)
      then show ?thesis using b p fit n(1) rd_length [OF r] decode_basic_put [of msg "dsrc st" n "elem_size ?e" bs ?off "dout st"]
        by (simp add: dec_data_def dec_basic_def)
    qed
  next
    case s
    from sub [OF s] obtain sub where sub: "ei_array ?e = Some sub" "decodes (level + 1) sub sub sub"
      "\<And>src soff dl w. wire (level + 1) sub src soff dl [] = Some w \<Longrightarrow> w \<noteq> []" by blast
    have w: "wire_structs n (Some sub) (elem_size ?e) (level + 1) src ?off = Some bs"
      using bs(1) s sub(1) by (cases "n = 0") (auto simp: data_bytes_def)
    have p: "data_patches level ?e src ?off n = patches_structs n (Some sub) (elem_size ?e) (level + 1) src ?off"
      using s sub(1) by (cases "n = 0") (auto simp: data_patches_def elem_patches_def)
    have "dec_structs n (Some sub) (elem_size ?e) (level + 1) msg ?off (dsrc st) len 0 (dout st) =
        Ok (0 + length bs, apply_patches (patches_structs n (Some sub) (elem_size ?e) (level + 1) src ?off) (dout st))"
      by (rule dec_structs_ok [OF sub(2) _ sub(3) w bs(2,3,6)]) (use bs fit p in auto)
    then show ?thesis using s sub(1) n(1) p by (simp add: dec_data_def)
  next
    case t
    then have n0: "n \<noteq> 0" using n(2) by auto
    have p: "data_patches level ?e src ?off n = [(?off, cstr (drop ?off src) @ [0])]"
      using t n0 by (simp add: data_patches_def elem_patches_def)
    have "dec_string level ?e msg soff len st =
      Ok (update_decode_variables (length bs) (st\<lparr>dout := put (dout st) ?off (cstr (drop ?off src) @ [0])\<rparr>))"
      by (rule wire_string_decode) (use t bs n0 p fit in \<open>auto simp: data_bytes_def\<close>)
    then show ?thesis using t p by (simp add: dec_data_def)
  qed
qed

lemma find_field:
  assumes "\<And>g. g \<in> set (fs1 @ f # fs2) \<Longrightarrow> wf_flag level g \<and> wf_len g \<and> wf_data g"
    "distinct (map (tlv_type \<circ> felem) (fs1 @ f # fs2))"
  shows "find_ei (concat (map flat (fs1 @ f # fs2)) @ es) (tlv_type (felem f)) = Ok (flat f @ concat (map flat fs2) @ es)"
  using assms
proof (induction fs1)
  case Nil
  then have f: "wf_flag level f" "wf_len f" "wf_data f" by auto
  then show ?case using data_not_special [OF f(3)]
    by (cases "fflag f"; cases "flen f") (auto simp: flat_def wf_flag_def wf_len_def)
next
  case (Cons g fs1)
  then have g: "wf_flag level g" "wf_len g" "wf_data g" "tlv_type (felem g) \<noteq> tlv_type (felem f)" by auto
  then have "find_ei (flat g @ es') (tlv_type (felem f)) = find_ei es' (tlv_type (felem f))" for es'
    using data_not_special [OF g(3)]
    by (cases "fflag g"; cases "flen g") (auto simp: flat_def wf_flag_def wf_len_def)
  then show ?case using Cons by simp
qed

text \<open>Where the decoder finds a field, and how much it takes the field to have.\<close>

lemma dec_head_field:
  assumes "level = 1 \<Longrightarrow> find_ei ei t = Ok es" "level \<noteq> 1 \<Longrightarrow> ptr = es"
    "has msg (dsrc st) ((if level = 1 then t # le16 (of_nat n) else []) @ bs)" "n < 65536"
  shows "dec_head level ei ptr msg in_len st =
    Ok (Some es, if level = 1 then n else in_len - dbytes st, update_decode_variables (hdr level) st)"
proof (cases "level = 1")
  case True
  have "has msg (dsrc st) (t # le16 (of_nat n))" using assms(3) unfolding has_append using True by simp
  then have "rd msg (dsrc st) 3 = Some (t # le16 (of_nat n))" by (simp add: has_def)
  moreover have "unat (of_nat n :: u16) = n" using assms(4) by (simp add: unat_of_nat take_bit_nat_eq_self)
  moreover obtain a b where "le16 (of_nat n) = [a, b]" by (simp add: le16_def)
  ultimately show ?thesis using True assms(1) rd16_le16' [of "of_nat n"]
    by (simp add: dec_head_def dec_tlv_def Let_def hdr_def)
next
  case False
  then show ?thesis using assms(2) by (simp add: dec_head_def hdr_def update_decode_variables_def)
qed

lemma decodes_field:
  assumes wf: "wf_flag level f" "wf_len f" "wf_data f" and lv: "1 \<le> level" "level = 1 \<Longrightarrow> tlv_type r \<noteq> tlv_type (felem f)"
    and sub: "data_type (felem f) = QMI_STRUCT \<Longrightarrow> \<exists>sub. ei_array (felem f) = Some sub \<and>
      decodes (level + 1) sub sub sub \<and> (\<forall>src soff dl w. wire (level + 1) sub src soff dl [] = Some w \<longrightarrow> w \<noteq> [])"
    and find: "level = 1 \<Longrightarrow> find_ei ei (tlv_type (felem f)) = Ok (flat f @ r # rs)" "level \<noteq> 1 \<Longrightarrow> ptr = flat f @ r # rs"
    and rest: "\<And>ptr. (level \<noteq> 1 \<longrightarrow> ptr = r # rs) \<Longrightarrow> decodes level ei ptr (r # rs)"
  shows "decodes level ei ptr (flat f @ r # rs)"
  unfolding decodes_def
proof (intro allI impI)
  fix src soff dl w msg in_len and st :: dec
  assume w: "wire level (flat f @ r # rs) src soff dl [] = Some w" and has: "has msg (dsrc st) w" and len: "length w < 65536"
    and inl: "in_len < 2 ^ 32" and dd: "ddata_len st < 256" and fit: "patches_fit (patches level (flat f @ r # rs) src soff dl) (dout st)"
    and db: "if level = 1 then dbytes st + length w = in_len else dbytes st + length w \<le> in_len"
  let ?goal = "\<exists>st'. dec_loop level ei ptr msg soff in_len st = Ok st' \<and> dbytes st' = dbytes st + length w \<and>
    dsrc st' = dsrc st + length w \<and> dout st' = apply_patches (patches level (flat f @ r # rs) src soff dl) (dout st)"
  show ?goal
  proof (rule disjE [OF wire_field [OF wf _ lv(1) w]], rule lv(2); (elim exE conjE)?)
    fix dl' assume l1: "level = 1" and w1: "wire level (r # rs) src soff dl' [] = Some w"
      and p1: "patches level (flat f @ r # rs) src soff dl = patches level (r # rs) src soff dl'"
    have d1: "decodes level ei ptr (r # rs)" by (rule rest) (simp add: l1)
    show ?goal unfolding p1 by (rule decodesD [OF d1 w1 has len inl dd fit [unfolded p1] db])
  next
    fix n bs dl' w'
    let ?cb = "count_bytes f n" and ?off = "soff + elem_offset (felem f)"
    let ?ps = "flag_patches f soff @ len_patches f soff n" and ?dp = "data_patches level (felem f) src (soff + elem_offset (felem f)) n"
    assume n: "count_ok f n" and bs: "data_bytes level (felem f) src ?off n = Some bs"
      and w': "wire level (r # rs) src soff dl' [] = Some w'"
      and we: "w = (if level = 1 then tlv_type (felem f) # le16 (of_nat (length (?cb @ bs))) else []) @ ?cb @ bs @ w'"
      and pa: "patches level (flat f @ r # rs) src soff dl = flag_patches f soff @ len_patches f soff n @ ?dp @ patches level (r # rs) src soff dl'"
    have lw: "length w = hdr level + length ?cb + length bs + length w'" by (simp add: we hdr_def)
    have hs: "has msg (dsrc st + hdr level) ?cb" "has msg (dsrc st + hdr level + length ?cb) bs"
      "has msg (dsrc st + hdr level + length ?cb + length bs) w'"
      using has unfolding we has_append by (auto simp: hdr_def split: if_splits)
    let ?st1 = "update_decode_variables (hdr level) st"
    let ?len = "if level = 1 then length (?cb @ bs) else in_len - dbytes st"
    have head: "dec_head level ei ptr msg in_len st = Ok (Some (flat f @ r # rs), ?len, ?st1)"
      by (rule dec_head_field [OF find(1,2) has [unfolded we]]) (use len lw in auto)
    have len': "length (?cb @ bs) \<le> ?len" "?len < 2 ^ 32" using lw db inl len by (auto simp: hdr_def split: if_splits)
    have "patches_fit ?ps (dout ?st1)" using fit pa by simp
    then obtain st2 where st2: "dec_prefix (flat f @ r # rs) msg soff ?len ?st1 = Ok (felem f, r # rs, ?len - length ?cb, st2)"
        "dout st2 = apply_patches ?ps (dout st)" "dsrc st2 = dsrc st + hdr level + length ?cb"
        "dbytes st2 = dbytes st + hdr level + length ?cb" "ddata_len st2 = n" "n < 256"
      using dec_prefix_field [OF wf n, of msg ?st1 ?len soff "r # rs"] hs(1) len' dd by auto
    let ?st3 = "update_decode_variables (length bs) (st2\<lparr>dout := apply_patches ?dp (dout st2)\<rparr>)"
    have data: "dec_data level (felem f) msg soff (?len - length ?cb) st2 = Ok ?st3"
    proof (rule dec_data_ok [OF wf(3) sub bs])
      show "n = 0 \<longrightarrow> array_type (felem f) = VAR_LEN_ARRAY"
        using n wf(2,3) by (cases "flen f"; cases "array_type (felem f)") (auto simp: count_ok_def wf_len_def wf_data_def Let_def)
      show "patches_fit ?dp (dout st2)" using fit pa st2(2) by (simp add: patches_fit_cong [OF apply_patches_length])
    qed (use hs st2 len' lw len lv in auto)
    have "dec_loop level ei ptr msg soff in_len st = dec_loop level ei (r # rs) msg soff in_len ?st3"
    proof (rule dec_loop_step [OF _ _ head st2(1) data])
      have "level \<noteq> 1 \<Longrightarrow> ?cb @ bs \<noteq> []" using sub by (intro field_nonempty [OF wf(2,3) n bs]) auto
      then have "0 < length w" unfolding lw by (cases "level = 1") (auto simp: hdr_def)
      then show "dbytes st < in_len" using db by (cases w) (auto split: if_splits)
      show "level \<noteq> 1 \<longrightarrow> ptr \<noteq> [] \<and> data_type (hd ptr) \<noteq> QMI_EOTI" using find(2) wf data_not_special [OF wf(3)]
        by (cases "fflag f"; cases "flen f") (auto simp: flat_def wf_flag_def wf_len_def)
    qed
    moreover have "\<exists>st'. dec_loop level ei (r # rs) msg soff in_len ?st3 = Ok st' \<and> dbytes st' = dbytes ?st3 + length w' \<and>
        dsrc st' = dsrc ?st3 + length w' \<and> dout st' = apply_patches (patches level (r # rs) src soff dl') (dout ?st3)"
    proof (rule decodesD [OF rest w'])
      show "patches_fit (patches level (r # rs) src soff dl') (dout ?st3)"
        using fit pa st2(2) by (simp add: patches_fit_cong [OF apply_patches_length])
    qed (use hs(3) st2 len lw inl db in \<open>auto split: if_splits\<close>)
    ultimately show ?goal using st2 pa lw by auto
  qed
qed

lemma table_decodes:
  assumes "wf_table level fs es" "1 \<le> level" "level \<noteq> 1 \<longrightarrow> ptr = es"
  shows "decodes level es ptr es"
  using assms
proof (induction arbitrary: ptr rule: wf_table.induct)
  case (wf_table fs level eoti)
  let ?es = "concat (map flat fs) @ [eoti]"
  have "decodes level ?es ptr (concat (map flat fs2) @ [eoti])"
    if "fs = fs1 @ fs2" "level \<noteq> 1 \<longrightarrow> ptr = concat (map flat fs2) @ [eoti]" for fs1 fs2 ptr
    using that
  proof (induction fs2 arbitrary: fs1 ptr)
    case Nil
    have "wire level [eoti] src soff dl [] = Some []" "patches level [eoti] src soff dl = []" for src soff dl
      using wf_table.hyps(3) by (simp_all add: wire.simps(2) patches.simps(2))
    then show ?case using Nil wf_table.hyps(3) unfolding decodes_def
      by (subst dec_loop.simps) (auto split: if_splits)
  next
    case (Cons f fs2)
    have f: "wf_flag level f" "wf_len f" "wf_data f" using wf_table.hyps(1) Cons.prems(1) by auto
    have "\<And>g. g \<in> set fs2 \<Longrightarrow> wf_flag level g \<and> wf_len g" using wf_table.hyps(1) Cons.prems(1) by auto
    then obtain r rs where r: "concat (map flat fs2) @ [eoti] = r # rs"
      "tlv_type r = tlv_type (if fs2 = [] then eoti else felem (hd fs2))" by (rule table_rest)
    have "decodes level ?es ptr (flat f @ r # rs)"
    proof (rule decodes_field [OF f wf_table.prems(1)])
      show "tlv_type r \<noteq> tlv_type (felem f)" if "level = 1"
        using wf_table.hyps(2) [OF that] Cons.prems(1) r(2) by (cases fs2) auto
      show "\<exists>sub. ei_array (felem f) = Some sub \<and> decodes (level + 1) sub sub sub \<and>
          (\<forall>src soff dl w. wire (level + 1) sub src soff dl [] = Some w \<longrightarrow> w \<noteq> [])" if "data_type (felem f) = QMI_STRUCT"
        using wf_table.IH [of f] wf_table.prems(1) Cons.prems(1) that wire_nonempty by fastforce
      show "find_ei ?es (tlv_type (felem f)) = Ok (flat f @ r # rs)" if "level = 1"
        using find_field [of fs1 f fs2 level "[eoti]"] wf_table.hyps(1) wf_table.hyps(2) [OF that] Cons.prems(1) r(1) by simp
      show "ptr = flat f @ r # rs" if "level \<noteq> 1" using Cons.prems(2) that r(1) by simp
      show "decodes level ?es ptr (r # rs)" if "level \<noteq> 1 \<longrightarrow> ptr = r # rs" for ptr
        using Cons.IH [of "fs1 @ [f]" ptr] Cons.prems(1) r(1) that by simp
    qed
    then show ?case using r(1) by simp
  qed
  from this [of "[]" fs ptr] show ?case using wf_table.prems(2) by simp
qed

lemma decode_wire:
  assumes "wf_table 1 fs es" "wire 1 es src soff 0 [] = Some bs" "has msg pos bs" "length bs < 65536"
    "patches_fit (patches 1 es src soff 0) dst"
  shows "qmi_decode es dst soff msg pos (length bs) = Ok (length bs, apply_patches (patches 1 es src soff 0) dst)"
proof -
  have d: "decodes 1 es es es" by (rule table_decodes [OF assms(1)]) auto
  from decodesD [OF d assms(2), of msg "dec_init dst pos" "length bs"] assms(3-5) show ?thesis
    by (auto simp: qmi_decode_def dec_init_def)
qed

section \<open>Round trip\<close>

text \<open>Pieces that are equal to what a structure holds overlay it.\<close>

lemma apply_patches_nth:
  "\<forall>(off, b) \<in> set ps. rd src off (length b) = Some b \<Longrightarrow> patches_fit ps m \<Longrightarrow> x < length m \<Longrightarrow>
     apply_patches ps m ! x = (if \<exists>(off, b) \<in> set ps. off \<le> x \<and> x < off + length b then src ! x else m ! x)"
proof (induction ps arbitrary: m)
  case (Cons p ps)
  obtain off b where p: "p = (off, b)" by (cases p)
  have b: "off + length b \<le> length m" "rd src off (length b) = Some b" using Cons.prems p by auto
  have "patches_fit ps (put m off b)" using Cons.prems(2) p b by (simp add: patches_fit_cong [of "put m off b" m])
  with Cons.IH [of "put m off b"] Cons.prems p b have
    "apply_patches ps (put m off b) ! x = (if \<exists>(off, b) \<in> set ps. off \<le> x \<and> x < off + length b then src ! x else put m off b ! x)"
    by auto
  moreover have "put m off b ! x = (if off \<le> x \<and> x < off + length b then src ! x else m ! x)"
  proof -
    have "b ! (x - off) = src ! x" if "off \<le> x" "x < off + length b"
    proof -
      have "b = take (length b) (drop off src)" "off + length b \<le> length src" using b(2) by (auto simp: rd_def split: if_splits)
      then have "b ! (x - off) = drop off src ! (x - off)" using that by (metis add.commute less_diff_conv2 nth_take)
      then show ?thesis using that \<open>off + length b \<le> length src\<close> by simp
    qed
    then show ?thesis using wr_nth_in [of m off b "put m off b" x] wr_nth_other [of m off b "put m off b" x] b(1) Cons.prems(3)
      by (auto simp: wr_put)
  qed
  ultimately show ?case using p by auto
qed simp

lemma apply_patches_rd:
  assumes "\<forall>(off, b) \<in> set ps. rd src off (length b) = Some b" "patches_fit ps m" "(off, b) \<in> set ps"
  shows "rd (apply_patches ps m) off (length b) = Some b"
proof -
  have b: "rd src off (length b) = Some b" "off + length b \<le> length m"
    using assms by (auto simp: patches_fit_def)
  then have s: "b = take (length b) (drop off src)" "off + length b \<le> length src" by (auto simp: rd_def split: if_splits)
  have "take (length b) (drop off (apply_patches ps m)) = b"
  proof (rule nth_equalityI)
    fix x assume "x < length (take (length b) (drop off (apply_patches ps m)))"
    then have x: "x < length b" "off + x < length m" using b(2) assms(2) by auto
    then have "apply_patches ps m ! (off + x) = src ! (off + x)"
      using apply_patches_nth [OF assms(1,2) x(2)] assms(3) by (auto simp: split_beta intro: bexI [of _ "(off, b)"])
    moreover have "b ! x = src ! (off + x)" using x(1) s by (metis add_lessD1 le_add1 nth_drop nth_take order_trans)
    ultimately show "take (length b) (drop off (apply_patches ps m)) ! x = b ! x" using x b(2) assms(2) by simp
  qed (use b(2) assms(2) in auto)
  then show ?thesis using b(2) assms(2) by (simp add: rd_def)
qed

lemma header_of_bytes: "header_of (header_bytes h @ bs) = Some h"
  by (simp add: header_of_def header_bytes_def rd_def le16_def rd16_le16 [unfolded le16_def, simplified])

lemma decode_message_wire:
  assumes "wf_table 1 fs es" "wire 1 es src 0 0 [] = Some bs" "length bs < 65536" "patches_fit (patches 1 es src 0 0) dst"
    and msg: "msg = header_bytes \<lparr>hdr_type = type, hdr_txn_id = txn_id, hdr_msg_id = msg_id, hdr_msg_len = of_nat (length bs)\<rparr> @ bs @ tail"
  shows "qmi_decode_header msg (7 + length bs) = Ok msg_id"
    "qmi_decode_message (Some dst) msg (7 + length bs) type msg_id (Some es) =
      (Some txn_id, Ok (length bs, apply_patches (patches 1 es src 0 0) dst))"
proof -
  have s: "sub64 (7 + length bs) 7 = length bs" using assms(3) by simp
  have l: "unat (of_nat (length bs) :: u16) = length bs" using assms(3) by (simp add: unat_of_nat take_bit_nat_eq_self)
  have m: "has msg 7 bs" by (simp add: msg has_def rd_def header_bytes_def)
  show "qmi_decode_header msg (7 + length bs) = Ok msg_id"
    unfolding qmi_decode_header_def msg header_of_bytes s by (simp add: l)
  have "header_of msg = Some \<lparr>hdr_type = type, hdr_txn_id = txn_id, hdr_msg_id = msg_id, hdr_msg_len = of_nat (length bs)\<rparr>"
    unfolding msg by (rule header_of_bytes)
  then show "qmi_decode_message (Some dst) msg (7 + length bs) type msg_id (Some es) =
      (Some txn_id, Ok (length bs, apply_patches (patches 1 es src 0 0) dst))"
    using assms(3) s decode_wire [OF assms(1,2) m assms(3,4)] by (simp add: qmi_decode_message_def)
qed

text \<open>
  C2: a message survives the wire. For every well-formed table of descriptors and every structure that has
  a message, \<open>qmi_encode_message\<close> into a buffer with room for it gives a packet that
  \<open>qmi_decode_header\<close> accepts and from which \<open>qmi_decode_message\<close> gets back the transaction id and every
  field that was sent, nested structures and arrays included: the decoded structure agrees with the
  original on all pieces of the message and is unchanged elsewhere, where an optional field is absent.
  The flags of the original are 0 or 1 and its length fields have 32 bits.
\<close>

theorem qmi_roundtrip:
  assumes "wf_table 1 fs es" "wire 1 es src 0 0 [] = Some bs" "length bs < 65536" "length dst = length src"
    "\<forall>(off, b) \<in> set (patches 1 es src 0 0). rd src off (length b) = Some b"
    "7 + length bs \<le> length data" "length data < 2 ^ 32"
  shows "\<exists>data' dst'.
    qmi_encode_message data (length data) type msg_id txn_id (Some src) (Some es) = Ok (7 + length bs, data') \<and>
    qmi_decode_header data' (7 + length bs) = Ok msg_id \<and>
    qmi_decode_message (Some dst) data' (7 + length bs) type msg_id (Some es) = (Some txn_id, Ok (length bs, dst')) \<and>
    (\<forall>x < length src. dst' ! x =
      (if \<exists>(off, b) \<in> set (patches 1 es src 0 0). off \<le> x \<and> x < off + length b then src ! x else dst ! x))"
proof -
  let ?h = "header_bytes \<lparr>hdr_type = type, hdr_txn_id = txn_id, hdr_msg_id = msg_id, hdr_msg_len = of_nat (length bs)\<rparr>"
  let ?data = "put data 0 (?h @ bs)"
  have "length ?h = 7" by (simp add: header_bytes_def)
  then have d: "?data = ?h @ bs @ drop (7 + length bs) data" by (simp add: put_def)
  have fit: "patches_fit (patches 1 es src 0 0) dst"
    using assms(4,5) unfolding patches_fit_def by (fastforce simp: rd_def split: if_splits)
  show ?thesis
    using encode_message_fits [OF assms(2,6) order_refl assms(7)] decode_message_wire [OF assms(1-3) fit d]
      apply_patches_nth [OF assms(5) fit] assms(4) by auto
qed

definition demo_ei :: "qmi_elem_info list" where
  "demo_ei = [EI QMI_STRUCT 1 4 NO_ARRAY 2 0 (Some qmi_response_type_v01_ei), EI QMI_OPT_FLAG 1 1 NO_ARRAY 16 4 None,
     EI QMI_UNSIGNED_1_BYTE 1 1 NO_ARRAY 16 5 None, EI QMI_DATA_LEN 1 1 NO_ARRAY 17 6 None,
     EI QMI_UNSIGNED_1_BYTE 3 1 VAR_LEN_ARRAY 17 10 None, EI QMI_EOTI 0 0 NO_ARRAY 0 0 None]"

abbreviation (input) "demo_fields \<equiv>
  [Field None None (EI QMI_STRUCT 1 4 NO_ARRAY 2 0 (Some qmi_response_type_v01_ei)),
   Field (Some (EI QMI_OPT_FLAG 1 1 NO_ARRAY 16 4 None)) None (EI QMI_UNSIGNED_1_BYTE 1 1 NO_ARRAY 16 5 None),
   Field None (Some (EI QMI_DATA_LEN 1 1 NO_ARRAY 17 6 None)) (EI QMI_UNSIGNED_1_BYTE 3 1 VAR_LEN_ARRAY 17 10 None)]"

lemma wf_response: "\<exists>sfs. sfs \<noteq> [] \<and> wf_table (Suc (Suc 0)) sfs qmi_response_type_v01_ei"
proof (intro exI conjI)
  let ?fs = "[Field None None (EI QMI_SIGNED_2_BYTE_ENUM 1 2 NO_ARRAY 0 0 None),
    Field None None (EI QMI_SIGNED_2_BYTE_ENUM 1 2 NO_ARRAY 0 2 None)]"
  show "?fs \<noteq> []" by simp
  show "wf_table (Suc (Suc 0)) ?fs qmi_response_type_v01_ei"
    by (rule wf_tableI [where eoti = "EI QMI_EOTI 0 0 NO_ARRAY 0 0 None"])
      (simp_all add: qmi_response_type_v01_ei_def flat_def wf_flag_def wf_len_def wf_data_def)
qed

lemma wf_demo: "wf_table 1 demo_fields demo_ei"
  using wf_response by (intro wf_tableI [where eoti = "EI QMI_EOTI 0 0 NO_ARRAY 0 0 None"]) (auto simp: demo_ei_def flat_def wf_flag_def wf_len_def wf_data_def)

definition demo_src :: bytes where
  "demo_src = [1, 0, 2, 0, 0, 9, 2, 0, 0, 0, 5, 6, 7]"

lemmas wire_eval = wire.simps(2) patches.simps(2) wire_elem_def enc_count_def rd_def emit_def le16_def le32_def
  wire_len_def elem_patches_def Let_def rd32_def

theorem qmi_roundtrip_witness:
  "\<exists>data' dst'. qmi_decode_message (Some (replicate 13 0)) data' 20 2 33 (Some demo_ei) = (Some 5, Ok (13, dst')) \<and>
    dst' ! 10 = 5 \<and> dst' ! 5 = 0 \<and> dst' ! 12 = 0"
proof -
  let ?bs = "[2, 4, 0, 1, 0, 2, 0, 17, 3, 0, 2, 5, 6] :: bytes"
  have w: "wire 1 demo_ei demo_src 0 0 [] = Some ?bs"
    by (simp add: wire_eval demo_ei_def demo_src_def qmi_response_type_v01_ei_def)
  have p: "patches 1 demo_ei demo_src 0 0 = [(0, [1, 0]), (2, [2, 0]), (6, [2, 0, 0, 0]), (10, [5, 6])]"
    by (simp add: wire_eval demo_ei_def demo_src_def qmi_response_type_v01_ei_def)
  have c: "\<forall>(off, b) \<in> set (patches 1 demo_ei demo_src 0 0). rd demo_src off (length b) = Some b"
    unfolding p by (simp add: demo_src_def rd_def)
  from qmi_roundtrip [OF wf_demo w _ _ c, of "replicate 13 0" "replicate 64 0" 2 33 5] obtain data' dst' where
    d: "qmi_decode_message (Some (replicate 13 0)) data' (7 + length ?bs) 2 33 (Some demo_ei) = (Some 5, Ok (length ?bs, dst'))"
      "\<forall>x < length demo_src. dst' ! x = (if \<exists>(off, b) \<in> set (patches 1 demo_ei demo_src 0 0). off \<le> x \<and> x < off + length b
        then demo_src ! x else replicate 13 0 ! x)"
    by (auto simp: demo_src_def)
  have "dst' ! 10 = 5" "dst' ! 5 = 0" "dst' ! 12 = 0"
    using d(2) [rule_format, of 10] d(2) [rule_format, of 5] d(2) [rule_format, of 12] unfolding p
    by (simp_all add: demo_src_def)
  moreover have "length ?bs = 13" "7 + length ?bs = 20" by simp_all
  ultimately show ?thesis using d(1) by metis
qed

end
