(* ===== verification/Pd_Assoc.thy ===== *)
theory Pd_Assoc
  imports Table_Spec
begin

text \<open>
  The set of file names of the protection-domain mapper, \<open>qcom/pd-mapper/assoc.c\<close>: an open-addressing
  table of strings without removal that grows to five quarters of its size at 80% utilisation. Keys
  and values are two arrays, the value of a slot that was never filled is \<open>None\<close> (it is not
  initialised). \<open>None\<close> as the result of an operation is a failed \<open>assert\<close> or a probe that never ends.
  The code does not check its allocations, which are taken to succeed. \<open>size\<close> is the length of an
  array of pointers, so the products with 5 stay below \<open>2 ^ 64\<close>; the grown table is computed with
  natural numbers.

  \<open>pd_assoc\<close> interprets \<open>replace_table\<close>: a table of at least six slots behaves as a finite map under
  any sequence of insertions, overwriting included.
\<close>

section \<open>The table\<close>

record 'v assoc =
  asize :: nat
  afill :: nat
  akeys :: "bytes option list"
  avalues :: "'v option list"

text \<open>\<open>unsigned long\<close> has 64 bits and \<open>char\<close> is unsigned on the target.\<close>

fun assoc_hash_loop :: "u64 \<Rightarrow> bytes \<Rightarrow> u64" where
  "assoc_hash_loop hash [] = hash"
| "assoc_hash_loop hash (c # v) =
    (let hash = push_bit 4 hash + ucast c;
         g = hash AND 0xF0000000;
         hash = (if g \<noteq> 0 then hash XOR drop_bit 24 g else hash)
     in assoc_hash_loop (hash AND NOT g) v)"

definition assoc_hash :: "bytes \<Rightarrow> u64" where
  "assoc_hash v = assoc_hash_loop 0 v"

definition assoc_init :: "nat \<Rightarrow> 'v assoc option" where
  "assoc_init n = (if n > 0 then
     Some \<lparr>asize = n, afill = 0, akeys = replicate n None, avalues = replicate n None\<rparr> else None)"

text \<open>
  The probe shared by \<open>assoc_get\<close> and \<open>_assoc_set\<close>: the slot it stops at, which is free or holds the
  key. When none of the \<open>size\<close> slots stops it, it goes round for ever.
\<close>

fun assoc_probe :: "nat \<Rightarrow> bytes option list \<Rightarrow> bytes \<Rightarrow> nat \<Rightarrow> nat option" where
  "assoc_probe 0 ks key h = None"
| "assoc_probe (Suc n) ks key h =
    (if ks ! h = None \<or> ks ! h = Some key then Some h
     else assoc_probe n ks key ((h + 1) mod length ks))"

definition assoc_slot :: "bytes option list \<Rightarrow> bytes \<Rightarrow> nat option" where
  "assoc_slot ks key = assoc_probe (length ks) ks key (unat (assoc_hash key) mod length ks)"

definition assoc_get :: "'v assoc \<Rightarrow> bytes \<Rightarrow> 'v option option" where
  "assoc_get a key = map_option (\<lambda>h. if akeys a ! h = None then None else avalues a ! h)
     (assoc_slot (akeys a) key)"

definition assoc_store :: "'v assoc \<Rightarrow> bytes \<Rightarrow> 'v \<Rightarrow> 'v assoc option" where
  "assoc_store a key v = (case assoc_slot (akeys a) key of
     None \<Rightarrow> None
   | Some h \<Rightarrow> if akeys a ! h = Some key then Some (a\<lparr>avalues := (avalues a)[h := Some v]\<rparr>)
       else Some (a\<lparr>akeys := (akeys a)[h := Some key], avalues := (avalues a)[h := Some v],
         afill := afill a + 1\<rparr>))"

text \<open>
  Growing calls \<open>assoc_set\<close> on the new table for every slot that is filled. The depth of this
  recursion is bounded by fuel; two levels are enough (\<open>assoc_set_ok\<close>).
\<close>

fun assoc_set_fuel :: "nat \<Rightarrow> 'v assoc \<Rightarrow> bytes \<Rightarrow> 'v \<Rightarrow> 'v assoc option"
  and assoc_copy :: "nat \<Rightarrow> 'v assoc \<Rightarrow> (bytes option \<times> 'v option) list \<Rightarrow> 'v assoc option" where
  "assoc_set_fuel 0 a key v = None"
| "assoc_set_fuel (Suc n) a key v =
    (if \<not> afill a < asize a then None
     else if 5 * afill a > 4 * asize a then
       (case assoc_init (asize a * 5 div 4) of
          None \<Rightarrow> None
        | Some new_set \<Rightarrow> (case assoc_copy n new_set (zip (akeys a) (avalues a)) of
            None \<Rightarrow> None
          | Some new_set \<Rightarrow> assoc_store new_set key v))
     else assoc_store a key v)"
| "assoc_copy n b [] = Some b"
| "assoc_copy n b ((Some k, Some v) # kvs) = (case assoc_set_fuel n b k v of
     None \<Rightarrow> None
   | Some b \<Rightarrow> assoc_copy n b kvs)"
| "assoc_copy n b ((Some k, None) # kvs) = None"
| "assoc_copy n b ((None, v) # kvs) = assoc_copy n b kvs"

definition assoc_set :: "'v assoc \<Rightarrow> bytes \<Rightarrow> 'v \<Rightarrow> 'v assoc option" where
  "assoc_set a key v = assoc_set_fuel 2 a key v"

text \<open>The next filled slot, the iterator for the slot after it, the key and the value.\<close>

function assoc_skip :: "'v assoc \<Rightarrow> nat \<Rightarrow> nat" where
  "assoc_skip a it = (if it < asize a \<and> akeys a ! it = None then assoc_skip a (it + 1) else it)"
  by pat_completeness auto
termination
  by (relation "measure (\<lambda>(a, it). asize a - it)") auto

declare assoc_skip.simps [simp del]

definition assoc_next :: "'v assoc \<Rightarrow> nat \<Rightarrow> (bytes \<times> 'v option \<times> nat) option" where
  "assoc_next a iter = (let it = assoc_skip a iter in
     if it < asize a then map_option (\<lambda>k. (k, avalues a ! it, it + 1)) (akeys a ! it) else None)"

function assoc_foreach_from :: "'v assoc \<Rightarrow> nat \<Rightarrow> (bytes \<times> 'v option) list" where
  "assoc_foreach_from a iter = (case assoc_next a iter of
     None \<Rightarrow> []
   | Some (k, v, iter') \<Rightarrow> (k, v) # assoc_foreach_from a iter')"
  by pat_completeness auto

lemma assoc_skip_le: "iter \<le> assoc_skip a iter"
  by (induction a iter rule: assoc_skip.induct) (subst assoc_skip.simps, auto)

lemma assoc_next_grows: "assoc_next a iter = Some (k, v, iter') \<Longrightarrow> iter < iter' \<and> iter' \<le> asize a"
  using assoc_skip_le [of iter a] by (auto simp: assoc_next_def Let_def split: if_splits)

termination assoc_foreach_from
  by (relation "measure (\<lambda>(a, it). asize a - it)") (auto dest: assoc_next_grows)

declare assoc_foreach_from.simps [simp del]

definition assoc_foreach :: "'v assoc \<Rightarrow> (bytes \<times> 'v option) list" where
  "assoc_foreach a = assoc_foreach_from a 0"

text \<open>The strings that are freed, and the table afterwards; its arrays are gone.\<close>

definition assoc_destroy :: "'v assoc \<Rightarrow> bytes list \<times> 'v assoc" where
  "assoc_destroy a = (List.map_filter id (akeys a), a\<lparr>asize := 0, akeys := [], avalues := []\<rparr>)"

section \<open>Probing\<close>

definition stops :: "bytes option list \<Rightarrow> bytes \<Rightarrow> nat \<Rightarrow> bool" where
  "stops ks key h \<longleftrightarrow> ks ! h = None \<or> ks ! h = Some key"

lemma assoc_probe_Suc:
  "assoc_probe (Suc n) ks key h = (if stops ks key h then Some h else assoc_probe n ks key ((h + 1) mod length ks))"
  by (simp add: stops_def)

lemma first_from_Suc:
  assumes "\<not> P 0" "R 0 \<longrightarrow> \<not> S"
  shows "(\<exists>d<Suc n. R d \<and> S \<and> (\<forall>d'<d. \<not> P d')) \<longleftrightarrow> (\<exists>d<n. R (Suc d) \<and> S \<and> (\<forall>d'<d. \<not> P (Suc d')))"
  unfolding Ex_less_Suc2 All_less_Suc2 using assms by auto

lemma assoc_probe_Some:
  assumes "ks \<noteq> []"
  shows "assoc_probe n ks key (probe (length ks) h j) = Some r \<longleftrightarrow>
    (\<exists>d<n. r = probe (length ks) h (j + d) \<and> stops ks key r \<and>
      (\<forall>d'<d. \<not> stops ks key (probe (length ks) h (j + d'))))"
proof (induction n arbitrary: j)
  case (Suc n)
  show ?case
  proof (cases "stops ks key (probe (length ks) h j)")
    case True
    then show ?thesis unfolding assoc_probe_Suc Ex_less_Suc2 All_less_Suc2 by auto
  next
    case False
    then show ?thesis
      unfolding assoc_probe_Suc
      by (subst first_from_Suc) (use Suc.IH [of "Suc j"] in \<open>auto simp: probe_Suc [simplified]\<close>)
  qed
qed simp

abbreviation home :: "bytes option list \<Rightarrow> bytes \<Rightarrow> nat" where
  "home ks key \<equiv> unat (assoc_hash key) mod length ks"

lemma assoc_slot_Some:
  assumes "ks \<noteq> []"
  shows "assoc_slot ks key = Some r \<longleftrightarrow>
    (\<exists>d<length ks. r = probe (length ks) (home ks key) d \<and> stops ks key r \<and>
      (\<forall>d'<d. \<not> stops ks key (probe (length ks) (home ks key) d')))"
  using assoc_probe_Some [OF assms, of "length ks" key "home ks key" 0] assms
  by (simp add: assoc_slot_def probe_0)

lemma assoc_slot_stops: "ks \<noteq> [] \<Longrightarrow> assoc_slot ks key = Some r \<Longrightarrow> r < length ks \<and> stops ks key r"
  by (auto simp: assoc_slot_Some)

lemma assoc_slot_exists:
  assumes "i < length ks" "ks ! i = None"
  obtains r where "assoc_slot ks key = Some r"
proof -
  let ?p = "probe (length ks) (home ks key)"
  have ne: "ks \<noteq> []" using assms by auto
  obtain d where d: "d < length ks" "?p d = i"
    using probe_surj [OF assms(1), of "home ks key"] ne by auto
  define m where "m = (LEAST d. stops ks key (?p d))"
  have "stops ks key (?p m)" unfolding m_def by (rule LeastI [of _ d]) (use d assms in \<open>simp add: stops_def\<close>)
  moreover have "m \<le> d" unfolding m_def by (rule Least_le) (use d assms in \<open>simp add: stops_def\<close>)
  moreover have "\<forall>d'<m. \<not> stops ks key (?p d')" using not_less_Least m_def by blast
  ultimately have "assoc_slot ks key = Some (?p m)"
    unfolding assoc_slot_Some [OF ne] using d by (intro exI [of _ m]) auto
  then show thesis by (rule that)
qed

text \<open>Filling the slot at which the probe for \<open>key\<close> stops moves no other key.\<close>

lemma assoc_slot_update:
  assumes "ks \<noteq> []" "assoc_slot ks key = Some r"
  shows "assoc_slot (ks[r := Some key]) key = Some r"
    "assoc_slot ks k = Some i \<Longrightarrow> ks ! i = Some k \<Longrightarrow> assoc_slot (ks[r := Some key]) k = Some i"
proof -
  let ?ks = "ks[r := Some key]"
  have r: "r < length ks" "stops ks key r" using assoc_slot_stops [OF assms] by auto
  have ne: "?ks \<noteq> []" using assms(1) by simp
  have keep: "\<not> stops ?ks k' x" if "\<not> stops ks k' x" "x < length ks" for k' x
    using that r by (auto simp: nth_list_update stops_def)
  obtain d where d: "d < length ks" "r = probe (length ks) (home ks key) d"
      "\<forall>d'<d. \<not> stops ks key (probe (length ks) (home ks key) d')"
    using assms(2) unfolding assoc_slot_Some [OF assms(1)] by blast
  show "assoc_slot ?ks key = Some r" unfolding assoc_slot_Some [OF ne]
  proof (intro exI [of _ d] conjI allI impI)
    show "\<not> stops ?ks key (probe (length ?ks) (home ?ks key) d')" if "d' < d" for d'
      using d(3) that assms(1) by (simp add: keep)
  qed (use d r in \<open>auto simp: stops_def\<close>)
  assume i: "assoc_slot ks k = Some i" "ks ! i = Some k"
  then obtain e where e: "e < length ks" "i = probe (length ks) (home ks k) e"
      "\<forall>e'<e. \<not> stops ks k (probe (length ks) (home ks k) e')"
    unfolding assoc_slot_Some [OF assms(1)] by blast
  show "assoc_slot ?ks k = Some i" unfolding assoc_slot_Some [OF ne]
  proof (intro exI [of _ e] conjI allI impI)
    show "\<not> stops ?ks k (probe (length ?ks) (home ?ks k) e')" if "e' < e" for e'
      using e(3) that assms(1) by (simp add: keep)
    show "stops ?ks k i" using i(2) r by (cases "i = r") (auto simp: stops_def)
  qed (use e in auto)
qed

section \<open>The invariant\<close>

text \<open>Every key is where the probe for it stops, and has a value.\<close>

definition assoc_wf :: "'v assoc \<Rightarrow> bool" where
  "assoc_wf a \<longleftrightarrow> 0 < asize a \<and> length (akeys a) = asize a \<and> length (avalues a) = asize a \<and>
     afill a = length (filter (\<lambda>k. k \<noteq> None) (akeys a)) \<and>
     (\<forall>i<asize a. \<forall>k. akeys a ! i = Some k \<longrightarrow>
        assoc_slot (akeys a) k = Some i \<and> avalues a ! i \<noteq> None)"

definition assoc_ok :: "'v assoc \<Rightarrow> bool" where
  "assoc_ok a \<longleftrightarrow> assoc_wf a \<and> afill a < asize a \<and> 6 \<le> asize a"

definition alookup :: "'v assoc \<Rightarrow> bytes \<Rightarrow> 'v option" where
  "alookup a k = (case assoc_get a k of None \<Rightarrow> None | Some v \<Rightarrow> v)"

lemma wf_slot:
  "assoc_wf a \<Longrightarrow> i < length (akeys a) \<Longrightarrow> akeys a ! i = Some k \<Longrightarrow> assoc_slot (akeys a) k = Some i"
  by (simp add: assoc_wf_def)

lemma alookup_Some:
  assumes "assoc_wf a"
  shows "alookup a k = Some v \<longleftrightarrow> (\<exists>i<asize a. akeys a ! i = Some k \<and> avalues a ! i = Some v)"
proof -
  have "akeys a \<noteq> []" using assms by (auto simp: assoc_wf_def)
  note st = assoc_slot_stops [OF this, of k]
  show ?thesis
  proof
    assume "alookup a k = Some v"
    then obtain h where "assoc_slot (akeys a) k = Some h" "akeys a ! h \<noteq> None" "avalues a ! h = Some v"
      by (auto simp: alookup_def assoc_get_def split: option.splits if_splits)
    with st [of h] assms show "\<exists>i<asize a. akeys a ! i = Some k \<and> avalues a ! i = Some v"
      by (auto simp: stops_def assoc_wf_def)
  next
    assume "\<exists>i<asize a. akeys a ! i = Some k \<and> avalues a ! i = Some v"
    then obtain i where i: "i < asize a" "akeys a ! i = Some k" "avalues a ! i = Some v" by blast
    then have "assoc_slot (akeys a) k = Some i" using assms by (auto simp: assoc_wf_def)
    with i show "alookup a k = Some v" by (simp add: alookup_def assoc_get_def)
  qed
qed

lemma assoc_init_wf: "assoc_init n = Some a \<Longrightarrow> assoc_wf a \<and> afill a = 0 \<and> asize a = n \<and> alookup a = Map.empty"
proof -
  assume a: "assoc_init n = Some a"
  then have w: "assoc_wf a" by (auto simp: assoc_init_def assoc_wf_def split: if_splits)
  have "alookup a k \<noteq> Some v" for k v
    using a unfolding alookup_Some [OF w] by (auto simp: assoc_init_def split: if_splits)
  then have "alookup a k = None" for k by (cases "alookup a k") auto
  then have "alookup a = Map.empty" by (rule ext)
  with w a show ?thesis by (auto simp: assoc_init_def split: if_splits)
qed

lemma assoc_wf_free:
  assumes "assoc_wf a" "afill a < asize a"
  obtains i where "i < asize a" "akeys a ! i = None"
  using assms length_filter_less_ex [of "\<lambda>k. k \<noteq> None" "akeys a"] that by (auto simp: assoc_wf_def)

lemma assoc_store_ok:
  assumes "assoc_wf a" "afill a < asize a"
  obtains a' where "assoc_store a key v = Some a'" "assoc_wf a'" "asize a' = asize a"
    "afill a' = (if alookup a key = None then afill a + 1 else afill a)"
    "alookup a' = (alookup a)(key \<mapsto> v)"
proof -
  obtain i where i: "i < length (akeys a)" "akeys a ! i = None"
    using assoc_wf_free [OF assms] assms by (auto simp: assoc_wf_def)
  obtain r where r: "assoc_slot (akeys a) key = Some r" using assoc_slot_exists [OF i] .
  have ne: "akeys a \<noteq> []" using i by auto
  have rr: "r < asize a" "stops (akeys a) key r"
    using assoc_slot_stops [OF ne r] assms(1) by (auto simp: assoc_wf_def)
  define a' where "a' = \<lparr>asize = asize a, afill = (if akeys a ! r = None then afill a + 1 else afill a),
    akeys = (akeys a)[r := Some key], avalues = (avalues a)[r := Some v]\<rparr>"
  have "akeys a ! r = Some key \<Longrightarrow> (akeys a)[r := Some key] = akeys a" by (metis list_update_id)
  then have st: "assoc_store a key v = Some a'" using r rr by (auto simp: assoc_store_def a'_def stops_def)
  have fill: "afill a' = length (filter (\<lambda>k. k \<noteq> None) (akeys a'))"
    using assms(1) rr length_filter_update [of r "akeys a" "\<lambda>k. k \<noteq> None" "Some key"]
    by (auto simp: assoc_wf_def a'_def stops_def)
  have slot: "assoc_slot (akeys a') k = Some j \<and> avalues a' ! j \<noteq> None"
    if "j < asize a'" "akeys a' ! j = Some k" for j k
    using that rr assms(1) assoc_slot_update [OF ne r] by (cases "j = r") (auto simp: assoc_wf_def a'_def stops_def)
  have w: "assoc_wf a'"
    using fill slot assms(1) by (simp add: assoc_wf_def a'_def)
  have lk: "akeys a ! r = None \<longleftrightarrow> alookup a key = None"
    using r rr assms(1) by (auto simp: alookup_def assoc_get_def assoc_wf_def stops_def)
  have new: "alookup a' key = Some v" unfolding alookup_Some [OF w]
    using rr assms(1) by (intro exI [of _ r]) (simp add: a'_def assoc_wf_def)
  have other: "akeys a' ! i = Some k \<and> avalues a' ! i = Some x \<longleftrightarrow> akeys a ! i = Some k \<and> avalues a ! i = Some x"
    if "k \<noteq> key" for i k x
    using that rr assms(1) by (cases "i = r") (auto simp: a'_def assoc_wf_def stops_def)
  have "alookup a' k = Some x \<longleftrightarrow> ((alookup a)(key \<mapsto> v)) k = Some x" for k x
  proof (cases "k = key")
    case False
    with other [OF this] show ?thesis
      by (simp add: alookup_Some [OF w] alookup_Some [OF assms(1)]) (simp add: a'_def)
  qed (simp add: new)
  then have "alookup a' = (alookup a)(key \<mapsto> v)" by (intro ext option_eqI)
  with st w lk show thesis by (intro that [of a']) (auto simp: a'_def)
qed

section \<open>Growing\<close>

lemma assoc_set_store:
  assumes "afill a < asize a" "5 * afill a \<le> 4 * asize a"
  shows "assoc_set_fuel (Suc n) a key v = assoc_store a key v"
  using assms by simp

definition slots_of :: "(bytes option \<times> 'v option) list \<Rightarrow> (bytes \<times> 'v) list" where
  "slots_of kvs = List.map_filter (\<lambda>(k, v). case (k, v) of (Some k, Some v) \<Rightarrow> Some (k, v) | _ \<Rightarrow> None) kvs"

text \<open>Copying into a table that is large enough never grows it.\<close>

lemma assoc_copy_ok:
  assumes "assoc_wf b" "\<forall>(k, v)\<in>set kvs. k \<noteq> None \<longrightarrow> v \<noteq> None"
    "afill b + length (slots_of kvs) < asize b" "5 * (afill b + length (slots_of kvs)) \<le> 4 * asize b + 5"
  shows "\<exists>b'. assoc_copy (Suc n) b kvs = Some b' \<and> assoc_wf b' \<and> asize b' = asize b \<and>
    afill b' \<le> afill b + length (slots_of kvs) \<and> alookup b' = alookup b ++ map_of (rev (slots_of kvs))"
  using assms
proof (induction kvs arbitrary: b)
  case Nil
  then show ?case by (simp add: slots_of_def map_filter_simps)
next
  case (Cons kv kvs)
  obtain k v where kv: "kv = (k, v)" by fastforce
  show ?case
  proof (cases k)
    case None
    with kv have sl: "slots_of (kv # kvs) = slots_of kvs" by (simp add: slots_of_def map_filter_simps)
    then show ?thesis using Cons.IH [OF Cons.prems(1)] Cons.prems None kv by simp
  next
    case (Some k')
    then obtain v' where v: "v = Some v'" using Cons.prems(2) kv by auto
    have sl: "slots_of (kv # kvs) = (k', v') # slots_of kvs"
      using kv Some v by (simp add: slots_of_def map_filter_simps)
    have room: "afill b < asize b" "5 * afill b \<le> 4 * asize b" using Cons.prems(3,4) sl by auto
    obtain b1 where b1: "assoc_store b k' v' = Some b1" "assoc_wf b1" "asize b1 = asize b"
      "afill b1 = (if alookup b k' = None then afill b + 1 else afill b)"
      "alookup b1 = (alookup b)(k' \<mapsto> v')"
      by (rule assoc_store_ok [OF Cons.prems(1) room(1)])
    have fill: "afill b1 \<le> afill b + 1" using b1(4) by (auto split: if_splits)
    have "\<exists>b'. assoc_copy (Suc n) b1 kvs = Some b' \<and> assoc_wf b' \<and> asize b' = asize b1 \<and>
      afill b' \<le> afill b1 + length (slots_of kvs) \<and> alookup b' = alookup b1 ++ map_of (rev (slots_of kvs))"
      by (rule Cons.IH [OF b1(2)]) (use Cons.prems(2-4) b1(3) fill sl in auto)
    then obtain b' where b': "assoc_copy (Suc n) b1 kvs = Some b'" "assoc_wf b'" "asize b' = asize b1"
      "afill b' \<le> afill b1 + length (slots_of kvs)" "alookup b' = alookup b1 ++ map_of (rev (slots_of kvs))"
      by blast
    have "assoc_copy (Suc n) b (kv # kvs) = Some b'"
      using kv Some v assoc_set_store [OF room, of n k' v'] b1(1) b'(1) by simp
    with b' b1(3,5) fill sl show ?thesis by auto
  qed
qed

lemma map_of_rev_distinct: "distinct (map fst kvs) \<Longrightarrow> map_of (rev kvs) = map_of kvs"
  by (rule ext, rule option_eqI) (simp add: map_of_eq_Some_iff rev_map [symmetric])

lemma slots_of_zip:
  assumes "length ks = length vs" "\<forall>i<length ks. ks ! i \<noteq> None \<longrightarrow> vs ! i \<noteq> None"
  shows "map (\<lambda>kv. Some (fst kv)) (slots_of (zip ks vs)) = filter (\<lambda>k. k \<noteq> None) ks \<and>
    set (slots_of (zip ks vs)) = {(k, v). \<exists>i<length ks. ks ! i = Some k \<and> vs ! i = Some v} \<and>
    (\<forall>(k, v)\<in>set (zip ks vs). k \<noteq> None \<longrightarrow> v \<noteq> None)"
  using assms
proof (induction ks vs rule: list_induct2)
  case (Cons k ks v vs)
  have "\<forall>i<length ks. ks ! i \<noteq> None \<longrightarrow> vs ! i \<noteq> None" using Cons.prems by auto
  note IH = Cons.IH [OF this]
  have kv: "k \<noteq> None \<longrightarrow> v \<noteq> None" using Cons.prems by auto
  have "set (slots_of (zip (k # ks) (v # vs))) =
      {(k', v'). \<exists>i<length (k # ks). (k # ks) ! i = Some k' \<and> (v # vs) ! i = Some v'}"
    unfolding length_Cons Ex_less_Suc2 using IH kv
    by (cases k; cases v) (auto simp: slots_of_def map_filter_simps)
  moreover have "map (\<lambda>kv. Some (fst kv)) (slots_of (zip (k # ks) (v # vs))) = filter (\<lambda>k. k \<noteq> None) (k # ks)"
    using IH kv by (cases k; cases v) (auto simp: slots_of_def map_filter_simps)
  moreover have "\<forall>(k, v)\<in>set (zip (k # ks) (v # vs)). k \<noteq> None \<longrightarrow> v \<noteq> None" using IH kv by auto
  ultimately show ?case by blast
qed (simp add: slots_of_def map_filter_simps)

lemma distinct_filter_nth:
  assumes "\<And>i j. i < length xs \<Longrightarrow> j < length xs \<Longrightarrow> P (xs ! i) \<Longrightarrow> xs ! i = xs ! j \<Longrightarrow> i = j"
  shows "distinct (filter P xs)"
  using assms
proof (induction xs)
  case (Cons x xs)
  have "distinct (filter P xs)"
    by (rule Cons.IH) (use Cons.prems [of "Suc i" "Suc j" for i j] in auto)
  moreover have "x \<notin> set xs" if "P x"
    using Cons.prems [of 0 "Suc j" for j] that by (auto simp: in_set_conv_nth)
  ultimately show ?case by simp
qed simp

lemma wf_slots:
  assumes "assoc_wf a"
  defines "sl \<equiv> slots_of (zip (akeys a) (avalues a))"
  shows "length sl = afill a" "map_of (rev sl) = alookup a" "distinct (map fst sl)"
    "set sl = {(k, v). alookup a k = Some v}"
    "\<forall>(k, v)\<in>set (zip (akeys a) (avalues a)). k \<noteq> None \<longrightarrow> v \<noteq> None"
proof -
  have l: "length (akeys a) = length (avalues a)" "\<forall>i<length (akeys a). akeys a ! i \<noteq> None \<longrightarrow> avalues a ! i \<noteq> None"
    using assms(1) by (auto simp: assoc_wf_def)
  note z = slots_of_zip [OF l, THEN conjunct1] slots_of_zip [OF l, THEN conjunct2, THEN conjunct1]
    slots_of_zip [OF l, THEN conjunct2, THEN conjunct2]
  show "\<forall>(k, v)\<in>set (zip (akeys a) (avalues a)). k \<noteq> None \<longrightarrow> v \<noteq> None" by (rule z(3))
  have "length (map (\<lambda>kv. Some (fst kv)) sl) = afill a" using z(1) assms(1) by (simp add: sl_def assoc_wf_def)
  then show "length sl = afill a" by simp
  have "i = j" if h: "i < length (akeys a)" "j < length (akeys a)" "akeys a ! i \<noteq> None" "akeys a ! i = akeys a ! j" for i j
  proof -
    obtain k where k: "akeys a ! i = Some k" using h(3) by auto
    then have "assoc_slot (akeys a) k = Some i" "assoc_slot (akeys a) k = Some j"
      using h wf_slot [OF assms(1), of i k] wf_slot [OF assms(1), of j k] by simp_all
    then show ?thesis by simp
  qed
  then have "distinct (filter (\<lambda>k. k \<noteq> None) (akeys a))" by (rule distinct_filter_nth)
  then have "distinct (map (\<lambda>kv. Some (fst kv)) sl)" using z(1) by (simp add: sl_def)
  then have d: "distinct (map fst sl)" by (simp add: distinct_map inj_on_def)
  show "distinct (map fst sl)" by (rule d)
  have e: "map_of sl k = Some v \<longleftrightarrow> alookup a k = Some v" for k v
    unfolding map_of_eq_Some_iff [OF d] alookup_Some [OF assms(1)]
    using z(2) assms(1) by (simp add: sl_def assoc_wf_def)
  then show "map_of (rev sl) = alookup a" unfolding map_of_rev_distinct [OF d] by (intro ext option_eqI)
  show "set sl = {(k, v). alookup a k = Some v}" using e map_of_eq_Some_iff [OF d] by auto
qed

lemma assoc_grow_ok:
  assumes "assoc_ok a" "5 * afill a > 4 * asize a" "assoc_init (asize a * 5 div 4) = Some b"
  obtains a' where "assoc_copy (Suc n) b (zip (akeys a) (avalues a)) = Some a'"
    "assoc_wf a'" "asize a' = asize a * 5 div 4" "afill a' \<le> afill a" "alookup a' = alookup a"
proof -
  let ?kvs = "zip (akeys a) (avalues a)"
  have wf: "assoc_wf a" and s: "afill a < asize a" "6 \<le> asize a" using assms(1) by (auto simp: assoc_ok_def)
  have b: "assoc_wf b" "afill b = 0" "asize b = asize a * 5 div 4" "alookup b = Map.empty"
    using assoc_init_wf [OF assms(3)] by auto
  note w = wf_slots [OF wf]
  have "\<exists>a'. assoc_copy (Suc n) b ?kvs = Some a' \<and> assoc_wf a' \<and> asize a' = asize b \<and>
    afill a' \<le> afill b + length (slots_of ?kvs) \<and> alookup a' = alookup b ++ map_of (rev (slots_of ?kvs))"
    by (rule assoc_copy_ok [OF b(1) w(5)]) (use w(1) b s in auto)
  then show thesis using that w b by auto
qed

lemma assoc_set_ok:
  assumes "assoc_ok a"
  obtains a' where "assoc_set a key v = Some a'" "assoc_ok a'" "alookup a' = (alookup a)(key \<mapsto> v)"
    "asize a \<le> asize a'"
proof -
  have wf: "assoc_wf a" and s: "afill a < asize a" "6 \<le> asize a" using assms by (auto simp: assoc_ok_def)
  have "\<exists>b. assoc_set a key v = assoc_store b key v \<and> assoc_wf b \<and> afill b + 1 < asize b \<and>
      asize a \<le> asize b \<and> alookup b = alookup a"
  proof (cases "5 * afill a > 4 * asize a")
    case True
    have "0 < asize a * 5 div 4" using s by arith
    then obtain b :: "'a assoc" where b: "assoc_init (asize a * 5 div 4) = Some b" by (auto simp: assoc_init_def)
    obtain a' where a': "assoc_copy (Suc 0) b (zip (akeys a) (avalues a)) = Some a'"
      "assoc_wf a'" "asize a' = asize a * 5 div 4" "afill a' \<le> afill a" "alookup a' = alookup a"
      by (rule assoc_grow_ok [OF assms True b])
    then show ?thesis using True s b
      by (intro exI [of _ a']) (auto simp: assoc_set_def numeral_2_eq_2)
  next
    case False
    then show ?thesis using wf s by (intro exI [of _ a]) (auto simp: assoc_set_def numeral_2_eq_2)
  qed
  then obtain b where b: "assoc_set a key v = assoc_store b key v" "assoc_wf b" "afill b + 1 < asize b"
      "asize a \<le> asize b" "alookup b = alookup a" by blast
  obtain a' where a': "assoc_store b key v = Some a'" "assoc_wf a'" "asize a' = asize b"
    "afill a' = (if alookup b key = None then afill b + 1 else afill b)"
    "alookup a' = (alookup b)(key \<mapsto> v)"
    by (rule assoc_store_ok [OF b(2)]) (use b(3) in simp)
  show thesis
    by (rule that [of a']) (use a' b s in \<open>auto simp: assoc_ok_def split: if_splits\<close>)
qed

lemma assoc_set_replace:
  assumes "assoc_ok a" "assoc_set a k v = Some a'"
  shows "assoc_ok a' \<and> alookup a' = (alookup a)(k \<mapsto> v)"
  by (rule assoc_set_ok [OF assms(1), of k v]) (use assms(2) in simp)

definition assoc_new :: "nat \<Rightarrow> 'v assoc" where
  "assoc_new n = \<lparr>asize = n, afill = 0, akeys = replicate n None, avalues = replicate n None\<rparr>"

lemma assoc_init_new: "0 < n \<Longrightarrow> assoc_init n = Some (assoc_new n)"
  by (simp add: assoc_init_def assoc_new_def)

lemma assoc_new_ok:
  "6 \<le> n \<Longrightarrow> assoc_ok (assoc_new n :: 'v assoc) \<and> alookup (assoc_new n :: 'v assoc) = Map.empty"
  using assoc_init_wf [of n "assoc_new n :: 'v assoc"] by (simp add: assoc_init_new assoc_ok_def)

interpretation pd_assoc: replace_table assoc_ok "assoc_new 20" alookup assoc_set
proof
  show "assoc_ok (assoc_new 20)" by (rule assoc_new_ok [THEN conjunct1]) simp
  show "alookup (assoc_new 20) k = None" for k by (simp add: assoc_new_ok [THEN conjunct2])
qed (auto dest: assoc_set_replace)

section \<open>Walking the table\<close>

lemma slots_of_drop:
  assumes "assoc_wf a"
  shows "map (\<lambda>(k, v). (k, the v)) (assoc_foreach_from a it) = slots_of (drop it (zip (akeys a) (avalues a)))"
proof (induction "asize a - it" arbitrary: it rule: less_induct)
  case less
  have l: "length (akeys a) = asize a" "length (avalues a) = asize a" using assms by (auto simp: assoc_wf_def)
  show ?case
  proof (cases "it < asize a")
    case False
    then show ?thesis
      by (simp add: l assoc_foreach_from.simps assoc_next_def assoc_skip.simps slots_of_def map_filter_simps)
  next
    case True
    have d: "drop it (zip (akeys a) (avalues a)) =
        (akeys a ! it, avalues a ! it) # drop (Suc it) (zip (akeys a) (avalues a))"
      using True l by (simp add: Cons_nth_drop_Suc [symmetric])
    have IH: "map (\<lambda>(k, v). (k, the v)) (assoc_foreach_from a (Suc it)) =
        slots_of (drop (Suc it) (zip (akeys a) (avalues a)))" using True by (intro less) auto
    show ?thesis
    proof (cases "akeys a ! it")
      case None
      then have "assoc_next a it = assoc_next a (Suc it)"
        using True by (simp add: assoc_next_def assoc_skip.simps [of a it])
      then have "assoc_foreach_from a it = assoc_foreach_from a (Suc it)"
        by (simp add: assoc_foreach_from.simps [of a it] assoc_foreach_from.simps [of a "Suc it"])
      then show ?thesis using IH d None by (simp add: slots_of_def map_filter_simps)
    next
      case (Some k)
      then obtain v where v: "avalues a ! it = Some v" using assms True by (auto simp: assoc_wf_def)
      have "assoc_next a it = Some (k, Some v, Suc it)"
        using True Some v by (simp add: assoc_next_def assoc_skip.simps [of a it])
      then have "assoc_foreach_from a it = (k, Some v) # assoc_foreach_from a (Suc it)"
        by (simp add: assoc_foreach_from.simps [of a it])
      then show ?thesis using IH d Some v by (simp add: slots_of_def map_filter_simps)
    qed
  qed
qed

lemma foreach_values: "(k, v) \<in> set (assoc_foreach_from a it) \<Longrightarrow> assoc_wf a \<Longrightarrow> v \<noteq> None"
proof (induction a it rule: assoc_foreach_from.induct)
  case (1 a it)
  show ?case
  proof (cases "assoc_next a it")
    case (Some r)
    then obtain k' v' it' where r: "assoc_next a it = Some (k', v', it')" by (cases r) auto
    then have "v' \<noteq> None"
      using 1(3) by (auto simp: assoc_next_def Let_def assoc_wf_def split: if_splits)
    then show ?thesis using 1 r by (auto simp: assoc_foreach_from.simps [of a it])
  qed (use 1(2) in \<open>simp add: assoc_foreach_from.simps [of a it]\<close>)
qed

lemma assoc_foreach_ok:
  assumes "assoc_wf a"
  shows "distinct (map fst (assoc_foreach a))" "set (assoc_foreach a) = {(k, Some v) | k v. alookup a k = Some v}"
proof -
  let ?f = "\<lambda>(k, v). (k, the v)"
  have m: "map ?f (assoc_foreach a) = slots_of (zip (akeys a) (avalues a))"
    using slots_of_drop [OF assms, of 0] by (simp add: assoc_foreach_def)
  have "map fst (map ?f (assoc_foreach a)) = map fst (assoc_foreach a)" by auto
  then show "distinct (map fst (assoc_foreach a))" unfolding m using wf_slots(3) [OF assms] by simp
  have v: "\<forall>(k, v)\<in>set (assoc_foreach a). v \<noteq> None"
    using foreach_values [OF _ assms] by (fastforce simp: assoc_foreach_def)
  then have "map (\<lambda>(k, v). (k, Some v)) (map ?f (assoc_foreach a)) = map id (assoc_foreach a)"
    unfolding map_map by (intro map_cong) auto
  then have "set (assoc_foreach a) = (\<lambda>(k, v). (k, Some v)) ` set (slots_of (zip (akeys a) (avalues a)))"
    unfolding m by (metis list.map_id set_map)
  then show "set (assoc_foreach a) = {(k, Some v) | k v. alookup a k = Some v}"
    unfolding wf_slots(4) [OF assms] by auto
qed

lemma assoc_get_total: "assoc_ok a \<Longrightarrow> assoc_get a k = Some (alookup a k)"
proof -
  assume a: "assoc_ok a"
  then obtain i where "i < length (akeys a)" "akeys a ! i = None"
    using assoc_wf_free [of a] by (auto simp: assoc_ok_def assoc_wf_def)
  then obtain r where "assoc_slot (akeys a) k = Some r" by (rule assoc_slot_exists)
  then show ?thesis by (simp add: alookup_def assoc_get_def)
qed

lemma put_all_total: "assoc_ok a \<Longrightarrow> \<exists>a'. put_all assoc_set a kvs = Some a'"
proof (induction kvs arbitrary: a)
  case (Cons kv kvs)
  obtain k v where kv: "kv = (k, v)" by fastforce
  obtain a1 where "assoc_set a k v = Some a1" "assoc_ok a1" by (rule assoc_set_ok [OF Cons.prems])
  then show ?case using Cons.IH [of a1] kv by simp
qed simp

text \<open>
  C14: the table of the domain mapper implements a finite map. Starting from the table of 20 slots the
  mapper creates, any sequence of \<open>assoc_set\<close> calls, repeated keys and growth included, returns; then
  \<open>assoc_get\<close> returns for every key, with the value that was set last, and \<open>assoc_foreach\<close> visits
  every key exactly once, with its value.
\<close>

theorem assoc_history:
  "\<exists>a. put_all assoc_set (assoc_new 20) kvs = Some a \<and>
    (\<forall>k. assoc_get a k = Some (map_of (rev kvs) k)) \<and>
    distinct (map fst (assoc_foreach a)) \<and>
    set (assoc_foreach a) = {(k, Some v) | k v. map_of (rev kvs) k = Some v}"
proof -
  have new: "assoc_ok (assoc_new 20)" by (rule assoc_new_ok [THEN conjunct1]) simp
  obtain a where a: "put_all assoc_set (assoc_new 20) kvs = Some a" using put_all_total [OF new] by blast
  with pd_assoc.put_all_replace [OF new a] have "assoc_ok a" "alookup a = map_of (rev kvs)"
    by (simp_all add: assoc_new_ok [THEN conjunct2])
  with a assoc_foreach_ok [of a] show ?thesis by (auto simp: assoc_get_total assoc_ok_def)
qed

end
