(* ===== verification/C_Lib.thy ===== *)
theory C_Lib
  imports C_Mem
begin

text \<open>
  Functions of the C library that several daemons use: decimal numbers (\<open>atoi\<close>, \<open>%d\<close> and \<open>%zd\<close> of \<open>printf\<close>) and
  path names, with the facts about them that the daemons share.
\<close>

section \<open>Decimal numbers\<close>

text \<open>The number that a string of digits denotes, and its digits.\<close>

definition digits_value :: "bytes \<Rightarrow> nat" where
  "digits_value b = foldl (\<lambda>n ch. 10 * n + (unat ch - 48)) 0 b"

fun dec_digits :: "nat \<Rightarrow> bytes" where
  "dec_digits n = (if n < 10 then [48 + of_nat n] else dec_digits (n div 10) @ [48 + of_nat (n mod 10)])"

declare dec_digits.simps [simp del]

lemma digit_char: "d < 10 \<Longrightarrow> isdigit (48 + of_nat d) \<and> unat (48 + of_nat d :: u8) = 48 + d"
proof -
  assume d: "d < 10"
  then have "unat (48 + of_nat d :: u8) = 48 + d" by (simp add: unat_word_ariths unat_of_nat)
  then show ?thesis using d by (simp add: isdigit_def word_le_nat_alt)
qed

lemma dec_digits_ok: "(\<forall>d\<in>set (dec_digits n). isdigit d) \<and> digits_value (dec_digits n) = n \<and> dec_digits n \<noteq> []"
proof (induction n rule: less_induct)
  case (less n)
  show ?case
  proof (cases "n < 10")
    case True
    then show ?thesis using digit_char [OF True] by (simp add: dec_digits.simps [of n] digits_value_def)
  next
    case False
    then have "n div 10 < n" by simp
    from less [OF this] digit_char [of "n mod 10"] False show ?thesis
      by (auto simp: dec_digits.simps [of n] digits_value_def)
  qed
qed

lemma dec_digits_length: "n < 10 ^ Suc k \<Longrightarrow> length (dec_digits n) \<le> Suc k"
proof (induction k arbitrary: n)
  case (Suc k)
  show ?case
  proof (cases "n < 10")
    case False
    have "n div 10 < 10 ^ Suc k" using Suc.prems by (simp add: less_mult_imp_div_less)
    then show ?thesis using False Suc.IH [of "n div 10"] by (simp add: dec_digits.simps [of n])
  qed (simp add: dec_digits.simps [of n])
qed (simp add: dec_digits.simps)

text \<open>\<open>atoi\<close>, which is \<open>strtol\<close> converted to \<open>int\<close>.\<close>

definition atoi :: "bytes \<Rightarrow> u32" where
  "atoi s =
    (let s = dropWhile isspace s;
         neg = (s \<noteq> [] \<and> hd s = 45);
         s = (if s \<noteq> [] \<and> (hd s = 43 \<or> hd s = 45) then tl s else s);
         v = int (digits_value (takeWhile isdigit s))
     in of_int (if neg then max (- (2 ^ 63)) (- v) else min (2 ^ 63 - 1) v))"

definition dec_int :: "int \<Rightarrow> bytes" where
  "dec_int n = (if n < 0 then 45 # dec_digits (nat (- n)) else dec_digits (nat n))"

lemma atoi_digits:
  assumes "n < 2 ^ 31"
  shows "atoi (dec_digits n) = of_nat n"
proof -
  note d = dec_digits_ok [of n]
  obtain c cs where c: "dec_digits n = c # cs" using d by (cases "dec_digits n") auto
  then have "isdigit c" using d by simp
  then have "\<not> isspace c" "c \<noteq> 43" "c \<noteq> 45" by (auto simp: isdigit_def isspace_def word_le_nat_alt)
  then have "dropWhile isspace (dec_digits n) = dec_digits n" "hd (dec_digits n) \<noteq> 45" "hd (dec_digits n) \<noteq> 43" using c by auto
  moreover have t: "takeWhile isdigit (dec_digits n) = dec_digits n" using d by (simp add: takeWhile_eq_all_conv)
  ultimately show ?thesis using d assms by (simp add: atoi_def Let_def t min_def)
qed

section \<open>Path names\<close>

text \<open>\<open>dirname\<close> of the C library, which leaves its argument as it is on the target.\<close>

definition dirname :: "bytes \<Rightarrow> bytes" where
  "dirname path =
    (let r1 = dropWhile (\<lambda>c. c = 47) (rev path);
         r2 = dropWhile (\<lambda>c. c \<noteq> 47) r1;
         r3 = dropWhile (\<lambda>c. c = 47) r2
     in if path = [] then [46] else if r1 = [] then [47] else if r2 = [] then [46]
        else if r3 = [] then [47] else rev r3)"

definition dots :: "bytes \<Rightarrow> bool" where
  "dots name \<longleftrightarrow> name = [46] \<or> name = [46, 46]"

section \<open>Strings\<close>

lemma cstr_append: "0 \<notin> set bs \<Longrightarrow> cstr (bs @ 0 # cs) = bs"
  by (induction bs) (auto simp: cstr_def)

end
