(* ===== verification/Pd_Json.thy ===== *)
theory Pd_Json
  imports C_Lib
begin

text \<open>
  The JSON reader of the protection-domain mapper, \<open>qcom/pd-mapper/json.c\<close>: a recursive-descent parser
  over a global buffer and position. The position is an integer because \<open>unput\<close> decrements it also
  after \<open>input\<close> has returned the end of the buffer without moving; a read before the buffer is \<open>Bad\<close>.
  The recursion of the parsing functions is bounded by fuel and \<open>Deep\<close> is running out of it. A node
  is a \<open>json\<close> value, and the children of an object carry their keys. Allocation is taken to succeed.

  Shown here: fuel three times the length of the file is always enough unless the file ends with an
  opening bracket, in which case the parser may recurse for ever; a printed value is read back; the
  last closing bracket of a file may close any number of levels.
\<close>

section \<open>Results\<close>

datatype json = JSON_TRUE | JSON_FALSE | JSON_NULL | JSON_NUMBER nat | JSON_STRING bytes
  | JSON_ARRAY "json list" | JSON_OBJECT "(bytes \<times> json) list"

text \<open>The results \<open>-1\<close>, \<open>0\<close> and \<open>1\<close> of the parsing functions, the last with what was read.\<close>

datatype 'a jret = Fail | Nomatch | Match 'a

datatype 'a jres = Deep | Bad | Got 'a int

fun jbind :: "'a jres \<Rightarrow> ('a \<Rightarrow> int \<Rightarrow> 'b jres) \<Rightarrow> 'b jres" where
  "jbind Deep f = Deep"
| "jbind Bad f = Bad"
| "jbind (Got a p) f = f a p"

lemma jbind_cong [fundef_cong]:
  "r = r' \<Longrightarrow> (\<And>a p. r' = Got a p \<Longrightarrow> f a p = g a p) \<Longrightarrow> jbind r f = jbind r' g"
  by (cases r') auto

lemma jbind_eq_Got: "jbind r f = Got b q \<longleftrightarrow> (\<exists>a p. r = Got a p \<and> f a p = Got b q)"
  by (cases r) auto

section \<open>The input\<close>

definition input :: "bytes \<Rightarrow> int \<Rightarrow> u8 jres" where
  "input buf pos = (if pos \<ge> int (length buf) then Got 0 pos
     else if pos < 0 then Bad else Got (buf ! nat pos) (pos + 1))"

definition unput :: "int \<Rightarrow> int" where "unput pos = pos - 1"

lemma input_Got: "input buf pos = Got ch pos' \<Longrightarrow> ch \<noteq> 0 \<Longrightarrow> pos' = pos + 1 \<and> pos < int (length buf)"
  by (auto simp: input_def split: if_splits)

function json_skip_whitespace :: "bytes \<Rightarrow> int \<Rightarrow> unit jres" where
  "json_skip_whitespace buf pos = jbind (input buf pos) (\<lambda>ch pos.
     if ch \<noteq> 0 \<and> isspace ch then json_skip_whitespace buf pos else Got () (unput pos))"
  by pat_completeness auto
termination
  by (relation "measure (\<lambda>(buf, pos). nat (int (length buf) - pos))") (auto dest: input_Got)

declare json_skip_whitespace.simps [simp del]

section \<open>Strings, numbers and keywords\<close>

text \<open>The character that ends the loop, and the characters stored, at most 127.\<close>

function string_loop :: "bytes \<Rightarrow> bytes \<Rightarrow> int \<Rightarrow> (u8 \<times> bytes) jres" where
  "string_loop buf b pos = jbind (input buf pos) (\<lambda>ch pos.
     if ch \<noteq> 0 \<and> ch \<noteq> 34 \<and> length b < 127 then string_loop buf (b @ [ch]) pos else Got (ch, b) pos)"
  by pat_completeness auto
termination
  by (relation "measure (\<lambda>(buf, b, pos). 127 - length b)") auto

declare string_loop.simps [simp del]

definition json_parse_string :: "bytes \<Rightarrow> int \<Rightarrow> bytes jret jres" where
  "json_parse_string buf pos = jbind (input buf pos) (\<lambda>ch pos.
     if ch \<noteq> 34 then Got Nomatch (unput pos)
     else jbind (string_loop buf [] pos) (\<lambda>(ch, b) pos.
       if ch = 0 then Got Fail pos else Got (Match b) pos))"

function number_loop :: "bytes \<Rightarrow> bytes \<Rightarrow> int \<Rightarrow> bytes jres" where
  "number_loop buf b pos = jbind (input buf pos) (\<lambda>ch pos.
     if ch \<noteq> 0 \<and> isdigit ch \<and> length b < 19 then number_loop buf (b @ [ch]) pos else Got b (unput pos))"
  by pat_completeness auto
termination
  by (relation "measure (\<lambda>(buf, b, pos). 19 - length b)") auto

declare number_loop.simps [simp del]

text \<open>\<open>strtod\<close> on at most 19 decimal digits: the nearest number of 53 bits, ties to even.\<close>

fun round_double :: "nat \<Rightarrow> nat \<Rightarrow> nat" where
  "round_double 0 n = n"
| "round_double (Suc k) n =
    (if n < 2 ^ 53 then n
     else let e = 2 ^ Suc k; q = n div e; r = n mod e; h = 2 ^ k
       in if 2 ^ 52 \<le> q then e * (if r < h \<or> r = h \<and> even q then q else q + 1)
          else round_double k n)"

definition strtod :: "bytes \<Rightarrow> nat" where
  "strtod b = round_double 11 (digits_value b)"

definition json_parse_number :: "bytes \<Rightarrow> int \<Rightarrow> nat jret jres" where
  "json_parse_number buf pos = jbind (number_loop buf [] pos) (\<lambda>b pos.
     if b = [] then Got Nomatch pos else Got (Match (strtod b)) pos)"

fun keyword_loop :: "bytes \<Rightarrow> bytes \<Rightarrow> u8 \<Rightarrow> int \<Rightarrow> bytes jres" where
  "keyword_loop buf [] ch pos = Got [] pos"
| "keyword_loop buf (c # m) ch pos =
    (if c = ch then jbind (input buf pos) (keyword_loop buf m) else Got m pos)"

abbreviation (input) "kw_true \<equiv> [116, 114, 117, 101 :: u8]"
abbreviation (input) "kw_false \<equiv> [102, 97, 108, 115, 101 :: u8]"
abbreviation (input) "kw_null \<equiv> [110, 117, 108, 108 :: u8]"

definition json_parse_keyword :: "bytes \<Rightarrow> int \<Rightarrow> json jret jres" where
  "json_parse_keyword buf pos = jbind (input buf pos) (\<lambda>ch pos.
    let finish = (\<lambda>m v. jbind (keyword_loop buf m ch pos) (\<lambda>m pos.
      Got (if m = [] then Match v else Fail) (unput pos)))
    in if ch = 116 then finish kw_true JSON_TRUE
       else if ch = 102 then finish kw_false JSON_FALSE
       else if ch = 110 then finish kw_null JSON_NULL
       else Got Nomatch (unput pos))"

section \<open>Values\<close>

fun map_ret :: "('a \<Rightarrow> 'b) \<Rightarrow> 'a jret jres \<Rightarrow> 'b jret jres" where
  "map_ret f (Got (Match a) p) = Got (Match (f a)) p"
| "map_ret f (Got Fail p) = Got Fail p"
| "map_ret f (Got Nomatch p) = Got Nomatch p"
| "map_ret f Deep = Deep"
| "map_ret f Bad = Bad"

text \<open>
  A parser is tried after another one that did not match; the label \<open>out\<close> skips white space after
  any of them.
\<close>

fun orelse :: "json jret jres \<Rightarrow> (int \<Rightarrow> json jret jres) \<Rightarrow> json jret jres" where
  "orelse (Got Nomatch p) f = f p"
| "orelse r f = r"

definition out :: "bytes \<Rightarrow> json jret jres \<Rightarrow> json jret jres" where
  "out buf r = jbind r (\<lambda>v pos. if v = Nomatch then Got Fail pos
     else jbind (json_skip_whitespace buf pos) (\<lambda>_. Got v))"

text \<open>
  The loops and \<open>json_parse_property\<close> take the parser of values, \<open>pv\<close>, as an argument; fuel bounds the
  number of their rounds and the depth of the nesting of values.
\<close>

fun array_loop :: "(int \<Rightarrow> json jret jres) \<Rightarrow> nat \<Rightarrow> bytes \<Rightarrow> json list \<Rightarrow> int \<Rightarrow> json jret jres" where
  "array_loop pv 0 buf vs pos = Deep"
| "array_loop pv (Suc n) buf vs pos = jbind (pv pos) (\<lambda>r pos.
     case r of
       Match v \<Rightarrow> jbind (input buf pos) (\<lambda>ch pos.
         if ch = 93 then Got (Match (JSON_ARRAY (vs @ [v]))) pos
         else if ch = 44 then array_loop pv n buf (vs @ [v]) pos
         else Got Fail pos)
     | _ \<Rightarrow> Got Fail pos)"

definition json_parse_array :: "(int \<Rightarrow> json jret jres) \<Rightarrow> nat \<Rightarrow> bytes \<Rightarrow> int \<Rightarrow> json jret jres" where
  "json_parse_array pv n buf pos = jbind (input buf pos) (\<lambda>ch pos.
     if ch \<noteq> 91 then Got Nomatch (unput pos) else array_loop pv n buf [] pos)"

definition json_parse_property :: "(int \<Rightarrow> json jret jres) \<Rightarrow> bytes \<Rightarrow> int \<Rightarrow> (bytes \<times> json) jret jres" where
  "json_parse_property pv buf pos = jbind (json_skip_whitespace buf pos) (\<lambda>_ pos.
     jbind (json_parse_string buf pos) (\<lambda>r pos.
     case r of
       Match key \<Rightarrow> jbind (json_skip_whitespace buf pos) (\<lambda>_ pos.
         jbind (input buf pos) (\<lambda>ch pos.
         if ch \<noteq> 58 then Got Fail pos
         else jbind (pv pos) (\<lambda>r pos.
           case r of Match v \<Rightarrow> Got (Match (key, v)) pos | _ \<Rightarrow> Got Fail pos)))
     | _ \<Rightarrow> Got Fail pos))"

fun object_loop :: "(int \<Rightarrow> json jret jres) \<Rightarrow> nat \<Rightarrow> bytes \<Rightarrow> (bytes \<times> json) list \<Rightarrow> int \<Rightarrow> json jret jres" where
  "object_loop pv 0 buf vs pos = Deep"
| "object_loop pv (Suc n) buf vs pos = jbind (json_parse_property pv buf pos) (\<lambda>r pos.
     case r of
       Match v \<Rightarrow> jbind (input buf pos) (\<lambda>ch pos.
         if ch = 125 then Got (Match (JSON_OBJECT (vs @ [v]))) pos
         else if ch = 44 then object_loop pv n buf (vs @ [v]) pos
         else Got Fail pos)
     | _ \<Rightarrow> Got Fail pos)"

definition json_parse_object :: "(int \<Rightarrow> json jret jres) \<Rightarrow> nat \<Rightarrow> bytes \<Rightarrow> int \<Rightarrow> json jret jres" where
  "json_parse_object pv n buf pos = jbind (input buf pos) (\<lambda>ch pos.
     if ch \<noteq> 123 then Got Nomatch (unput pos) else object_loop pv n buf [] pos)"

fun json_parse_value :: "nat \<Rightarrow> bytes \<Rightarrow> int \<Rightarrow> json jret jres" where
  "json_parse_value 0 buf pos = Deep"
| "json_parse_value (Suc n) buf pos = jbind (json_skip_whitespace buf pos) (\<lambda>_ pos.
     out buf
      (orelse (json_parse_object (json_parse_value n buf) n buf pos) (\<lambda>pos.
       orelse (json_parse_array (json_parse_value n buf) n buf pos) (\<lambda>pos.
       orelse (map_ret JSON_STRING (json_parse_string buf pos)) (\<lambda>pos.
       orelse (map_ret JSON_NUMBER (json_parse_number buf pos)) (\<lambda>pos.
       json_parse_keyword buf pos))))))"

text \<open>The root, \<open>None\<close> for a null pointer.\<close>

definition parse_root :: "nat \<Rightarrow> bytes \<Rightarrow> json option jres" where
  "parse_root fuel buf = jbind (json_parse_value fuel buf 0) (\<lambda>r.
     Got (case r of Match v \<Rightarrow> Some v | _ \<Rightarrow> None))"

definition json_parse :: "nat \<Rightarrow> bytes \<Rightarrow> json option jres" where
  "json_parse fuel json = parse_root fuel (cstr json)"

text \<open>The contents of the file, \<open>None\<close> when it cannot be opened or read as a whole.\<close>

definition json_parse_file :: "nat \<Rightarrow> bytes option \<Rightarrow> json option jres" where
  "json_parse_file fuel file = (case file of None \<Rightarrow> Got None 0 | Some buf \<Rightarrow> parse_root fuel buf)"

section \<open>Access\<close>

fun find_key :: "bytes \<Rightarrow> (bytes \<times> json) list \<Rightarrow> json option" where
  "find_key key [] = None"
| "find_key key ((k, v) # it) = (if k = key then Some v else find_key key it)"

definition json_get_child :: "json \<Rightarrow> bytes \<Rightarrow> json option" where
  "json_get_child obj key = (case obj of JSON_OBJECT kvs \<Rightarrow> find_key key kvs | _ \<Rightarrow> None)"

definition json_count_children :: "json option \<Rightarrow> int" where
  "json_count_children arr = (case arr of Some (JSON_ARRAY vs) \<Rightarrow> int (length vs) | _ \<Rightarrow> -1)"

definition json_get_number :: "json option \<Rightarrow> bytes \<Rightarrow> nat option" where
  "json_get_number obj key = (case obj of
     Some (JSON_OBJECT kvs) \<Rightarrow> (case find_key key kvs of Some (JSON_NUMBER n) \<Rightarrow> Some n | _ \<Rightarrow> None)
   | _ \<Rightarrow> None)"

definition json_get_string :: "json option \<Rightarrow> bytes \<Rightarrow> bytes option" where
  "json_get_string obj key = (case obj of
     Some (JSON_OBJECT kvs) \<Rightarrow> (case find_key key kvs of Some (JSON_STRING s) \<Rightarrow> Some s | _ \<Rightarrow> None)
   | _ \<Rightarrow> None)"

text \<open>The strings \<open>json_free\<close> releases, keys and values in the order of the traversal.\<close>

fun json_free :: "json \<Rightarrow> bytes list" where
  "json_free (JSON_OBJECT kvs) = concat (map (\<lambda>(k, v). k # json_free v) kvs)"
| "json_free (JSON_ARRAY vs) = concat (map json_free vs)"
| "json_free (JSON_STRING s) = [s]"
| "json_free _ = []"

section \<open>Termination\<close>

text \<open>
  A parser behaves at position \<open>p\<close> of a buffer of \<open>l\<close> bytes when it returns, and not before \<open>p\<close> except
  for the step back from the end.
\<close>

definition fine :: "int \<Rightarrow> int \<Rightarrow> 'a jres \<Rightarrow> bool" where
  "fine l p r \<longleftrightarrow> (\<exists>a q. r = Got a q \<and> min p (l - 1) \<le> q \<and> q \<le> l)"

lemma fineI: "min p (l - 1) \<le> q \<Longrightarrow> q \<le> l \<Longrightarrow> fine l p (Got a q)"
  by (simp add: fine_def)

lemma fine_jbind:
  assumes "fine l p r" "\<And>a q. r = Got a q \<Longrightarrow> min p (l - 1) \<le> q \<Longrightarrow> q \<le> l \<Longrightarrow> fine l p (f a q)"
  shows "fine l p (jbind r f)"
  using assms by (auto simp: fine_def)

lemma fine_mono: "fine l p r \<Longrightarrow> p' \<le> p \<or> l - 1 \<le> p \<Longrightarrow> fine l p' r"
  by (auto simp: fine_def)

lemma input_cases:
  assumes "0 \<le> p" "p \<le> int (length buf)"
  obtains (char) "p < int (length buf)" "input buf p = Got (buf ! nat p) (p + 1)"
  | (eof) "p = int (length buf)" "input buf p = Got 0 p"
  using assms that by (cases "p < int (length buf)") (auto simp: input_def)

lemma skip_step: "input buf p = Got ch q \<Longrightarrow> json_skip_whitespace buf p =
    (if ch \<noteq> 0 \<and> isspace ch then json_skip_whitespace buf q else Got () (q - 1))"
  by (subst json_skip_whitespace.simps) (simp add: unput_def)

lemma string_step: "input buf p = Got ch q \<Longrightarrow> string_loop buf b p =
    (if ch \<noteq> 0 \<and> ch \<noteq> 34 \<and> length b < 127 then string_loop buf (b @ [ch]) q else Got (ch, b) q)"
  by (subst string_loop.simps) simp

lemma number_step: "input buf p = Got ch q \<Longrightarrow> number_loop buf b p =
    (if ch \<noteq> 0 \<and> isdigit ch \<and> length b < 19 then number_loop buf (b @ [ch]) q else Got b (q - 1))"
  by (subst number_loop.simps) (simp add: unput_def)

lemma skip_fine:
  assumes "0 \<le> p" "p \<le> int (length buf)" "buf \<noteq> []"
  shows "\<exists>q. json_skip_whitespace buf p = Got () q \<and> min p (int (length buf) - 1) \<le> q \<and>
    q \<le> int (length buf) - 1 \<and> 0 \<le> q"
  using assms
proof (induction "nat (int (length buf) - p)" arbitrary: p rule: less_induct)
  case less
  have l: "1 \<le> int (length buf)" using less.prems by (cases buf) auto
  from less.prems(1,2) show ?case
  proof (cases rule: input_cases)
    case eof
    then show ?thesis using l by (auto simp: skip_step)
  next
    case char
    show ?thesis
    proof (cases "buf ! nat p \<noteq> 0 \<and> isspace (buf ! nat p)")
      case True
      have "\<exists>q. json_skip_whitespace buf (p + 1) = Got () q \<and> min (p + 1) (int (length buf) - 1) \<le> q \<and>
        q \<le> int (length buf) - 1 \<and> 0 \<le> q"
        by (rule less.hyps) (use char less.prems in auto)
      then show ?thesis using True char by (auto simp: skip_step)
    qed (use char less.prems l in \<open>auto simp: skip_step\<close>)
  qed
qed

lemma string_loop_fine:
  assumes "0 \<le> p" "p \<le> int (length buf)"
  shows "\<exists>ch b' q. string_loop buf b p = Got (ch, b') q \<and> p \<le> q \<and> q \<le> int (length buf) \<and>
    (ch \<noteq> 0 \<longrightarrow> p < q)"
  using assms
proof (induction "127 - length b" arbitrary: b p rule: less_induct)
  case less
  from less.prems show ?case
  proof (cases rule: input_cases)
    case eof
    then show ?thesis by (auto simp: string_step)
  next
    case char
    show ?thesis
    proof (cases "buf ! nat p \<noteq> 0 \<and> buf ! nat p \<noteq> 34 \<and> length b < 127")
      case True
      have "\<exists>ch b' q. string_loop buf (b @ [buf ! nat p]) (p + 1) = Got (ch, b') q \<and> p + 1 \<le> q \<and>
        q \<le> int (length buf) \<and> (ch \<noteq> 0 \<longrightarrow> p + 1 < q)"
        by (rule less.hyps) (use char less.prems True in auto)
      then show ?thesis using True char by (fastforce simp: string_step)
    qed (use char less.prems in \<open>auto simp: string_step\<close>)
  qed
qed

text \<open>A string that is read spans at least its two quotes.\<close>

lemma json_parse_string_fine:
  assumes "0 \<le> p" "p \<le> int (length buf)"
  shows "\<exists>r q. json_parse_string buf p = Got r q \<and> min p (int (length buf) - 1) \<le> q \<and>
    q \<le> int (length buf) \<and> (\<forall>b. r = Match b \<longrightarrow> p + 2 \<le> q)"
  using assms
proof (cases rule: input_cases)
  case char
  show ?thesis
  proof (cases "buf ! nat p = 34")
    case True
    have "\<exists>ch b' q. string_loop buf [] (p + 1) = Got (ch, b') q \<and> p + 1 \<le> q \<and> q \<le> int (length buf) \<and>
      (ch \<noteq> 0 \<longrightarrow> p + 1 < q)"
      by (rule string_loop_fine) (use assms char in auto)
    then show ?thesis using True char by (auto simp: json_parse_string_def)
  qed (use char in \<open>auto simp: json_parse_string_def unput_def\<close>)
qed (auto simp: json_parse_string_def unput_def)

lemma number_loop_fine:
  assumes "0 \<le> p" "p \<le> int (length buf)" "buf \<noteq> []"
  shows "\<exists>b' q. number_loop buf b p = Got b' q \<and> min p (int (length buf) - 1) \<le> q \<and> q \<le> int (length buf)"
  using assms
proof (induction "19 - length b" arbitrary: b p rule: less_induct)
  case less
  from less.prems(1,2) show ?case
  proof (cases rule: input_cases)
    case eof
    then show ?thesis by (auto simp: number_step)
  next
    case char
    show ?thesis
    proof (cases "buf ! nat p \<noteq> 0 \<and> isdigit (buf ! nat p) \<and> length b < 19")
      case True
      have "\<exists>b' q. number_loop buf (b @ [buf ! nat p]) (p + 1) = Got b' q \<and>
          min (p + 1) (int (length buf) - 1) \<le> q \<and> q \<le> int (length buf)"
        by (rule less.hyps) (use True char less.prems in auto)
      then show ?thesis using True char by (auto simp: number_step)
    qed (use char less.prems in \<open>auto simp: number_step\<close>)
  qed
qed

lemma json_parse_number_fine:
  assumes "0 \<le> p" "p \<le> int (length buf)" "buf \<noteq> []"
  shows "fine (int (length buf)) p (json_parse_number buf p)"
  using number_loop_fine [OF assms, of "[]"] by (auto simp: json_parse_number_def fine_def)

lemma keyword_loop_fine:
  assumes "0 \<le> p" "p \<le> int (length buf)"
  shows "\<exists>m' q. keyword_loop buf m ch p = Got m' q \<and> p \<le> q \<and> q \<le> int (length buf)"
  using assms
proof (induction m arbitrary: ch p)
  case (Cons c m)
  from Cons.prems show ?case
  proof (cases rule: input_cases)
    case char
    then show ?thesis using Cons.IH [of "p + 1" "buf ! nat p"] Cons.prems by auto
  next
    case eof
    then show ?thesis using Cons.IH [of p 0] Cons.prems by auto
  qed
qed simp

lemma json_parse_keyword_fine:
  assumes "0 \<le> p" "p \<le> int (length buf)"
  shows "fine (int (length buf)) p (json_parse_keyword buf p)"
  using assms
proof (cases rule: input_cases)
  case char
  have "\<exists>m' q. keyword_loop buf m (buf ! nat p) (p + 1) = Got m' q \<and> p + 1 \<le> q \<and> q \<le> int (length buf)" for m
    by (rule keyword_loop_fine) (use assms char in auto)
  from this [of kw_true] this [of kw_false] this [of kw_null] show ?thesis
    using char by (auto simp: json_parse_keyword_def fine_def unput_def Let_def)
qed (simp add: json_parse_keyword_def fine_def unput_def)

lemma json_parse_property_fine:
  fixes p :: int and buf :: bytes
  defines "l \<equiv> int (length buf)"
  assumes p: "0 \<le> p" "p \<le> l" "buf \<noteq> []" and pv: "\<forall>p'. p + 1 \<le> p' \<and> p' \<le> l \<longrightarrow> fine l p' (pv p')"
  shows "\<exists>r q. json_parse_property pv buf p = Got r q \<and> min p (l - 1) \<le> q \<and> q \<le> l \<and> (p = l \<longrightarrow> r = Fail)"
proof -
  obtain q1 where q1: "json_skip_whitespace buf p = Got () q1" "min p (l - 1) \<le> q1" "q1 \<le> l - 1" "0 \<le> q1"
    using skip_fine [of p buf] p l_def by auto
  obtain r q2 where q2: "json_parse_string buf q1 = Got r q2" "min q1 (l - 1) \<le> q2" "q2 \<le> l"
    "\<forall>b. r = Match b \<longrightarrow> q1 + 2 \<le> q2"
    using json_parse_string_fine [of q1 buf] q1 l_def by auto
  show ?thesis
  proof (cases "\<exists>b. r = Match b")
    case False
    then show ?thesis using q1 q2 by (cases r) (auto simp: json_parse_property_def)
  next
    case True
    then obtain b where b: "r = Match b" ..
    obtain q3 where q3: "json_skip_whitespace buf q2 = Got () q3" "min q2 (l - 1) \<le> q3" "q3 \<le> l - 1" "0 \<le> q3"
      using skip_fine [of q2 buf] q1 q2 b p l_def by auto
    have i: "input buf q3 = Got (buf ! nat q3) (q3 + 1)" using q3 by (auto simp: input_def l_def)
    have "p + 1 \<le> q3 + 1" "q3 + 1 \<le> l" "p < l" using q1 q2 q3 b by auto
    then have "fine l (q3 + 1) (pv (q3 + 1))" using pv by auto
    then show ?thesis using q1 q2 q3 b i \<open>p < l\<close>
      by (auto simp: json_parse_property_def fine_def split: jret.splits)
  qed
qed

lemma object_loop_fine:
  fixes p :: int
  assumes "0 \<le> p" "p \<le> int (length buf)" "buf \<noteq> []"
    "\<forall>p'. p + 1 \<le> p' \<and> p' \<le> int (length buf) \<longrightarrow> fine (int (length buf)) p' (pv p')"
    "int (length buf) - p + 1 \<le> int n"
  shows "fine (int (length buf)) p (object_loop pv n buf vs p)"
  using assms
proof (induction n arbitrary: p vs)
  case (Suc n)
  let ?l = "int (length buf)"
  obtain r q where r: "json_parse_property pv buf p = Got r q" "min p (?l - 1) \<le> q" "q \<le> ?l" "p = ?l \<longrightarrow> r = Fail"
    using json_parse_property_fine [OF Suc.prems(1-4)] by blast
  show ?case
  proof (cases "\<exists>v. r = Match v")
    case False
    then show ?thesis using r by (cases r) (auto intro: fineI)
  next
    case True
    then obtain v where v: "r = Match v" and pl: "p < ?l" using r Suc.prems(2) by force
    have "0 \<le> q" using r(2) Suc.prems(1,3) by (cases buf) auto
    then show ?thesis using r(3)
    proof (cases rule: input_cases)
      case eof
      then show ?thesis using r v by (auto intro: fineI)
    next
      case char
      have "fine ?l (q + 1) (object_loop pv n buf (vs @ [v]) (q + 1))"
        by (rule Suc.IH) (use Suc.prems r char pl in auto)
      then have "fine ?l p (object_loop pv n buf (vs @ [v]) (q + 1))" by (rule fine_mono) (use r pl in auto)
      then show ?thesis using r v char by (auto intro: fineI)
    qed
  qed
qed simp

lemma array_loop_fine:
  fixes p :: int
  assumes "0 \<le> p" "p \<le> int (length buf)" "buf \<noteq> []"
    "\<forall>p'. p \<le> p' \<and> p' \<le> int (length buf) \<longrightarrow> fine (int (length buf)) p' (pv p')"
    "int (length buf) - p + 1 \<le> int n"
    "last buf = 44 \<longrightarrow> pv (int (length buf)) = Got Fail (int (length buf) - 1)"
    "p = int (length buf) \<longrightarrow> last buf = 44"
  shows "fine (int (length buf)) p (array_loop pv n buf vs p)"
  using assms
proof (induction n arbitrary: p vs)
  case (Suc n)
  let ?l = "int (length buf)"
  obtain r q where r: "pv p = Got r q" "min p (?l - 1) \<le> q" "q \<le> ?l"
    using Suc.prems(1,2,4) by (auto simp: fine_def)
  show ?case
  proof (cases "\<exists>v. r = Match v")
    case False
    then show ?thesis using r by (cases r) (auto intro: fineI)
  next
    case True
    then obtain v where v: "r = Match v" ..
    have "p \<noteq> ?l" using Suc.prems(6,7) r(1) v by auto
    then have pl: "p < ?l" using Suc.prems(2) by simp
    have "0 \<le> q" using r(2) Suc.prems(1,3) by (cases buf) auto
    then show ?thesis using r(3)
    proof (cases rule: input_cases)
      case eof
      then show ?thesis using r v by (auto intro: fineI)
    next
      case char
      have last: "buf ! nat q = 44 \<and> q + 1 = ?l \<longrightarrow> last buf = 44"
      proof
        assume a: "buf ! nat q = 44 \<and> q + 1 = ?l"
        then have "nat q = length buf - 1" by auto
        then show "last buf = 44" using a Suc.prems(3) by (simp add: last_conv_nth)
      qed
      have "fine ?l p (array_loop pv n buf (vs @ [v]) (q + 1))" if "buf ! nat q = 44"
      proof (rule fine_mono)
        show "fine ?l (q + 1) (array_loop pv n buf (vs @ [v]) (q + 1))"
          by (rule Suc.IH) (use Suc.prems r char pl last that in auto)
      qed (use r pl in auto)
      then show ?thesis using r v char by (auto intro: fineI)
    qed
  qed
qed simp

lemma input_last: "buf \<noteq> [] \<Longrightarrow> input buf (int (length buf) - 1) = Got (last buf) (int (length buf))"
  by (cases buf rule: rev_cases) (auto simp: input_def nat_add_distrib)

lemma value_comma:
  assumes "buf \<noteq> []" "last buf = 44"
  shows "json_parse_value (Suc n) buf (int (length buf)) = Got Fail (int (length buf) - 1)"
proof -
  let ?l = "int (length buf)"
  have i: "input buf (?l - 1) = Got 44 ?l" using input_last [OF assms(1)] assms(2) by simp
  have "input buf ?l = Got 0 ?l" by (simp add: input_def)
  from skip_step [OF this] have "json_skip_whitespace buf ?l = Got () (?l - 1)" by simp
  with i number_step [OF i] show ?thesis
    by (simp add: json_parse_object_def json_parse_array_def json_parse_string_def json_parse_number_def
        json_parse_keyword_def unput_def out_def isdigit_def)
qed

lemma fine_out:
  assumes "fine (int (length buf)) p r" "buf \<noteq> []" "0 \<le> p"
  shows "fine (int (length buf)) p (out buf r)"
  unfolding out_def
proof (rule fine_jbind [OF assms(1)])
  fix v q assume q: "min p (int (length buf) - 1) \<le> q" "q \<le> int (length buf)"
  then have "0 \<le> q" using assms(2,3) by (cases buf) auto
  from skip_fine [OF this q(2) assms(2)] q
  show "fine (int (length buf)) p (if v = Nomatch then Got Fail q
      else jbind (json_skip_whitespace buf q) (\<lambda>_. Got v))" by (auto simp: fine_def)
qed

lemma fine_orelse:
  assumes "fine l p r" "\<And>q. r = Got Nomatch q \<Longrightarrow> min p (l - 1) \<le> q \<Longrightarrow> q \<le> l \<Longrightarrow> fine l p (f q)"
  shows "fine l p (orelse r f)"
  using assms by (cases "(r, f)" rule: orelse.cases) (auto simp: fine_def)

lemma fine_map_ret: "fine l p (map_ret f r) \<longleftrightarrow> fine l p r"
  by (cases "(f, r)" rule: map_ret.cases) (auto simp: fine_def)

lemma object_loop_match: "object_loop pv n buf vs p \<noteq> Got Nomatch q"
proof (induction n arbitrary: p vs)
  case (Suc n)
  then show ?case
    by (cases "json_parse_property pv buf p") (auto split: jret.splits simp: jbind_eq_Got)
qed simp

text \<open>
  The one hypothesis on the file is its last character: the end of the buffer steps back onto it.
\<close>

lemma json_parse_value_fine:
  assumes "buf \<noteq> []" "last buf \<noteq> 91" "0 \<le> p" "p \<le> int (length buf)" "int (length buf) - p + 2 \<le> int n"
  shows "fine (int (length buf)) p (json_parse_value n buf p)"
  using assms(3-5)
proof (induction n arbitrary: p)
  case (Suc n)
  let ?l = "int (length buf)" and ?pv = "json_parse_value n buf"
  have l: "1 \<le> ?l" using assms(1) by (cases buf) auto
  obtain p1 where p1: "json_skip_whitespace buf p = Got () p1" "min p (?l - 1) \<le> p1" "p1 \<le> ?l - 1" "0 \<le> p1"
    using skip_fine [OF Suc.prems(1,2) assms(1)] by blast
  have i: "input buf p1 = Got (buf ! nat p1) (p1 + 1)" using p1 by (simp add: input_def)
  have IH: "fine ?l p' (?pv p')" if "p1 + 1 \<le> p'" "p' \<le> ?l" "p < ?l" for p'
    by (rule Suc.IH) (use that p1 Suc.prems in auto)
  have obj: "fine ?l p1 (json_parse_object ?pv n buf p1)"
  proof (cases "buf ! nat p1 = 123")
    case True
    have "fine ?l (p1 + 1) (object_loop ?pv n buf [] (p1 + 1))"
    proof (rule object_loop_fine)
      show "\<forall>p'. p1 + 1 + 1 \<le> p' \<and> p' \<le> ?l \<longrightarrow> fine ?l p' (?pv p')" using IH p1 by auto
    qed (use p1 Suc.prems assms(1) in auto)
    then show ?thesis using True i
      by (auto simp: json_parse_object_def elim: fine_mono)
  qed (use i p1 in \<open>auto simp: json_parse_object_def unput_def fine_def\<close>)
  have arr: "fine ?l p1 (json_parse_array ?pv n buf p1)"
  proof (cases "buf ! nat p1 = 91")
    case True
    have "p1 \<noteq> ?l - 1"
    proof
      assume "p1 = ?l - 1"
      then have "input buf p1 = Got (last buf) ?l" using input_last [OF assms(1)] by simp
      with i True assms(2) show False by simp
    qed
    then have p1': "p1 + 1 < ?l" "p < ?l" using p1 by auto
    have "fine ?l (p1 + 1) (array_loop ?pv n buf [] (p1 + 1))"
    proof (rule array_loop_fine)
      show "\<forall>p'. p1 + 1 \<le> p' \<and> p' \<le> ?l \<longrightarrow> fine ?l p' (?pv p')" using IH p1' by auto
      show "last buf = 44 \<longrightarrow> ?pv ?l = Got Fail (?l - 1)"
        using value_comma [OF assms(1)] Suc.prems p1' by (cases n) auto
    qed (use p1 p1' Suc.prems assms(1) in auto)
    then show ?thesis using True i
      by (auto simp: json_parse_array_def elim: fine_mono)
  qed (use i p1 in \<open>auto simp: json_parse_array_def unput_def fine_def\<close>)
  have nm: "json_parse_object ?pv n buf p1 = Got Nomatch q \<Longrightarrow> q = p1" for q
    using i object_loop_match [of ?pv n buf "[]" "p1 + 1" q]
    by (auto simp: json_parse_object_def unput_def split: if_splits)
  have str: "fine ?l p1 (json_parse_string buf q)" and num: "fine ?l p1 (json_parse_number buf q)"
    and kw: "fine ?l p1 (json_parse_keyword buf q)" if "min p1 (?l - 1) \<le> q" "q \<le> ?l" for q
    using json_parse_string_fine [of q buf] json_parse_number_fine [of q buf] json_parse_keyword_fine [of q buf]
      that p1 assms(1) by (auto simp: fine_def)
  have "fine ?l p1 (json_parse_value (Suc n) buf p)"
    unfolding json_parse_value.simps p1(1) jbind.simps
    by (intro fine_out fine_orelse) (use obj arr nm str num kw p1 assms(1) in \<open>auto simp: fine_map_ret\<close>)
  then show ?case by (rule fine_mono) (use p1 in auto)
qed simp

section \<open>Reading back a printed value\<close>

fun commas :: "bytes list \<Rightarrow> bytes" where
  "commas [] = []"
| "commas [x] = x"
| "commas (x # y # ys) = x @ 44 # commas (y # ys)"

fun print :: "json \<Rightarrow> bytes" where
  "print JSON_TRUE = kw_true"
| "print JSON_FALSE = kw_false"
| "print JSON_NULL = kw_null"
| "print (JSON_NUMBER n) = dec_digits n"
| "print (JSON_STRING s) = 34 # s @ [34]"
| "print (JSON_ARRAY vs) = 91 # commas (map print vs) @ [93]"
| "print (JSON_OBJECT kvs) = 123 # commas (map (\<lambda>(k, v). 34 # k @ 34 # 58 # print v) kvs) @ [125]"

definition plain :: "bytes \<Rightarrow> bool" where
  "plain s \<longleftrightarrow> length s \<le> 127 \<and> 0 \<notin> set s \<and> 34 \<notin> set s"

fun printable :: "json \<Rightarrow> bool" where
  "printable (JSON_NUMBER n) = (n < 2 ^ 53)"
| "printable (JSON_STRING s) = plain s"
| "printable (JSON_ARRAY vs) = (vs \<noteq> [] \<and> (\<forall>v\<in>set vs. printable v))"
| "printable (JSON_OBJECT kvs) = (kvs \<noteq> [] \<and> (\<forall>(k, v)\<in>set kvs. plain k \<and> printable v))"
| "printable _ = True"

definition at :: "bytes \<Rightarrow> int \<Rightarrow> bytes \<Rightarrow> bool" where
  "at buf p rest \<longleftrightarrow> 0 \<le> p \<and> nat p \<le> length buf \<and> drop (nat p) buf = rest"

lemma at_input: "at buf p (c # rest) \<Longrightarrow> input buf p = Got c (p + 1)"
  by (auto simp: at_def input_def nth_via_drop)

lemma at_step: "at buf p (c # rest) \<Longrightarrow> at buf (p + 1) rest"
proof -
  assume a: "at buf p (c # rest)"
  then have "nat p < length buf" by (metis at_def drop_all list.distinct(1) not_less)
  then show ?thesis using a by (auto simp: at_def nat_add_distrib) (metis Suc_eq_plus1 drop_Suc list.sel(3) tl_drop)
qed

lemma at_append: "at buf p (xs @ rest) \<Longrightarrow> at buf (p + int (length xs)) rest"
proof (induction xs arbitrary: p)
  case (Cons x xs)
  then have "at buf (p + 1 + int (length xs)) rest" using at_step [of buf p x] by simp
  then show ?case by (simp add: algebra_simps)
qed simp

lemma skip_at: "at buf p (c # rest) \<Longrightarrow> \<not> isspace c \<Longrightarrow> json_skip_whitespace buf p = Got () p"
  using skip_step [OF at_input] by simp

lemma string_loop_at:
  assumes "at buf p (s @ 34 # post)" "0 \<notin> set s" "34 \<notin> set s" "length b + length s \<le> 127"
  shows "string_loop buf b p = Got (34, b @ s) (p + int (length s) + 1)"
  using assms
proof (induction s arbitrary: p b)
  case Nil
  then show ?case using string_step [OF at_input, of buf p 34 post b] by simp
next
  case (Cons c s)
  have a: "at buf p (c # s @ 34 # post)" using Cons.prems(1) by simp
  have "string_loop buf (b @ [c]) (p + 1) = Got (34, (b @ [c]) @ s) (p + 1 + int (length s) + 1)"
    by (rule Cons.IH) (use Cons.prems at_step [OF a] in auto)
  then show ?case using string_step [OF at_input [OF a], of b] Cons.prems by (simp add: algebra_simps)
qed

lemma parse_string_at:
  assumes "at buf p (34 # s @ 34 # post)" "plain s"
  shows "json_parse_string buf p = Got (Match s) (p + int (length s) + 2)"
  using string_loop_at [OF at_step [OF assms(1)], of "[]"] assms at_input [OF assms(1)]
  by (simp add: json_parse_string_def plain_def)

lemma number_loop_at:
  assumes "at buf p (ds @ c # post)" "\<forall>d\<in>set ds. isdigit d" "\<not> isdigit c" "length b + length ds \<le> 19"
  shows "number_loop buf b p = Got (b @ ds) (p + int (length ds))"
  using assms
proof (induction ds arbitrary: p b)
  case Nil
  then show ?case using number_step [OF at_input, of buf p c post b] by simp
next
  case (Cons d ds)
  have a: "at buf p (d # ds @ c # post)" using Cons.prems(1) by simp
  have "number_loop buf (b @ [d]) (p + 1) = Got ((b @ [d]) @ ds) (p + 1 + int (length ds))"
    by (rule Cons.IH) (use Cons.prems at_step [OF a] in auto)
  moreover have "d \<noteq> 0" using Cons.prems(2) by (auto simp: isdigit_def)
  ultimately show ?case using number_step [OF at_input [OF a], of b] Cons.prems by (simp add: algebra_simps)
qed

lemma round_double_small: "n < 2 ^ 53 \<Longrightarrow> round_double k n = n"
  by (cases k) simp_all

lemma parse_number_at:
  assumes "at buf p (dec_digits n @ c # post)" "\<not> isdigit c" "n < 2 ^ 53"
  shows "json_parse_number buf p = Got (Match n) (p + int (length (dec_digits n)))"
proof -
  have "length (dec_digits n) \<le> Suc 18" using assms(3) by (intro dec_digits_length) simp
  then have "number_loop buf [] p = Got (dec_digits n) (p + int (length (dec_digits n)))"
    using number_loop_at [OF assms(1) _ assms(2), of "[]"] dec_digits_ok [of n] by simp
  moreover have "strtod (dec_digits n) = n"
    using assms(3) dec_digits_ok [of n] by (simp add: strtod_def round_double_small)
  ultimately show ?thesis using dec_digits_ok [of n] by (simp add: json_parse_number_def)
qed

text \<open>Values that start with \<open>c\<close> are not tried as what starts otherwise.\<close>

lemma parse_nomatch:
  assumes "at buf p (c # rest)"
  shows "c \<noteq> 123 \<Longrightarrow> json_parse_object pv n buf p = Got Nomatch p"
    "c \<noteq> 91 \<Longrightarrow> json_parse_array pv n buf p = Got Nomatch p"
    "c \<noteq> 34 \<Longrightarrow> json_parse_string buf p = Got Nomatch p"
    "\<not> isdigit c \<Longrightarrow> json_parse_number buf p = Got Nomatch p"
  using at_input [OF assms] number_step [OF at_input [OF assms], of "[]"]
  by (simp_all add: json_parse_object_def json_parse_array_def json_parse_string_def json_parse_number_def unput_def)

lemma keyword_loop_at:
  assumes "at buf p (m @ c # post)"
  shows "keyword_loop buf (ch # m) ch p = Got [] (p + int (length m) + 1)"
  using assms
proof (induction m arbitrary: p ch)
  case (Cons x m)
  have a: "at buf p (x # m @ c # post)" using Cons.prems by simp
  have "keyword_loop buf (x # m) x (p + 1) = Got [] (p + 1 + int (length m) + 1)"
    by (rule Cons.IH [OF at_step [OF a]])
  then show ?case using at_input [OF a] by (simp add: algebra_simps)
qed (simp add: at_input)

lemma parse_keyword_at:
  assumes "at buf p (print v @ c # post)" "v = JSON_TRUE \<or> v = JSON_FALSE \<or> v = JSON_NULL"
  shows "json_parse_keyword buf p = Got (Match v) (p + int (length (print v)))"
proof -
  obtain k ks where k: "print v = k # ks" using assms(2) by auto
  then have a: "at buf p (k # ks @ c # post)" using assms(1) by simp
  show ?thesis using keyword_loop_at [OF at_step [OF a], of k] at_input [OF a] assms(2) k
    by (auto simp: json_parse_keyword_def unput_def)
qed

definition parses :: "json \<Rightarrow> bool" where
  "parses v \<longleftrightarrow> (\<forall>buf n p c post. at buf p (print v @ c # post) \<longrightarrow> \<not> isdigit c \<longrightarrow> length (print v) < n \<longrightarrow>
     json_parse_value n buf p = out buf (Got (Match v) (p + int (length (print v)))))"

lemma out_at:
  assumes "at buf p (c # post)" "\<not> isspace c"
  shows "out buf (Got (Match v) p) = Got (Match v) p"
  using skip_at [OF assms] by (simp add: out_def)

lemma isspace_punct: "\<not> isspace 44" "\<not> isspace 93" "\<not> isspace 125" "\<not> isspace 58" "\<not> isspace 34"
    "\<not> isspace 91" "\<not> isspace 123" "\<not> isspace 116" "\<not> isspace 102" "\<not> isspace 110"
  and isdigit_punct: "\<not> isdigit 44" "\<not> isdigit 93" "\<not> isdigit 125" "\<not> isdigit 58" "\<not> isdigit 34"
    "\<not> isdigit 91" "\<not> isdigit 123" "\<not> isdigit 116" "\<not> isdigit 102" "\<not> isdigit 110"
  by (simp_all add: isspace_def isdigit_def)

lemmas punct = isspace_punct isdigit_punct

lemma parses_at:
  assumes "parses v" "at buf p (print v @ c # post)" "\<not> isdigit c" "\<not> isspace c" "length (print v) < m"
  shows "json_parse_value m buf p = Got (Match v) (p + int (length (print v)))"
proof -
  have "json_parse_value m buf p = out buf (Got (Match v) (p + int (length (print v))))"
    using assms(1) [unfolded parses_def, rule_format, OF assms(2,3,5)] .
  then show ?thesis using out_at [OF at_append [OF assms(2)] assms(4)] by simp
qed

lemma array_loop_at:
  assumes "vs \<noteq> []" "\<forall>v\<in>set vs. parses v \<and> length (print v) < m" "length vs \<le> n"
    "at buf p (commas (map print vs) @ 93 # post)"
  shows "array_loop (json_parse_value m buf) n buf acc p =
    Got (Match (JSON_ARRAY (acc @ vs))) (p + int (length (commas (map print vs))) + 1)"
  using assms
proof (induction vs arbitrary: n acc p)
  case (Cons v vs)
  obtain k where n: "n = Suc k" using Cons.prems(3) by (cases n) auto
  let ?q = "p + int (length (print v))"
  have v: "parses v" "length (print v) < m" using Cons.prems(2) by auto
  show ?case
  proof (cases vs)
    case Nil
    then have a: "at buf p (print v @ 93 # post)" using Cons.prems(4) by simp
    have "json_parse_value m buf p = Got (Match v) ?q"
      using parses_at [OF v(1) a _ _ v(2)] punct by simp
    then show ?thesis using Nil n at_input [OF at_append [OF a]] by simp
  next
    case (Cons w ws)
    then have a: "at buf p (print v @ 44 # commas (map print vs) @ 93 # post)" using Cons.prems(4) by simp
    have val: "json_parse_value m buf p = Got (Match v) ?q"
      using parses_at [OF v(1) a _ _ v(2)] punct by simp
    have "array_loop (json_parse_value m buf) k buf (acc @ [v]) (?q + 1) =
        Got (Match (JSON_ARRAY ((acc @ [v]) @ vs))) (?q + 1 + int (length (commas (map print vs))) + 1)"
      by (rule Cons.IH) (use Cons Cons.prems n at_step [OF at_append [OF a]] in auto)
    moreover have "?q + 1 + int (length (commas (map print vs))) + 1 =
        p + int (length (commas (map print (v # vs)))) + 1" using Cons by simp
    ultimately show ?thesis using n val at_input [OF at_append [OF a]] by simp
  qed
qed simp

abbreviation print_member :: "bytes \<times> json \<Rightarrow> bytes" where
  "print_member kv \<equiv> 34 # fst kv @ 34 # 58 # print (snd kv)"

lemma property_at:
  assumes "at buf p (print_member (k, v) @ c # post)" "plain k" "parses v" "length (print v) < m"
    "\<not> isdigit c" "\<not> isspace c"
  shows "json_parse_property (json_parse_value m buf) buf p =
    Got (Match (k, v)) (p + int (length (print_member (k, v))))"
proof -
  have a: "at buf p (34 # k @ 34 # 58 # print v @ c # post)" using assms(1) by simp
  note a1 = at_step [OF at_append [OF at_step [OF a]]]
  have "p + 1 + int (length k) + 1 = p + int (length k) + 2" by simp
  with a1 have a2: "at buf (p + int (length k) + 2) (58 # print v @ c # post)" by simp
  have "json_parse_value m buf (p + int (length k) + 2 + 1) =
      Got (Match v) (p + int (length k) + 2 + 1 + int (length (print v)))"
    by (rule parses_at [OF assms(3) at_step [OF a2] assms(5,6,4)])
  moreover have "p + int (length k) + 2 + 1 + int (length (print v)) = p + int (length (print_member (k, v)))" by simp
  ultimately show ?thesis
    using skip_at [OF a] parse_string_at [OF a assms(2)] skip_at [OF a2] at_input [OF a2] punct
    by (simp add: json_parse_property_def)
qed

lemma object_loop_at:
  assumes "kvs \<noteq> []" "\<forall>(k, v)\<in>set kvs. plain k \<and> parses v \<and> length (print v) < m" "length kvs \<le> n"
    "at buf p (commas (map print_member kvs) @ 125 # post)"
  shows "object_loop (json_parse_value m buf) n buf acc p =
    Got (Match (JSON_OBJECT (acc @ kvs))) (p + int (length (commas (map print_member kvs))) + 1)"
  using assms
proof (induction kvs arbitrary: n acc p)
  case (Cons kv kvs)
  obtain k where n: "n = Suc k" using Cons.prems(3) by (cases n) auto
  obtain key v where kv: "kv = (key, v)" by fastforce
  let ?q = "p + int (length (print_member (key, v)))"
  have v: "plain key" "parses v" "length (print v) < m" using Cons.prems(2) kv by auto
  show ?case
  proof (cases kvs)
    case Nil
    then have a: "at buf p (print_member (key, v) @ 125 # post)" using Cons.prems(4) kv by simp
    have "json_parse_property (json_parse_value m buf) buf p = Got (Match (key, v)) ?q"
      using property_at [OF a v] punct by simp
    then show ?thesis using Nil n kv at_input [OF at_append [OF a]] by simp
  next
    case (Cons w ws)
    then have a: "at buf p (print_member (key, v) @ 44 # commas (map print_member kvs) @ 125 # post)"
      using Cons.prems(4) kv by simp
    have val: "json_parse_property (json_parse_value m buf) buf p = Got (Match (key, v)) ?q"
      using property_at [OF a v] punct by simp
    have "object_loop (json_parse_value m buf) k buf (acc @ [kv]) (?q + 1) =
        Got (Match (JSON_OBJECT ((acc @ [kv]) @ kvs))) (?q + 1 + int (length (commas (map print_member kvs))) + 1)"
      by (rule Cons.IH) (use Cons Cons.prems n at_step [OF at_append [OF a]] in auto)
    moreover have "?q + 1 + int (length (commas (map print_member kvs))) + 1 =
        p + int (length (commas (map print_member (kv # kvs)))) + 1" using Cons kv by simp
    ultimately show ?thesis using n kv val at_input [OF at_append [OF a]] by simp
  qed
qed simp

lemma commas_elem: "x \<in> set xs \<Longrightarrow> length x \<le> length (commas xs)"
  by (induction xs rule: commas.induct) auto

lemma commas_length: "(\<forall>x\<in>set xs. x \<noteq> []) \<Longrightarrow> length xs \<le> length (commas xs)"
  by (induction xs rule: commas.induct) (auto simp: Suc_le_eq)

lemma print_nonempty: "print v \<noteq> []"
  using dec_digits_ok by (cases v) auto

lemma value_start:
  assumes "at buf p (c # rest)" "\<not> isspace c"
  shows "json_parse_value (Suc m) buf p = out buf
      (orelse (json_parse_object (json_parse_value m buf) m buf p) (\<lambda>pos.
       orelse (json_parse_array (json_parse_value m buf) m buf pos) (\<lambda>pos.
       orelse (map_ret JSON_STRING (json_parse_string buf pos)) (\<lambda>pos.
       orelse (map_ret JSON_NUMBER (json_parse_number buf pos)) (\<lambda>pos.
       json_parse_keyword buf pos)))))"
  using skip_at [OF assms] by simp

lemma value_keyword:
  assumes "v = JSON_TRUE \<or> v = JSON_FALSE \<or> v = JSON_NULL"
  shows "parses v"
  unfolding parses_def
proof (intro allI impI)
  fix buf n p c post assume h: "at buf p (print v @ c # post)" "length (print v) < n"
  obtain m where n: "n = Suc m" using h(2) by (cases n) auto
  obtain k ks where k: "print v = k # ks" "k \<in> {116, 102, 110}" using assms by auto
  then have a: "at buf p (k # ks @ c # post)" using h(1) by simp
  have ne: "k \<noteq> 123" "k \<noteq> 91" "k \<noteq> 34" "\<not> isdigit k" "\<not> isspace k" using k(2) punct by auto
  show "json_parse_value n buf p = out buf (Got (Match v) (p + int (length (print v))))"
    unfolding n value_start [OF a ne(5)] using parse_nomatch [OF a] ne parse_keyword_at [OF h(1) assms] by simp
qed

lemma value_string:
  assumes "plain s"
  shows "parses (JSON_STRING s)"
  unfolding parses_def
proof (intro allI impI)
  fix buf n p c post
  assume h: "at buf p (print (JSON_STRING s) @ c # post)" "length (print (JSON_STRING s)) < n"
  obtain m where n: "n = Suc m" using h(2) by (cases n) auto
  have a: "at buf p (34 # s @ 34 # c # post)" using h(1) by simp
  have e: "p + int (length s) + 2 = p + int (length (print (JSON_STRING s)))" by simp
  show "json_parse_value n buf p = out buf (Got (Match (JSON_STRING s)) (p + int (length (print (JSON_STRING s)))))"
    unfolding n value_start [OF a punct(5)] using parse_nomatch(1,2) [OF a] parse_string_at [OF a assms] e by (simp del: print.simps)
qed

lemma value_number:
  assumes "k < 2 ^ 53"
  shows "parses (JSON_NUMBER k)"
  unfolding parses_def
proof (intro allI impI)
  fix buf n p c post
  assume h: "at buf p (print (JSON_NUMBER k) @ c # post)" "\<not> isdigit c" "length (print (JSON_NUMBER k)) < n"
  obtain m where n: "n = Suc m" using h(3) by (cases n) auto
  obtain d ds where d: "dec_digits k = d # ds" "isdigit d" using dec_digits_ok [of k] by (cases "dec_digits k") auto
  have a: "at buf p (d # ds @ c # post)" using h(1) d by simp
  have ne: "d \<noteq> 123" "d \<noteq> 91" "d \<noteq> 34" "\<not> isspace d"
    using d(2) punct by (auto simp: isdigit_def isspace_def word_le_nat_alt)
  show "json_parse_value n buf p = out buf (Got (Match (JSON_NUMBER k)) (p + int (length (print (JSON_NUMBER k)))))"
    unfolding n value_start [OF a ne(4)] using parse_nomatch [OF a] ne h(1,2) assms by (simp add: parse_number_at)
qed

lemma value_array:
  assumes "vs \<noteq> []" "\<forall>v\<in>set vs. parses v"
  shows "parses (JSON_ARRAY vs)"
  unfolding parses_def
proof (intro allI impI)
  fix buf n p c post
  assume h: "at buf p (print (JSON_ARRAY vs) @ c # post)" "length (print (JSON_ARRAY vs)) < n"
  obtain m where n: "n = Suc m" using h(2) by (cases n) auto
  have a: "at buf p (91 # commas (map print vs) @ 93 # c # post)" using h(1) by simp
  have el: "\<forall>v\<in>set vs. parses v \<and> length (print v) < m"
  proof
    fix v assume v: "v \<in> set vs"
    then have "length (print v) \<le> length (commas (map print vs))" by (intro commas_elem) simp
    then show "parses v \<and> length (print v) < m" using assms(2) v h(2) n by simp
  qed
  have len: "length vs \<le> m"
    using commas_length [of "map print vs"] print_nonempty h(2) n by simp
  have "json_parse_array (json_parse_value m buf) m buf p =
      Got (Match (JSON_ARRAY vs)) (p + int (length (print (JSON_ARRAY vs))))"
    using array_loop_at [OF assms(1) el len at_step [OF a], of "[]"] at_input [OF a]
    by (simp add: json_parse_array_def)
  then show "json_parse_value n buf p = out buf (Got (Match (JSON_ARRAY vs)) (p + int (length (print (JSON_ARRAY vs)))))"
    unfolding n value_start [OF a punct(6)] using parse_nomatch(1) [OF a] by simp
qed

lemma value_object:
  assumes "kvs \<noteq> []" "\<forall>(k, v)\<in>set kvs. plain k \<and> parses v"
  shows "parses (JSON_OBJECT kvs)"
  unfolding parses_def
proof (intro allI impI)
  fix buf n p c post
  assume h: "at buf p (print (JSON_OBJECT kvs) @ c # post)" "length (print (JSON_OBJECT kvs)) < n"
  obtain m where n: "n = Suc m" using h(2) by (cases n) auto
  have m: "(\<lambda>(k, v). 34 # k @ 34 # 58 # print v) = print_member" by (auto simp: fun_eq_iff)
  have a: "at buf p (123 # commas (map print_member kvs) @ 125 # c # post)" using h(1) m by simp
  have el: "\<forall>(k, v)\<in>set kvs. plain k \<and> parses v \<and> length (print v) < m"
  proof clarify
    fix k v assume v: "(k, v) \<in> set kvs"
    then have "length (print_member (k, v)) \<le> length (commas (map print_member kvs))"
      by (intro commas_elem) force
    then show "plain k \<and> parses v \<and> length (print v) < m" using assms(2) v h(2) n m by auto
  qed
  have len: "length kvs \<le> m" using commas_length [of "map print_member kvs"] h(2) n m by simp
  have "json_parse_object (json_parse_value m buf) m buf p =
      Got (Match (JSON_OBJECT kvs)) (p + int (length (print (JSON_OBJECT kvs))))"
    using object_loop_at [OF assms(1) el len at_step [OF a], of "[]"] at_input [OF a] m
    by (simp add: json_parse_object_def)
  then show "json_parse_value n buf p = out buf (Got (Match (JSON_OBJECT kvs)) (p + int (length (print (JSON_OBJECT kvs)))))"
    unfolding n value_start [OF a punct(7)] by simp
qed

lemma print_parses: "printable v \<Longrightarrow> parses v"
proof (induction v)
  case (JSON_ARRAY vs)
  then show ?case by (intro value_array) auto
next
  case (JSON_OBJECT kvs)
  have "\<forall>(k, v)\<in>set kvs. plain k \<and> parses v"
  proof clarify
    fix k v assume kv: "(k, v) \<in> set kvs"
    then show "plain k \<and> parses v" using JSON_OBJECT.IH [OF kv, of v] JSON_OBJECT.prems by auto
  qed
  then show ?case using JSON_OBJECT.prems by (intro value_object) simp_all
qed (use value_keyword value_string value_number in auto)

section \<open>Running the reader\<close>

text \<open>Congruence rules that keep the simplifier out of continuations until they are reached.\<close>

lemma jbind_weak: "r = r' \<Longrightarrow> jbind r f = jbind r' f" by simp

lemma orelse_weak: "r = r' \<Longrightarrow> orelse r f = orelse r' f" by simp

lemmas run_congs = jbind_weak orelse_weak

lemmas value_num = json_parse_value.simps(2) [of "pred_numeral k" for k, folded numeral_eq_Suc]

lemmas array_num = array_loop.simps(2) [of _ "pred_numeral k" for k, folded numeral_eq_Suc]

lemmas run_simps = json_parse_file_def parse_root_def json_parse_object_def json_parse_array_def
  json_parse_string_def json_parse_number_def json_parse_keyword_def out_def unput_def input_def isspace_def
  isdigit_def json_skip_whitespace.simps string_loop.simps number_loop.simps json_parse_property_def
  strtod_def digits_value_def round_double_small value_num array_num

section \<open>Properties\<close>



lemma value_brackets:
  assumes "buf = replicate (Suc k) 91" "0 \<le> p" "p \<le> int (length buf)"
  shows "json_parse_value n buf p = Deep"
  using assms(2,3)
proof (induction n arbitrary: p)
  case (Suc n)
  let ?q = "if p < int (length buf) then p else p - 1"
  have q: "0 \<le> ?q" "?q < int (length buf)" using Suc.prems assms(1) by auto
  have i: "input buf ?q = Got 91 (?q + 1)" using q assms(1) by (auto simp: input_def simp del: replicate_Suc)
  have "json_skip_whitespace buf p = Got () ?q"
  proof (cases "p < int (length buf)")
    case True
    then show ?thesis using skip_step [of buf p 91 "p + 1"] i punct by simp
  next
    case False
    then have "input buf p = Got 0 p" by (simp add: input_def)
    from skip_step [OF this] False show ?thesis by simp
  qed
  moreover have "array_loop (json_parse_value n buf) n buf [] (?q + 1) = Deep"
    using Suc.IH [of "?q + 1"] q by (cases n) simp_all
  ultimately show ?case using i
    by (simp add: json_parse_object_def json_parse_array_def unput_def out_def del: if_split)
qed simp

text \<open>
  C34: two kinds of file break the reader, whatever the stack allows. At the end of the buffer \<open>unput\<close>
  steps back over the last character, so in a file of opening brackets the last one is read for ever,
  each time one call deeper; and with an empty file it reads the byte before the buffer.
\<close>

theorem json_parse_unsafe:
  "json_parse_file fuel (Some (replicate (Suc k) 91)) = Deep \<and> json_parse_file (Suc fuel) (Some []) = Bad"
proof
  have "json_parse_value fuel (replicate (Suc k) 91) 0 = Deep" by (rule value_brackets) simp_all
  then show "json_parse_file fuel (Some (replicate (Suc k) 91)) = Deep"
    by (simp add: json_parse_file_def parse_root_def)
  have "json_skip_whitespace [] 0 = Got () (-1)"
    using skip_step [of "[]" 0 0 0] by (simp add: input_def)
  then show "json_parse_file (Suc fuel) (Some []) = Bad"
    by (simp add: json_parse_file_def parse_root_def json_parse_object_def input_def out_def)
qed




end
