(* ===== verification/Pd_Servreg.thy ===== *)
theory Pd_Servreg
  imports Qmi_Codec
begin

text \<open>
  The messages of the service registry locator, \<open>qcom/pd-mapper/servreg_loc.c\<close> and \<open>servreg_loc.h\<close>: the
  descriptor tables of the QMI codec, with the offsets the C compiler gives the fields on the target,
  and the structures of the \<open>GET_DOMAIN_LIST\<close> exchange as records with their layout in memory.
\<close>

definition SERVREG_QMI_SERVICE :: u32 where "SERVREG_QMI_SERVICE = 64"
definition SERVREG_QMI_VERSION :: u16 where "SERVREG_QMI_VERSION = 257"
definition SERVREG_QMI_INSTANCE :: u16 where "SERVREG_QMI_INSTANCE = 0"

abbreviation (input) QMI_RESULT_SUCCESS :: u16 where "QMI_RESULT_SUCCESS \<equiv> 0"
abbreviation (input) QMI_RESULT_FAILURE :: u16 where "QMI_RESULT_FAILURE \<equiv> 1"
abbreviation (input) QMI_ERR_NONE :: u16 where "QMI_ERR_NONE \<equiv> 0"
abbreviation (input) QMI_ERR_INTERNAL :: u16 where "QMI_ERR_INTERNAL \<equiv> 1"
abbreviation (input) QMI_ERR_MALFORMED_MSG :: u16 where "QMI_ERR_MALFORMED_MSG \<equiv> 2"
abbreviation (input) SERVREG_LOC_GET_DOMAIN_LIST :: u16 where "SERVREG_LOC_GET_DOMAIN_LIST \<equiv> 33"
abbreviation (input) SERVREG_LOC_PFR :: u16 where "SERVREG_LOC_PFR \<equiv> 36"

text \<open>The empty initialiser at the end of a table.\<close>

definition EOTI :: qmi_elem_info where
  "EOTI = EI QMI_EOTI 0 0 NO_ARRAY 0 0 None"

definition servreg_loc_qmi_result_ei :: "qmi_elem_info list" where
  "servreg_loc_qmi_result_ei =
    [EI QMI_UNSIGNED_2_BYTE 1 2 NO_ARRAY 0 0 None,
     EI QMI_UNSIGNED_2_BYTE 1 2 NO_ARRAY 0 2 None,
     EOTI]"

definition servreg_loc_domain_list_entry_ei :: "qmi_elem_info list" where
  "servreg_loc_domain_list_entry_ei =
    [EI QMI_STRING 256 1 NO_ARRAY 0 4 None,
     EI QMI_UNSIGNED_4_BYTE 1 4 NO_ARRAY 0 260 None,
     EI QMI_UNSIGNED_1_BYTE 1 1 NO_ARRAY 0 264 None,
     EI QMI_UNSIGNED_4_BYTE 1 4 NO_ARRAY 0 268 None,
     EOTI]"

definition servreg_loc_get_domain_list_req_ei :: "qmi_elem_info list" where
  "servreg_loc_get_domain_list_req_ei =
    [EI QMI_STRING 256 1 VAR_LEN_ARRAY 1 4 None,
     EI QMI_OPT_FLAG 1 1 NO_ARRAY 16 260 None,
     EI QMI_UNSIGNED_4_BYTE 1 4 NO_ARRAY 16 264 None,
     EOTI]"

definition servreg_loc_get_domain_list_resp_ei :: "qmi_elem_info list" where
  "servreg_loc_get_domain_list_resp_ei =
    [EI QMI_STRUCT 1 4 NO_ARRAY 2 0 (Some servreg_loc_qmi_result_ei),
     EI QMI_OPT_FLAG 1 1 NO_ARRAY 16 4 None,
     EI QMI_UNSIGNED_2_BYTE 1 2 NO_ARRAY 16 6 None,
     EI QMI_OPT_FLAG 1 1 NO_ARRAY 17 8 None,
     EI QMI_UNSIGNED_2_BYTE 1 2 NO_ARRAY 17 10 None,
     EI QMI_OPT_FLAG 1 1 NO_ARRAY 18 12 None,
     EI QMI_DATA_LEN 1 1 NO_ARRAY 18 16 None,
     EI QMI_STRUCT 255 272 VAR_LEN_ARRAY 18 20 (Some servreg_loc_domain_list_entry_ei),
     EOTI]"

definition servreg_loc_pfr_req_ei :: "qmi_elem_info list" where
  "servreg_loc_pfr_req_ei =
    [EI QMI_STRING 256 1 VAR_LEN_ARRAY 1 4 None,
     EI QMI_STRING 256 1 VAR_LEN_ARRAY 2 264 None,
     EOTI]"

definition servreg_loc_pfr_resp_ei :: "qmi_elem_info list" where
  "servreg_loc_pfr_resp_ei =
    [EI QMI_STRUCT 1 4 NO_ARRAY 2 0 (Some servreg_loc_qmi_result_ei),
     EOTI]"

section \<open>Structures\<close>

record servreg_loc_domain_list_entry =
  ent_name_len :: u32
  ent_name :: bytes
  ent_instance_id :: u32
  ent_service_data_valid :: u8
  ent_service_data :: u32

definition entry_bytes :: "servreg_loc_domain_list_entry \<Rightarrow> bytes" where
  "entry_bytes en = le32 (ent_name_len en) @ ent_name en @ le32 (ent_instance_id en) @
     [ent_service_data_valid en, 0, 0, 0] @ le32 (ent_service_data en)"

record servreg_loc_get_domain_list_req =
  req_name_len :: u32
  req_name :: bytes
  req_offset_valid :: u8
  req_offset :: u32

definition req_bytes :: "servreg_loc_get_domain_list_req \<Rightarrow> bytes" where
  "req_bytes r = le32 (req_name_len r) @ req_name r @ [req_offset_valid r, 0, 0, 0] @ le32 (req_offset r)"

definition req_of :: "bytes \<Rightarrow> servreg_loc_get_domain_list_req" where
  "req_of bs = \<lparr>req_name_len = rd32 bs, req_name = take 256 (drop 4 bs), req_offset_valid = bs ! 260,
     req_offset = rd32 (drop 264 bs)\<rparr>"

record servreg_loc_get_domain_list_resp =
  resp_result :: u16
  resp_error :: u16
  resp_total_domains_valid :: u8
  resp_total_domains :: u16
  resp_db_revision_valid :: u8
  resp_db_revision :: u16
  resp_domain_list_valid :: u8
  resp_domain_list_len :: u32
  resp_domain_list :: "servreg_loc_domain_list_entry list"

definition resp_bytes :: "servreg_loc_get_domain_list_resp \<Rightarrow> bytes" where
  "resp_bytes r = le16 (resp_result r) @ le16 (resp_error r) @
     [resp_total_domains_valid r, 0] @ le16 (resp_total_domains r) @
     [resp_db_revision_valid r, 0] @ le16 (resp_db_revision r) @
     [resp_domain_list_valid r, 0, 0, 0] @ le32 (resp_domain_list_len r) @
     concat (map entry_bytes (resp_domain_list r))"

end
