(* ===== verification/Pd_Mapper.thy ===== *)
theory Pd_Mapper
  imports Pd_Assoc Pd_Json Pd_Servreg Qrtr_Lib
begin

text \<open>
  The protection-domain mapper \<open>qcom/pd-mapper/pd-mapper.c\<close>: it enumerates the JSON files beside the
  firmware of the remote processors, builds the table from services to domains and answers
  \<open>GET_DOMAIN_LIST\<close> requests. The file system is a parameter: the entries of the directories and the
  contents of the files. Stack objects that the code does not initialise are parameters as well.
\<close>

section \<open>The table of domains\<close>

record pd_map =
  pm_service :: bytes
  pm_domain :: bytes
  pm_instance :: int

text \<open>\<open>None\<close> is the null pointer; the entry that ends the array is left implicit.\<close>

type_synonym pd_maps = "pd_map list option"

text \<open>The conversion of a \<open>double\<close> to an \<open>int\<close> it does not fit in is undefined.\<close>

fun load_services :: "bytes \<Rightarrow> nat \<Rightarrow> json list \<Rightarrow> pd_map list \<Rightarrow> (int \<times> pd_map list) cres" where
  "load_services domain number [] maps = Ok (0, maps)"
| "load_services domain number (it # its) maps =
    (case (json_get_string (Some it) (str ''provider''), json_get_string (Some it) (str ''service'')) of
       (Some provider, Some service) \<Rightarrow>
         if 2 ^ 31 \<le> number then UB
         else load_services domain number its
           (maps @ [\<lparr>pm_service = provider @ [47] @ service, pm_domain = domain, pm_instance = int number\<rparr>])
     | _ \<Rightarrow> Ok (-1, maps))"

definition load_root :: "json \<Rightarrow> pd_maps \<Rightarrow> (int \<times> pd_maps) cres" where
  "load_root root maps =
    (let sr_domain = json_get_child root (str ''sr_domain'');
         soc = json_get_string sr_domain (str ''soc'');
         domain = json_get_string sr_domain (str ''domain'');
         subdomain = json_get_string sr_domain (str ''subdomain'')
     in case json_get_number sr_domain (str ''qmi_instance_id'') of
          None \<Rightarrow> Ok (-1, maps)
        | Some number \<Rightarrow> (case (soc, domain, subdomain) of
            (Some soc, Some domain, Some subdomain) \<Rightarrow>
              let sr_service = json_get_child root (str ''sr_service'') in
              (case sr_service of
                 Some (JSON_ARRAY its) \<Rightarrow>
                   cbind (load_services (soc @ [47] @ domain @ [47] @ subdomain) number its
                       (case maps of None \<Rightarrow> [] | Some ms \<Rightarrow> ms)) (\<lambda>(ret, ms). Ok (ret, Some ms))
               | _ \<Rightarrow> Ok (json_count_children sr_service, maps))
          | _ \<Rightarrow> Ok (-1, maps)))"

text \<open>\<open>None\<close> is a file whose nesting exceeds the fuel.\<close>

definition pd_load_map :: "nat \<Rightarrow> bytes option \<Rightarrow> pd_maps \<Rightarrow> (int \<times> pd_maps) cres option" where
  "pd_load_map fuel file maps = (case json_parse_file fuel file of
     Deep \<Rightarrow> None
   | Bad \<Rightarrow> Some UB
   | Got None _ \<Rightarrow> Some (Ok (-1, maps))
   | Got (Some root) _ \<Rightarrow> Some (load_root root maps))"

section \<open>The files\<close>

definition FIRMWARE_BASE :: bytes where "FIRMWARE_BASE = str ''/vendor/firmware/''"

text \<open>
  The answers of the file system: the class directory (\<open>open\<close> and \<open>fdopendir\<close>), the \<open>firmware\<close>
  attribute of a remote processor (\<open>openat\<close> fails, \<open>read\<close> fails or gives the bytes), a directory and
  the contents of a file.
\<close>

datatype attr = No_Attr | Read_Error | Attr bytes

record pd_fs =
  fs_class_fd :: bool
  fs_class :: "bytes list option"
  fs_attr :: "bytes \<Rightarrow> attr"
  fs_dir :: "bytes \<Rightarrow> bytes list option"
  fs_file :: "bytes \<Rightarrow> bytes option"

fun enum_firmware :: "bytes \<Rightarrow> bytes \<Rightarrow> bytes list \<Rightarrow> unit assoc \<Rightarrow> unit assoc cres" where
  "enum_firmware firmware_value path [] json_set = Ok json_set"
| "enum_firmware firmware_value path (d_name # fw_dir) json_set =
    (if dots d_name \<or> length d_name < 5 \<or> drop (length d_name - 4) d_name \<noteq> str ''.jsn'' \<or>
        length FIRMWARE_BASE + length firmware_value + 1 + length d_name + 1 > 4096
     then enum_firmware firmware_value path fw_dir json_set
     else let json_path = path @ [47] @ d_name in
       if length json_path + 1 > 4096 then UB
       else cbind (of_opt (assoc_set json_set json_path ())) (enum_firmware firmware_value path fw_dir))"

fun enum_class :: "pd_fs \<Rightarrow> bytes list \<Rightarrow> unit assoc \<Rightarrow> unit assoc cres" where
  "enum_class fs [] json_set = Ok json_set"
| "enum_class fs (d_name # class_dir) json_set =
    (if dots d_name \<or> length d_name + 10 > 32 then enum_class fs class_dir json_set
     else case fs_attr fs d_name of
         No_Attr \<Rightarrow> enum_class fs class_dir json_set
       | Read_Error \<Rightarrow> UB
       | Attr contents \<Rightarrow>
           if length contents \<ge> 4096 then UB
           else let firmware_value = cstr contents in
             if length FIRMWARE_BASE + length firmware_value + 1 > 4096 then enum_class fs class_dir json_set
             else let path = FIRMWARE_BASE @ dirname firmware_value in
               if length path + 1 > 4096 then UB
               else (case fs_dir fs path of
                   None \<Rightarrow> UB
                 | Some fw_dir \<Rightarrow>
                     cbind (enum_firmware firmware_value path fw_dir json_set) (enum_class fs class_dir)))"

definition pd_enumerate_jsons :: "pd_fs \<Rightarrow> unit assoc \<Rightarrow> (int \<times> unit assoc) cres" where
  "pd_enumerate_jsons fs json_set =
    (if \<not> fs_class_fd fs then Ok (-1, json_set)
     else case fs_class fs of
         None \<Rightarrow> Ok (0, json_set)
       | Some class_dir \<Rightarrow> cbind (enum_class fs class_dir json_set) (\<lambda>s. Ok (0, s)))"

fun load_each :: "nat \<Rightarrow> pd_fs \<Rightarrow> bytes list \<Rightarrow> int \<Rightarrow> pd_maps \<Rightarrow> (int \<times> pd_maps) cres option" where
  "load_each fuel fs [] ret maps = Some (Ok (ret, maps))"
| "load_each fuel fs (jsn # jsns) ret maps = (case pd_load_map fuel (fs_file fs jsn) maps of
     Some (Ok (ret, maps)) \<Rightarrow> if ret < 0 then Some (Ok (ret, maps)) else load_each fuel fs jsns ret maps
   | r \<Rightarrow> r)"

definition pd_load_maps :: "nat \<Rightarrow> pd_fs \<Rightarrow> (int \<times> pd_maps) cres option" where
  "pd_load_maps fuel fs = (case assoc_init 20 of
     None \<Rightarrow> Some UB
   | Some json_set \<Rightarrow> (case pd_enumerate_jsons fs json_set of
       UB \<Rightarrow> Some UB
     | Err e \<Rightarrow> Some (Err e)
     | Ok (_, json_set) \<Rightarrow> load_each fuel fs (map fst (assoc_foreach json_set)) 0 None))"

section \<open>Requests\<close>

definition zero_req :: servreg_loc_get_domain_list_req where
  "zero_req = \<lparr>req_name_len = 0, req_name = replicate 256 0, req_offset_valid = 0, req_offset = 0\<rparr>"

definition zero_entry :: servreg_loc_domain_list_entry where
  "zero_entry = \<lparr>ent_name_len = 0, ent_name = replicate 256 0, ent_instance_id = 0,
     ent_service_data_valid = 0, ent_service_data = 0\<rparr>"

definition zero_resp :: servreg_loc_get_domain_list_resp where
  "zero_resp = \<lparr>resp_result = 0, resp_error = 0, resp_total_domains_valid = 0, resp_total_domains = 0,
     resp_db_revision_valid = 0, resp_db_revision = 0, resp_domain_list_valid = 0, resp_domain_list_len = 0,
     resp_domain_list = replicate 255 zero_entry\<rparr>"

text \<open>
  The loop over the table. Writing past the 255 entries of the response, or past the 256 characters
  of a name, is undefined.
\<close>

fun fill_domains :: "pd_map list \<Rightarrow> bytes \<Rightarrow> servreg_loc_get_domain_list_resp \<Rightarrow>
    servreg_loc_get_domain_list_resp cres" where
  "fill_domains [] name resp = Ok resp"
| "fill_domains (m # pd_map) name resp =
    (if pm_service m = name then
       let n = unat (resp_domain_list_len resp) in
       if n \<ge> 255 \<or> length (pm_domain m) \<ge> 256 then UB
       else fill_domains pd_map name
         (resp\<lparr>resp_domain_list_len := resp_domain_list_len resp + 1,
            resp_domain_list := (resp_domain_list resp)[n := (resp_domain_list resp ! n)
              \<lparr>ent_name := pm_domain m @ [0] @ drop (length (pm_domain m) + 1) (ent_name (resp_domain_list resp ! n)),
               ent_name_len := of_nat (length (pm_domain m)),
               ent_instance_id := of_int (pm_instance m)\<rparr>]\<rparr>)
     else fill_domains pd_map name resp)"

definition get_domain_list :: "pd_map list \<Rightarrow> bytes \<Rightarrow> servreg_loc_get_domain_list_resp cres" where
  "get_domain_list maps name =
    cbind (fill_domains maps (cstr (name[255 := 0])) (zero_resp\<lparr>resp_db_revision_valid := 1, resp_db_revision := 1\<rparr>))
     (\<lambda>resp. Ok (resp\<lparr>
        resp_domain_list_valid := (if resp_domain_list_len resp \<noteq> 0 then 1 else resp_domain_list_valid resp),
        resp_total_domains_valid := 1,
        resp_total_domains := ucast (resp_domain_list_len resp)\<rparr>))"

text \<open>
  The reply that is sent, if any. \<open>data\<close> is the receive buffer, of which \<open>data_len\<close> bytes were received;
  the reply is encoded into the 256 bytes \<open>resp_buf\<close>; \<open>txn\<close> is the initial value of the transaction id.
\<close>

definition handle_get_domain_list :: "pd_map list \<Rightarrow> bytes \<Rightarrow> nat \<Rightarrow> bytes \<Rightarrow> u16 \<Rightarrow> bytes option cres" where
  "handle_get_domain_list maps data data_len resp_buf txn =
    (case qmi_decode_message (Some (req_bytes zero_req)) data data_len QMI_REQUEST
        SERVREG_LOC_GET_DOMAIN_LIST (Some servreg_loc_get_domain_list_req_ei) of (txn', r) \<Rightarrow>
     let txn = (case txn' of None \<Rightarrow> txn | Some t \<Rightarrow> t) in
     cbind (case r of
         UB \<Rightarrow> UB
       | Err _ \<Rightarrow> Ok (zero_resp\<lparr>resp_result := QMI_RESULT_FAILURE, resp_error := QMI_ERR_MALFORMED_MSG\<rparr>)
       | Ok (_, req) \<Rightarrow> get_domain_list maps (req_name (req_of req))) (\<lambda>resp.
     case qmi_encode_message resp_buf 256 QMI_RESPONSE SERVREG_LOC_GET_DOMAIN_LIST txn
         (Some (resp_bytes resp)) (Some servreg_loc_get_domain_list_resp_ei) of
       UB \<Rightarrow> UB
     | Err _ \<Rightarrow> Ok None
     | Ok (len, resp_buf) \<Rightarrow> Ok (Some (take len resp_buf))))"

section \<open>The daemon\<close>

text \<open>Start-up: the exit status, or the table and the socket.\<close>

definition pd_start :: "nat \<Rightarrow> pd_fs \<Rightarrow> qrtr_sys \<Rightarrow> (int + pd_map list \<times> int) cres option" where
  "pd_start fuel fs sys = (case pd_load_maps fuel fs of
     None \<Rightarrow> None
   | Some UB \<Rightarrow> Some UB
   | Some (Err e) \<Rightarrow> Some (Err e)
   | Some (Ok (ret, maps)) \<Rightarrow> Some (Ok (
       if ret \<noteq> 0 then Inl 1
       else case maps of
           None \<Rightarrow> Inl 1
         | Some maps \<Rightarrow> let fd = fst (qrtr_open sys 0) in
             if fd < 0 then Inl 1
             else if fst (qrtr_publish sys fd SERVREG_QMI_SERVICE SERVREG_QMI_VERSION SERVREG_QMI_INSTANCE) < 0
             then Inl 1 else Inr (maps, fd))))"

text \<open>
  One round of the loop for a datagram \<open>bs\<close> from \<open>sq\<close>; \<open>tail\<close> is the rest of the receive buffer and
  \<open>pkt\<close> the packet left by the round before. The result is the exit status or the reply, if any.
\<close>

definition pd_round :: "pd_map list \<Rightarrow> qrtr_packet \<Rightarrow> bytes \<Rightarrow> bytes \<Rightarrow> sockaddr_qrtr \<Rightarrow> bytes \<Rightarrow> u16 \<Rightarrow>
    (int + qrtr_packet \<times> (u32 \<times> u32 \<times> bytes) option) cres" where
  "pd_round maps pkt bs tail sq resp_buf txn = (case qrtr_decode pkt bs sq of (ret, pkt) \<Rightarrow>
     if ret < 0 then Ok (Inl ret)
     else if ptype pkt = 1 then
       (case qmi_decode_header (pdata pkt @ tail) (length (pdata pkt)) of
          UB \<Rightarrow> UB
        | Err _ \<Rightarrow> Ok (Inr (pkt, None))
        | Ok msg_id \<Rightarrow>
            if msg_id = SERVREG_LOC_GET_DOMAIN_LIST then
              cbind (handle_get_domain_list maps (pdata pkt @ tail) (length (pdata pkt)) resp_buf txn)
                (\<lambda>r. Ok (Inr (pkt, map_option (\<lambda>b. (pnode pkt, pport pkt, b)) r)))
            else Ok (Inr (pkt, None)))
     else Ok (Inr (pkt, None)))"

end
