(* ===== verification/Store_Spec.thy ===== *)
theory Store_Spec
  imports Prelude
begin

text \<open>
  The contract of a byte store, kept by the shared memory and by the storage of the remote file system:
  a successful read returns the bytes at its addresses, a successful write changes these bytes and no
  other byte that was valid before. Copying between two stores block by block is proved correct once
  from the contract.
\<close>

section \<open>Copying\<close>

fun copy_blocks :: "('s \<Rightarrow> nat \<Rightarrow> bytes option) \<Rightarrow> ('t \<Rightarrow> nat \<Rightarrow> bytes \<Rightarrow> 't option) \<Rightarrow> nat \<Rightarrow> nat \<Rightarrow> 's \<Rightarrow> nat \<Rightarrow>
    't \<Rightarrow> nat \<Rightarrow> 't option" where
  "copy_blocks ld st sz 0 s a t b = Some t"
| "copy_blocks ld st sz (Suc n) s a t b = (case ld s a of
     None \<Rightarrow> None
   | Some bs \<Rightarrow> (case st t b bs of
       None \<Rightarrow> None
     | Some t' \<Rightarrow> copy_blocks ld st sz n s (a + sz) t' (b + sz)))"

section \<open>The contract\<close>

locale byte_store =
  fixes ok :: "'s \<Rightarrow> bool" and valid :: "'s \<Rightarrow> nat \<Rightarrow> bool" and byte :: "'s \<Rightarrow> nat \<Rightarrow> u8"
    and load :: "nat \<Rightarrow> 's \<Rightarrow> nat \<Rightarrow> bytes option" and store :: "'s \<Rightarrow> nat \<Rightarrow> bytes \<Rightarrow> 's option"
  assumes load_bytes: "ok s \<Longrightarrow> load n s a = Some bs \<Longrightarrow> bs = map (byte s) [a..<a + n]"
    and store_ok: "ok s \<Longrightarrow> store s a bs = Some s' \<Longrightarrow> ok s'"
    and store_in: "ok s \<Longrightarrow> store s a bs = Some s' \<Longrightarrow> a \<le> x \<Longrightarrow> x < a + length bs \<Longrightarrow> byte s' x = bs ! (x - a)"
    and store_out: "ok s \<Longrightarrow> store s a bs = Some s' \<Longrightarrow> valid s x \<Longrightarrow> x < a \<or> a + length bs \<le> x \<Longrightarrow> byte s' x = byte s x"
    and store_valid: "ok s \<Longrightarrow> store s a bs = Some s' \<Longrightarrow> valid s x \<or> (a \<le> x \<and> x < a + length bs) \<Longrightarrow> valid s' x"
begin

lemma load_length: "ok s \<Longrightarrow> load n s a = Some bs \<Longrightarrow> length bs = n"
  by (drule (1) load_bytes) simp

lemma load_nth: "ok s \<Longrightarrow> load n s a = Some bs \<Longrightarrow> k < n \<Longrightarrow> bs ! k = byte s (a + k)"
  by (drule (1) load_bytes) simp

text \<open>What was stored is loaded again.\<close>

lemma load_store:
  assumes "ok s" "store s a bs = Some s'" "load (length bs) s' a = Some cs"
  shows "cs = bs"
proof (rule nth_equalityI)
  have ok: "ok s'" by (rule store_ok [OF assms(1,2)])
  show "length cs = length bs" by (rule load_length [OF ok assms(3)])
  fix k assume "k < length cs"
  then show "cs ! k = bs ! k"
    using load_nth [OF ok assms(3)] store_in [OF assms(1,2), of "a + k"] load_length [OF ok assms(3)] by simp
qed

end

locale block_copy =
  src: byte_store ok1 valid1 byte1 load1 store1 + dst: byte_store ok2 valid2 byte2 load2 store2
  for ok1 :: "'s \<Rightarrow> bool" and valid1 byte1 load1 store1
    and ok2 :: "'t \<Rightarrow> bool" and valid2 byte2 load2 store2
begin

lemma copy_blocks_correct:
  assumes "copy_blocks (load1 sz) store2 sz n s a t b = Some t'" "ok1 s" "ok2 t"
  shows "ok2 t' \<and> (\<forall>k < n * sz. byte2 t' (b + k) = byte1 s (a + k)) \<and>
    (\<forall>x. valid2 t x \<and> \<not> (b \<le> x \<and> x < b + n * sz) \<longrightarrow> byte2 t' x = byte2 t x) \<and>
    (\<forall>x. valid2 t x \<or> b \<le> x \<and> x < b + n * sz \<longrightarrow> valid2 t' x)"
  using assms
proof (induction n arbitrary: a b t)
  case (Suc n)
  then obtain bs u where u: "load1 sz s a = Some bs" "store2 t b bs = Some u"
    "copy_blocks (load1 sz) store2 sz n s (a + sz) u (b + sz) = Some t'"
    by (auto split: option.splits)
  have l: "length bs = sz" by (rule src.load_length [OF Suc.prems(2) u(1)])
  note ih = Suc.IH [OF u(3) Suc.prems(2) dst.store_ok [OF Suc.prems(3) u(2)]]
  note st = dst.store_in [OF Suc.prems(3) u(2)] dst.store_out [OF Suc.prems(3) u(2)]
    dst.store_valid [OF Suc.prems(3) u(2)]
  have "byte2 t' (b + k) = byte1 s (a + k)" if "k < Suc n * sz" for k
  proof (cases "k < sz")
    case True
    then have "byte2 t' (b + k) = byte2 u (b + k)" using ih st(3) [of "b + k"] l by auto
    then show ?thesis using True st(1) [of "b + k"] l src.load_nth [OF Suc.prems(2) u(1) True] by simp
  next
    case False
    then have "k - sz < n * sz" using that by auto
    with ih have "byte2 t' (b + sz + (k - sz)) = byte1 s (a + sz + (k - sz))" by blast
    then show ?thesis using False by simp
  qed
  moreover have "byte2 t' x = byte2 t x" if "valid2 t x" "\<not> (b \<le> x \<and> x < b + Suc n * sz)" for x
    using ih st(2,3) [of x] l that by auto
  moreover have "valid2 t' x" if "valid2 t x \<or> b \<le> x \<and> x < b + Suc n * sz" for x
    using ih st(3) [of x] l that by (cases "b + sz \<le> x") auto
  ultimately show ?case using ih by blast
qed auto

end

end
