(* ===== verification/Rmtfs_Storage.thy ===== *)
theory Rmtfs_Storage
  imports C_Mem Store_Spec
begin

text \<open>
  The storage of the remote file system daemon, \<open>qcom/rmtfs/storage.c\<close>: ten handles on the partitions a
  modem may open, backed by files or, in read-only mode, by copies of the files in memory (shadow
  buffers). The kernel is a record: the contents of the files, the file each descriptor refers to, the
  size limit of a file (of a partition), and what \<open>open\<close> and the allocations answer. The bytes that
  \<open>realloc\<close> adds are a parameter.
\<close>

section \<open>Files\<close>

record disk =
  files :: "bytes \<Rightarrow> bytes"
  limit :: "bytes \<Rightarrow> nat"
  fds :: "int \<Rightarrow> bytes option"

definition sys_pread :: "disk \<Rightarrow> int \<Rightarrow> nat \<Rightarrow> nat \<Rightarrow> bytes option" where
  "sys_pread d fd n off = map_option (\<lambda>f. take n (drop off (files d f))) (fds d fd)"

definition patch :: "bytes \<Rightarrow> nat \<Rightarrow> bytes \<Rightarrow> bytes" where
  "patch c off bs = take off (c @ replicate (off - length c) 0) @ bs @ drop (off + length bs) c"

definition sys_pwrite :: "disk \<Rightarrow> int \<Rightarrow> bytes \<Rightarrow> nat \<Rightarrow> int \<times> disk" where
  "sys_pwrite d fd bs off = (case fds d fd of
     None \<Rightarrow> (-1, d)
   | Some f \<Rightarrow>
       if limit d f \<le> off then (-1, d)
       else let bs = take (limit d f - off) bs
         in (int (length bs), d\<lparr>files := (files d)(f := patch (files d f) off bs)\<rparr>))"

section \<open>Handles\<close>

record partition =
  part_path :: bytes
  part_actual :: bytes
  part_label :: bytes

definition partition_table :: "partition list" where
  "partition_table =
    [\<lparr>part_path = str ''/boot/modem_fs1'', part_actual = str ''modem_fs1'', part_label = str ''modemst1''\<rparr>,
     \<lparr>part_path = str ''/boot/modem_fs2'', part_actual = str ''modem_fs2'', part_label = str ''modemst2''\<rparr>,
     \<lparr>part_path = str ''/boot/modem_fsc'', part_actual = str ''modem_fsc'', part_label = str ''fsc''\<rparr>,
     \<lparr>part_path = str ''/boot/modem_fsg'', part_actual = str ''modem_fsg'', part_label = str ''fsg''\<rparr>]"

text \<open>A pointer to a partition is its index in the table.\<close>

record rmtfd =
  rid :: nat
  rnode :: u32
  rfd :: int
  dev_error :: u32
  rpart :: "nat option"
  shadow_buf :: "bytes option"
  shadow_len :: nat

record storage =
  storage_dir :: bytes
  storage_read_only :: bool
  storage_use_partitions :: bool
  rmtfds :: "rmtfd list"

abbreviation (input) "MAX_CALLERS \<equiv> (10 :: nat)"
abbreviation (input) "STORAGE_MAX_SIZE \<equiv> (16 * 1024 * 1024 :: nat)"

text \<open>The static variables at start-up.\<close>

definition static_storage :: storage where
  "static_storage = \<lparr>storage_dir = str ''/boot'', storage_read_only = False, storage_use_partitions = False,
     rmtfds = replicate 10 \<lparr>rid = 0, rnode = 0, rfd = 0, dev_error = 0, rpart = None, shadow_buf = None,
       shadow_len = 0\<rparr>\<rparr>"

definition storage_init :: "storage \<Rightarrow> bytes option \<Rightarrow> bool \<Rightarrow> bool \<Rightarrow> storage" where
  "storage_init st storage_root read_only use_partitions =
    (let st = (case storage_root of None \<Rightarrow> st | Some r \<Rightarrow> st\<lparr>storage_dir := r\<rparr>);
         st = (if use_partitions then
             (if storage_root = None then st\<lparr>storage_dir := str ''/dev/disk/by-partlabel''\<rparr> else st)
               \<lparr>storage_use_partitions := True\<rparr>
           else st)
     in st\<lparr>storage_read_only := read_only,
          rmtfds := map (\<lambda>i. (rmtfds st ! i)\<lparr>rid := i, rfd := -1, shadow_buf := None\<rparr>) [0..<10]\<rparr>)"

text \<open>The answers to \<open>open\<close>, \<open>lseek\<close>, \<open>calloc\<close> and \<open>read\<close> for a path.\<close>

record image =
  img_size :: int
  img_calloc :: bool
  img_read :: "bytes option"

record st_env =
  env_open_rw :: "bytes \<Rightarrow> int"
  env_open_ro :: "bytes \<Rightarrow> image option"

definition storage_populate_shadow_buf :: "st_env \<Rightarrow> rmtfd \<Rightarrow> bytes \<Rightarrow> int \<times> rmtfd" where
  "storage_populate_shadow_buf env r file = (case env_open_ro env file of
     None \<Rightarrow> (-1, r)
   | Some img \<Rightarrow>
       if img_size img < 0 then (-1, r)
       else if \<not> img_calloc img then (-1, r)
       else (case img_read img of
           None \<Rightarrow> (-1, r)
         | Some bs \<Rightarrow> (0, r\<lparr>shadow_buf := Some (bs @ replicate (nat (img_size img) - length bs) 0),
             shadow_len := length bs\<rparr>)))"

definition find_partition :: "bytes \<Rightarrow> nat option" where
  "find_partition path = List.find (\<lambda>i. part_path (partition_table ! i) = path) [0..<length partition_table]"

definition in_use :: "rmtfd \<Rightarrow> bool" where
  "in_use r \<longleftrightarrow> rfd r \<noteq> -1 \<or> shadow_buf r \<noteq> None"

text \<open>The index of the handle, \<open>None\<close> for a null pointer; an opened file gets the descriptor the kernel chose.\<close>

definition storage_open :: "st_env \<Rightarrow> storage \<Rightarrow> disk \<Rightarrow> u32 \<Rightarrow> bytes \<Rightarrow> nat option \<times> storage \<times> disk" where
  "storage_open env st d node path = (case find_partition path of
     None \<Rightarrow> (None, st, d)
   | Some part \<Rightarrow>
      (case List.find (\<lambda>i. in_use (rmtfds st ! i) \<and> rnode (rmtfds st ! i) = node \<and>
          rpart (rmtfds st ! i) = Some part) [0..<10] of
         Some i \<Rightarrow> (Some i, st, d)
       | None \<Rightarrow>
          (case List.find (\<lambda>i. \<not> in_use (rmtfds st ! i)) [0..<10] of
             None \<Rightarrow> (None, st, d)
           | Some i \<Rightarrow>
              let p = partition_table ! part;
                  file = (if storage_use_partitions st then part_label p else part_actual p);
                  fspath = storage_dir st @ [47] @ file;
                  take_slot = (\<lambda>r. st\<lparr>rmtfds := (rmtfds st)[i := r\<lparr>rnode := node, rpart := Some part\<rparr>]\<rparr>)
              in if \<not> storage_read_only st then
                   let fd = env_open_rw env fspath in
                   if fd < 0 then (None, st, d)
                   else (Some i, take_slot ((rmtfds st ! i)\<lparr>rfd := fd, shadow_len := 0\<rparr>),
                     d\<lparr>fds := (fds d)(fd \<mapsto> fspath)\<rparr>)
                 else
                   (case storage_populate_shadow_buf env (rmtfds st ! i) fspath of (ret, r) \<Rightarrow>
                     if ret < 0 then (None, st, d) else (Some i, take_slot r, d)))))"

definition storage_close :: "storage \<Rightarrow> disk \<Rightarrow> nat \<Rightarrow> storage \<times> disk" where
  "storage_close st d i = (let r = rmtfds st ! i in
     (st\<lparr>rmtfds := (rmtfds st)[i := r\<lparr>rfd := -1, shadow_buf := None, shadow_len := 0, rpart := None\<rparr>]\<rparr>,
      d\<lparr>fds := (fds d)(rfd r := None)\<rparr>))"

text \<open>The argument is converted to \<open>int\<close>: a negative one indexes in front of the array.\<close>

definition storage_get :: "storage \<Rightarrow> u32 \<Rightarrow> u32 \<Rightarrow> nat option cres" where
  "storage_get st node caller_id =
    (if sint caller_id \<ge> 10 then Ok None
     else if sint caller_id < 0 then UB
     else if rnode (rmtfds st ! unat caller_id) \<noteq> node then Ok None
     else Ok (Some (unat caller_id)))"

definition storage_get_caller_id :: "storage \<Rightarrow> nat \<Rightarrow> u32" where
  "storage_get_caller_id st i = of_nat (rid (rmtfds st ! i))"

definition storage_get_error :: "storage \<Rightarrow> nat \<Rightarrow> u32" where
  "storage_get_error st i = dev_error (rmtfds st ! i)"

definition storage_exit :: "storage \<Rightarrow> disk \<Rightarrow> disk" where
  "storage_exit st d = d\<lparr>fds := (\<lambda>fd. if \<exists>r\<in>set (rmtfds st). rfd r \<ge> 0 \<and> rfd r = fd then None else fds d fd)\<rparr>"

section \<open>Reading and writing\<close>

text \<open>
  The buffer has \<open>nbyte\<close> bytes. When \<open>pread\<close> fails, the comparison \<open>n < nbyte\<close> is unsigned and false: the
  buffer keeps its contents and the call reports success.
\<close>

definition storage_pread :: "storage \<Rightarrow> disk \<Rightarrow> nat \<Rightarrow> bytes \<Rightarrow> nat \<Rightarrow> (int \<times> bytes) cres" where
  "storage_pread st d i buf offset =
    (let r = rmtfds st ! i; nbyte = length buf;
         pad = (\<lambda>bs. (int nbyte, bs @ replicate (nbyte - length bs) 0))
     in if \<not> storage_read_only st then
          Ok (case sys_pread d (rfd r) nbyte offset of None \<Rightarrow> (int nbyte, buf) | Some bs \<Rightarrow> pad bs)
        else let n = min nbyte (sub64 (shadow_len r) offset) in
          if n > 0 then (case shadow_buf r of
              None \<Rightarrow> UB
            | Some sh \<Rightarrow> (case rd sh offset n of None \<Rightarrow> UB | Some bs \<Rightarrow> Ok (pad bs)))
          else Ok (pad []))"

definition storage_pwrite :: "bool \<Rightarrow> (nat \<Rightarrow> u8) \<Rightarrow> storage \<Rightarrow> disk \<Rightarrow> nat \<Rightarrow> bytes \<Rightarrow> nat \<Rightarrow>
    (int \<times> storage \<times> disk) cres" where
  "storage_pwrite realloc_ok fresh st d i buf offset =
    (let r = rmtfds st ! i; nbyte = length buf; new_len = offset + nbyte in
     if \<not> storage_read_only st then
       (case sys_pwrite d (rfd r) buf offset of (n, d) \<Rightarrow> Ok (n, st, d))
     else if new_len \<ge> STORAGE_MAX_SIZE then Ok (-1, st, d)
     else if new_len > shadow_len r \<and> \<not> realloc_ok then Ok (-1, st, d)
     else let r = (if new_len > shadow_len r then
             let old = (case shadow_buf r of None \<Rightarrow> [] | Some sh \<Rightarrow> sh)
             in r\<lparr>shadow_buf := Some (take new_len old @ map fresh [length old..<new_len]), shadow_len := new_len\<rparr>
           else r)
       in case shadow_buf r of
           None \<Rightarrow> UB
         | Some sh \<Rightarrow> (case wr sh offset buf of
             None \<Rightarrow> UB
           | Some sh \<Rightarrow> Ok (int nbyte, st\<lparr>rmtfds := (rmtfds st)[i := r\<lparr>shadow_buf := Some sh\<rparr>]\<rparr>, d)))"

section \<open>The handle table\<close>

definition handle_ok :: "nat \<Rightarrow> rmtfd \<Rightarrow> bool" where
  "handle_ok i r \<longleftrightarrow> rid r = i \<and> (in_use r \<longrightarrow> (\<exists>p < length partition_table. rpart r = Some p)) \<and>
     (\<forall>sh. shadow_buf r = Some sh \<longrightarrow> shadow_len r \<le> length sh \<and> length sh < 2 ^ 63)"

definition storage_ok :: "storage \<Rightarrow> bool" where
  "storage_ok st \<longleftrightarrow> length (rmtfds st) = 10 \<and> (\<forall>i<10. handle_ok i (rmtfds st ! i)) \<and>
     (\<forall>i<10. \<forall>j<10. in_use (rmtfds st ! i) \<and> in_use (rmtfds st ! j) \<and>
        rnode (rmtfds st ! i) = rnode (rmtfds st ! j) \<and> rpart (rmtfds st ! i) = rpart (rmtfds st ! j) \<longrightarrow> i = j)"

text \<open>What \<open>read\<close> and the size of an object in memory guarantee.\<close>

definition image_ok :: "st_env \<Rightarrow> bool" where
  "image_ok env \<longleftrightarrow> (\<forall>f img bs. env_open_ro env f = Some img \<longrightarrow> img_read img = Some bs \<longrightarrow>
     int (length bs) \<le> img_size img \<and> img_size img < 2 ^ 63)"

lemma find_upt:
  "List.find P [0..<n] = Some i \<Longrightarrow> i < n \<and> P i"
  "List.find P [0..<n] = None \<Longrightarrow> \<forall>i<n. \<not> P i"
  by (auto simp: find_Some_iff find_None_iff)

lemma find_upt_unique:
  assumes "i < n" "P i" "\<And>j. j < n \<Longrightarrow> P j \<Longrightarrow> j = i"
  shows "List.find P [0..<n] = Some i"
proof (cases "List.find P [0..<n]")
  case None
  then show ?thesis using find_upt(2) [OF None] assms by blast
next
  case (Some j)
  then show ?thesis using find_upt(1) [OF Some] assms(3) by simp
qed

lemma find_partition_Some: "find_partition path = Some p \<Longrightarrow> p < length partition_table"
  using find_upt(1) by (fastforce simp: find_partition_def)

lemma storage_ok_put:
  assumes "storage_ok st" "i < 10" "handle_ok i r"
    "in_use r \<longrightarrow> (\<forall>j<10. j \<noteq> i \<longrightarrow> \<not> (in_use (rmtfds st ! j) \<and> rnode (rmtfds st ! j) = rnode r \<and>
       rpart (rmtfds st ! j) = rpart r))"
  shows "storage_ok (st\<lparr>rmtfds := (rmtfds st)[i := r]\<rparr>)"
proof -
  let ?fds = "(rmtfds st)[i := r]"
  have l: "length (rmtfds st) = 10" using assms(1) by (simp add: storage_ok_def)
  have nth: "?fds ! j = (if j = i then r else rmtfds st ! j)" if "j < 10" for j using that l by simp
  have "\<forall>j<10. handle_ok j (?fds ! j)" using assms(1-3) l by (auto simp: storage_ok_def nth_list_update)
  moreover have "j = k" if "j < 10" "k < 10" "in_use (?fds ! j)" "in_use (?fds ! k)"
      "rnode (?fds ! j) = rnode (?fds ! k)" "rpart (?fds ! j) = rpart (?fds ! k)" for j k
  proof (cases "j = i \<or> k = i")
    case False
    then show ?thesis using that nth assms(1) unfolding storage_ok_def by auto
  next
    case True
    then show ?thesis using that nth assms(4) by (auto split: if_splits)
  qed
  ultimately show ?thesis using l by (simp add: storage_ok_def)
qed

text \<open>Filling a free handle, for a pair of node and partition that is not open, keeps the table in order.\<close>

lemma storage_ok_take:
  assumes "storage_ok st" "i < 10" "p < length partition_table"
    "\<forall>j<10. \<not> (in_use (rmtfds st ! j) \<and> rnode (rmtfds st ! j) = node \<and> rpart (rmtfds st ! j) = Some p)"
    "rid r = i" "\<forall>sh. shadow_buf r = Some sh \<longrightarrow> shadow_len r \<le> length sh \<and> length sh < 2 ^ 63"
  shows "storage_ok (st\<lparr>rmtfds := (rmtfds st)[i := r\<lparr>rnode := node, rpart := Some p\<rparr>]\<rparr>)"
  by (rule storage_ok_put [OF assms(1,2)]) (use assms(3-6) in \<open>auto simp: handle_ok_def\<close>)

lemma storage_ok_close: "storage_ok st \<Longrightarrow> i < 10 \<Longrightarrow> storage_ok (fst (storage_close st d i))"
  unfolding storage_close_def Let_def fst_conv
  by (rule storage_ok_put) (auto simp: storage_ok_def handle_ok_def in_use_def)

lemma storage_ok_init: "length (rmtfds st) = 10 \<Longrightarrow> storage_ok (storage_init st root ro use)"
  by (auto simp: storage_ok_def storage_init_def handle_ok_def in_use_def Let_def)

lemma shadow_handle:
  assumes "storage_ok st" "i < 10" "image_ok env" "storage_populate_shadow_buf env (rmtfds st ! i) f = (ret, r)"
    "\<not> ret < 0"
  shows "rid r = i" "in_use r" "\<forall>sh. shadow_buf r = Some sh \<longrightarrow> shadow_len r \<le> length sh \<and> length sh < 2 ^ 63"
proof -
  obtain img bs where i: "env_open_ro env f = Some img" "img_read img = Some bs" "0 \<le> img_size img"
    "r = (rmtfds st ! i)\<lparr>shadow_buf := Some (bs @ replicate (nat (img_size img) - length bs) 0), shadow_len := length bs\<rparr>"
    using assms(4,5) by (auto simp: storage_populate_shadow_buf_def split: option.splits if_splits)
  then show "rid r = i" "in_use r" using assms(1,2) by (auto simp: storage_ok_def handle_ok_def in_use_def)
  have "int (length bs) \<le> img_size img" "img_size img < 2 ^ 63"
    using assms(3) i(1,2) unfolding image_ok_def by blast+
  then show "\<forall>sh. shadow_buf r = Some sh \<longrightarrow> shadow_len r \<le> length sh \<and> length sh < 2 ^ 63" using i by auto
qed

definition opened :: "storage \<Rightarrow> nat \<Rightarrow> u32 \<Rightarrow> nat \<Rightarrow> bool" where
  "opened st i node p \<longleftrightarrow> i < 10 \<and> in_use (rmtfds st ! i) \<and> rnode (rmtfds st ! i) = node \<and>
     rpart (rmtfds st ! i) = Some p"

text \<open>The handle of an open pair is found again, and nothing changes.\<close>

lemma storage_reopen:
  assumes "storage_ok st" "find_partition path = Some p" "opened st i node p"
  shows "storage_open env st d node path = (Some i, st, d)"
proof -
  have "List.find (\<lambda>i. in_use (rmtfds st ! i) \<and> rnode (rmtfds st ! i) = node \<and> rpart (rmtfds st ! i) = Some p)
      [0..<10] = Some i"
  proof (rule find_upt_unique)
    fix j assume "j < 10" "in_use (rmtfds st ! j) \<and> rnode (rmtfds st ! j) = node \<and> rpart (rmtfds st ! j) = Some p"
    then show "j = i" using assms(1,3) unfolding storage_ok_def opened_def by metis
  qed (use assms(3) in \<open>auto simp: opened_def\<close>)
  then show ?thesis using assms(2) by (simp add: storage_open_def)
qed

lemma storage_open_cases:
  assumes "storage_ok st" "image_ok env" "storage_open env st d node path = (res, st', d')"
  shows "(res = None \<and> st' = st \<and> d' = d) \<or>
    (\<exists>i p. res = Some i \<and> find_partition path = Some p \<and> storage_ok st' \<and> opened st' i node p \<and>
      (\<forall>j<10. j \<noteq> i \<longrightarrow> rmtfds st' ! j = rmtfds st ! j))"
proof (cases "find_partition path")
  case None
  then show ?thesis using assms(3) by (simp add: storage_open_def)
next
  case (Some p)
  note pl = find_partition_Some [OF Some]
  define old where "old = List.find (\<lambda>i. in_use (rmtfds st ! i) \<and> rnode (rmtfds st ! i) = node \<and>
    rpart (rmtfds st ! i) = Some p) [0..<10]"
  define free where "free = List.find (\<lambda>i. \<not> in_use (rmtfds st ! i)) [0..<10]"
  show ?thesis
  proof (cases old)
    case (Some i)
    then have "opened st i node p" using find_upt(1) unfolding old_def opened_def by blast
    moreover from this have "(res, st', d') = (Some i, st, d)"
      using storage_reopen [OF assms(1) \<open>find_partition path = Some p\<close>] assms(3) by simp
    ultimately show ?thesis using \<open>find_partition path = Some p\<close> assms(1) by auto
  next
    case None
    then have no: "\<forall>j<10. \<not> (in_use (rmtfds st ! j) \<and> rnode (rmtfds st ! j) = node \<and> rpart (rmtfds st ! j) = Some p)"
      using find_upt(2) unfolding old_def by blast
    show ?thesis
    proof (cases free)
      case None
      then show ?thesis using assms(3) \<open>old = None\<close> Some by (simp add: storage_open_def old_def free_def)
    next
      case (Some i)
      then have i: "i < 10" "\<not> in_use (rmtfds st ! i)" using find_upt(1) unfolding free_def by blast+
      let ?file = "storage_dir st @ [47] @ (if storage_use_partitions st then part_label (partition_table ! p)
        else part_actual (partition_table ! p))"
      let ?slot = "\<lambda>r. st\<lparr>rmtfds := (rmtfds st)[i := r\<lparr>rnode := node, rpart := Some p\<rparr>]\<rparr>"
      have f: "find_partition path = Some p" by fact
      have l: "length (rmtfds st) = 10" "handle_ok i (rmtfds st ! i)" using assms(1) i by (auto simp: storage_ok_def)
      have filled: "storage_ok (?slot r) \<and> opened (?slot r) i node p \<and> (\<forall>j<10. j \<noteq> i \<longrightarrow> rmtfds (?slot r) ! j = rmtfds st ! j)"
        if "rid r = i" "in_use r" "\<forall>sh. shadow_buf r = Some sh \<longrightarrow> shadow_len r \<le> length sh \<and> length sh < 2 ^ 63" for r
        using storage_ok_take [OF assms(1) i(1) pl no that(1,3)] that(2) i(1) l(1) by (auto simp: opened_def in_use_def)
      show ?thesis
      proof (cases "storage_read_only st")
        case False
        define fd where "fd = env_open_rw env ?file"
        define r where "r = (rmtfds st ! i)\<lparr>rfd := fd, shadow_len := 0\<rparr>"
        have "storage_open env st d node path = (if fd < 0 then (None, st, d)
            else (Some i, ?slot r, d\<lparr>fds := (fds d)(fd \<mapsto> ?file)\<rparr>))"
          using f \<open>old = None\<close> Some False unfolding old_def free_def
          by (simp add: storage_open_def Let_def fd_def r_def)
        moreover have "\<not> fd < 0 \<Longrightarrow> rid r = i \<and> in_use r" "\<forall>sh. shadow_buf r = Some sh \<longrightarrow> shadow_len r \<le> length sh \<and> length sh < 2 ^ 63"
          using l(2) by (auto simp: r_def handle_ok_def in_use_def)
        ultimately show ?thesis using assms(3) filled [of r] f by (auto split: if_splits)
      next
        case True
        obtain ret r where r: "storage_populate_shadow_buf env (rmtfds st ! i) ?file = (ret, r)" by fastforce
        have "storage_open env st d node path = (if ret < 0 then (None, st, d) else (Some i, ?slot r, d))"
          using f \<open>old = None\<close> Some True r unfolding old_def free_def by (simp add: storage_open_def Let_def)
        then show ?thesis
          using assms(3) filled [of r] f shadow_handle [OF assms(1) i(1) assms(2) r] by (auto split: if_splits)
      qed
    qed
  qed
qed

section \<open>Data\<close>

lemma take_drop_patch:
  "take (length bs) (drop off (patch c off bs)) = bs"
  "o' + n \<le> off \<Longrightarrow> o' + n \<le> length c \<Longrightarrow> take n (drop o' (patch c off bs)) = take n (drop o' c)"
  "off + length bs \<le> o' \<Longrightarrow> take n (drop o' (patch c off bs)) = take n (drop o' c)"
proof -
  let ?a = "take off (c @ replicate (off - length c) 0)"
  have l: "length ?a = off" by simp
  then show "take (length bs) (drop off (patch c off bs)) = bs" by (simp add: patch_def)
  show "take n (drop o' (patch c off bs)) = take n (drop o' c)" if "o' + n \<le> off" "o' + n \<le> length c"
  proof -
    have "take (o' + n) (patch c off bs) = take (o' + n) c" using that by (simp add: patch_def)
    then show ?thesis by (metis add_diff_cancel_left' drop_take)
  qed
  show "take n (drop o' (patch c off bs)) = take n (drop o' c)" if "off + length bs \<le> o'"
  proof -
    have "drop o' (patch c off bs) = drop (o' - (off + length bs)) (drop (off + length bs) c)"
      using that l by (simp add: patch_def)
    then show ?thesis using that by simp
  qed
qed

text \<open>The shadow buffer of a handle after it was made large enough.\<close>

lemma grow_shadow:
  fixes fresh :: "nat \<Rightarrow> u8"
  assumes "handle_ok i r" "in_use r" "shadow_buf r \<noteq> None \<or> n > shadow_len r" "n < STORAGE_MAX_SIZE"
  defines "old \<equiv> (case shadow_buf r of None \<Rightarrow> [] | Some sh \<Rightarrow> sh)"
  defines "r' \<equiv> (if n > shadow_len r then r\<lparr>shadow_buf := Some (take n old @ map fresh [length old..<n]),
    shadow_len := n\<rparr> else r)"
  obtains sh where "shadow_buf r' = Some sh" "n \<le> shadow_len r'" "shadow_len r' \<le> length sh" "length sh < 2 ^ 63"
    "rid r' = i" "rnode r' = rnode r" "rpart r' = rpart r" "rfd r' = rfd r"
  using assms(1-4) by (cases "n > shadow_len r") (auto simp: r'_def handle_ok_def old_def intro: that)

lemma storage_pwrite_shadow:
  assumes "storage_ok st" "i < 10" "in_use (rmtfds st ! i)" "storage_read_only st"
    "shadow_buf (rmtfds st ! i) \<noteq> None" "storage_pwrite ok fresh st d i bs off = Ok (int (length bs), st', d')"
  obtains sh sh' where "wr sh off bs = Some sh'" "shadow_buf (rmtfds st' ! i) = Some sh'"
    "off + length bs \<le> shadow_len (rmtfds st' ! i)" "shadow_len (rmtfds st' ! i) \<le> length sh'"
    "length sh' < 2 ^ 63" "storage_read_only st'" "storage_ok st'"
proof -
  let ?r = "rmtfds st ! i" and ?n = "off + length bs"
  have h: "handle_ok i ?r" and l: "length (rmtfds st) = 10" using assms(1,2) by (auto simp: storage_ok_def)
  have n: "?n < STORAGE_MAX_SIZE" using assms(4,6) by (auto simp: storage_pwrite_def Let_def split: if_splits)
  define r where "r = (if ?n > shadow_len ?r then ?r\<lparr>shadow_buf := Some (take ?n (case shadow_buf ?r of None \<Rightarrow> [] | Some sh \<Rightarrow> sh) @
    map fresh [length (case shadow_buf ?r of None \<Rightarrow> [] | Some sh \<Rightarrow> sh)..<?n]), shadow_len := ?n\<rparr> else ?r)"
  obtain sh where sh: "shadow_buf r = Some sh" "?n \<le> shadow_len r" "shadow_len r \<le> length sh" "length sh < 2 ^ 63"
    "rid r = i" "rnode r = rnode ?r" "rpart r = rpart ?r" "rfd r = rfd ?r"
    unfolding r_def by (rule grow_shadow [OF h assms(3) disjI1 [OF assms(5)] n])
  obtain sh' where sh': "wr sh off bs = Some sh'" using sh(2,3) by (auto simp: wr_def)
  let ?s = "st\<lparr>rmtfds := (rmtfds st)[i := r\<lparr>shadow_buf := Some sh'\<rparr>]\<rparr>"
  have st': "st' = ?s"
    using assms(4,6) sh(1) sh' unfolding storage_pwrite_def Let_def r_def [symmetric] by (auto split: if_splits)
  have len: "length sh' = length sh" using wr_length [OF sh'] .
  have ok: "storage_ok ?s"
  proof (rule storage_ok_put [OF assms(1,2)])
    show "handle_ok i (r\<lparr>shadow_buf := Some sh'\<rparr>)"
      using sh len h assms(3) by (auto simp: handle_ok_def in_use_def)
    show "in_use (r\<lparr>shadow_buf := Some sh'\<rparr>) \<longrightarrow> (\<forall>j<10. j \<noteq> i \<longrightarrow> \<not> (in_use (rmtfds st ! j) \<and>
        rnode (rmtfds st ! j) = rnode (r\<lparr>shadow_buf := Some sh'\<rparr>) \<and> rpart (rmtfds st ! j) = rpart (r\<lparr>shadow_buf := Some sh'\<rparr>)))"
      using assms(1,2,3) sh unfolding storage_ok_def by (metis rmtfd.select_convs(2,5) rmtfd.surjective rmtfd.update_convs(6))
  qed
  show thesis by (rule that [of sh sh']) (use sh' sh len ok l assms(2,4) in \<open>auto simp: st'\<close>)
qed

text \<open>
  C17: what a modem writes it reads back. If \<open>storage_pwrite\<close> reports that all bytes were written through
  an open handle, in a file or in a shadow buffer, then \<open>storage_pread\<close> at the same offset returns these
  bytes, and the handle table stays in order.
\<close>

theorem storage_write_read:
  assumes "storage_ok st" "i < 10" "opened st i node p" "storage_read_only st = (shadow_buf (rmtfds st ! i) \<noteq> None)"
    "storage_pwrite ok fresh st d i bs off = Ok (int (length bs), st', d')" "length buf = length bs"
  shows "storage_pread st' d' i buf off = Ok (int (length bs), bs) \<and> storage_ok st'"
proof (cases "storage_read_only st")
  case False
  then have f: "sys_pwrite d (rfd (rmtfds st ! i)) bs off = (int (length bs), d')" "st' = st"
    using assms(5) by (auto simp: storage_pwrite_def Let_def split: prod.splits)
  then obtain f where "fds d (rfd (rmtfds st ! i)) = Some f" "d' = d\<lparr>files := (files d)(f := patch (files d f) off bs)\<rparr>"
    by (auto simp: sys_pwrite_def Let_def split: option.splits if_splits)
  then show ?thesis using f False assms(1,6) take_drop_patch(1) [of bs off]
    by (simp add: storage_pread_def Let_def sys_pread_def)
next
  case True
  obtain sh sh' where w: "wr sh off bs = Some sh'" "shadow_buf (rmtfds st' ! i) = Some sh'"
    "off + length bs \<le> shadow_len (rmtfds st' ! i)" "shadow_len (rmtfds st' ! i) \<le> length sh'"
    "length sh' < 2 ^ 63" "storage_read_only st'" "storage_ok st'"
    by (rule storage_pwrite_shadow [OF assms(1,2) _ True _ assms(5)])
      (use assms(3,4) True in \<open>auto simp: opened_def\<close>)
  have "sub64 (shadow_len (rmtfds st' ! i)) off = shadow_len (rmtfds st' ! i) - off" using w by simp
  then have "min (length bs) (sub64 (shadow_len (rmtfds st' ! i)) off) = length bs" using w(3) by simp
  then show ?thesis using w rd_wr_same [OF w(1)] assms(6)
    by (cases "bs = []") (simp_all add: storage_pread_def Let_def del: min_less_iff_conj)
qed

abbreviation demo_st_env :: st_env where
  "demo_st_env \<equiv> \<lparr>env_open_rw = (\<lambda>_. 3), env_open_ro = (\<lambda>_. None)\<rparr>"

definition demo_disk :: disk where
  "demo_disk = \<lparr>files = (\<lambda>_. []), limit = (\<lambda>_. 2048), fds = (\<lambda>_. None)\<rparr>"

definition demo_opened :: "nat option \<times> storage \<times> disk" where
  "demo_opened = storage_open demo_st_env (storage_init static_storage None False False) demo_disk 5 (str ''/boot/modem_fs1'')"

lemma demo_image_ok: "image_ok demo_st_env"
  by (simp add: image_ok_def)

lemma demo_init_ok: "storage_ok (storage_init static_storage None False False)"
  by (rule storage_ok_init) (simp add: static_storage_def)

lemma demo_opened_res: "fst demo_opened = Some 0"
  by code_simp

lemma demo_opened_ok:
  obtains p where "opened (fst (snd demo_opened)) 0 5 p" "storage_ok (fst (snd demo_opened))"
  using storage_open_cases [OF demo_init_ok demo_image_ok, of demo_disk 5 "str ''/boot/modem_fs1''"]
    demo_opened_res unfolding demo_opened_def by (metis option.inject option.simps(3) prod.collapse)

theorem storage_write_read_witness:
  "storage_pread (fst (snd demo_opened)) (snd (sys_pwrite (snd (snd demo_opened)) 3 [1, 2, 3] 10)) 0 [9, 9, 9] 10 =
    Ok (3, [1, 2, 3]) \<and> storage_ok (fst (snd demo_opened))"
proof -
  obtain p where p: "opened (fst (snd demo_opened)) 0 5 p" "storage_ok (fst (snd demo_opened))"
    by (rule demo_opened_ok)
  have a: "storage_read_only (fst (snd demo_opened)) = (shadow_buf (rmtfds (fst (snd demo_opened)) ! 0) \<noteq> None)"
    "rfd (rmtfds (fst (snd demo_opened)) ! 0) = 3" "\<not> storage_read_only (fst (snd demo_opened))"
    "fst (sys_pwrite (snd (snd demo_opened)) 3 [1, 2, 3] 10) = 3"
    by code_simp+
  have "storage_pwrite True (\<lambda>_. 0) (fst (snd demo_opened)) (snd (snd demo_opened)) 0 [1, 2, 3] 10 =
      Ok (int (length [1, 2, 3 :: u8]), fst (snd demo_opened), snd (sys_pwrite (snd (snd demo_opened)) 3 [1, 2, 3] 10))"
    using a by (cases "sys_pwrite (snd (snd demo_opened)) 3 [1, 2, 3] 10") (simp add: storage_pwrite_def Let_def)
  from storage_write_read [OF p(2) _ p(1) a(1) this, of "[9, 9, 9]"] show ?thesis by simp
qed

text \<open>
  C24: opening is by partition and by node. Every state of the handle table that \<open>storage_open\<close> reaches is
  in order (handles carry their index, no node has a partition open twice). A failing open changes
  nothing; a successful one returns a handle for the requested partition and node, leaves all other
  handles alone, and repeating it returns the same handle without any change.
\<close>

theorem storage_open_ok:
  assumes "storage_ok st" "image_ok env" "storage_open env st d node path = (res, st', d')"
  shows "storage_ok st' \<and> (case res of
      None \<Rightarrow> st' = st \<and> d' = d
    | Some i \<Rightarrow> (\<exists>p. find_partition path = Some p \<and> opened st' i node p) \<and>
        (\<forall>j<10. j \<noteq> i \<longrightarrow> rmtfds st' ! j = rmtfds st ! j) \<and>
        storage_open env st' d' node path = (Some i, st', d'))"
  using storage_open_cases [OF assms] assms(1) storage_reopen by (auto split: option.splits)

theorem storage_open_ok_witness:
  "\<exists>i p. fst demo_opened = Some i \<and> find_partition (str ''/boot/modem_fs1'') = Some p \<and> opened (fst (snd demo_opened)) i 5 p"
  using storage_open_ok [OF demo_init_ok demo_image_ok, of demo_disk 5 "str ''/boot/modem_fs1''"] demo_opened_res
  unfolding demo_opened_def by (cases "storage_open demo_st_env (storage_init static_storage None False False)
    demo_disk 5 (str ''/boot/modem_fs1'')") auto



section \<open>A handle as a byte store\<close>

text \<open>
  A file is read as if it went on with zeros. In read-only mode the bytes of the shadow buffer are valid;
  the file was read completely.
\<close>

definition storage_inv :: "nat \<Rightarrow> storage \<times> disk \<Rightarrow> bool" where
  "storage_inv i s = (case s of (st, d) \<Rightarrow> let r = rmtfds st ! i in
     storage_ok st \<and> i < 10 \<and> in_use r \<and>
     (if storage_read_only st then \<exists>sh. shadow_buf r = Some sh \<and> shadow_len r = length sh else fds d (rfd r) \<noteq> None))"

definition zero_ext :: "bytes \<Rightarrow> nat \<Rightarrow> u8" where
  "zero_ext c x = (if x < length c then c ! x else 0)"

definition storage_contents :: "nat \<Rightarrow> storage \<times> disk \<Rightarrow> bytes" where
  "storage_contents i s = (case s of (st, d) \<Rightarrow> let r = rmtfds st ! i in
     if storage_read_only st then (case shadow_buf r of None \<Rightarrow> [] | Some sh \<Rightarrow> sh)
     else (case fds d (rfd r) of None \<Rightarrow> [] | Some f \<Rightarrow> files d f))"

definition storage_byte :: "nat \<Rightarrow> storage \<times> disk \<Rightarrow> nat \<Rightarrow> u8" where
  "storage_byte i s = zero_ext (storage_contents i s)"

definition storage_valid :: "nat \<Rightarrow> storage \<times> disk \<Rightarrow> nat \<Rightarrow> bool" where
  "storage_valid i s x \<longleftrightarrow> storage_read_only (fst s) \<longrightarrow> x < length (storage_contents i s)"

definition storage_load :: "nat \<Rightarrow> nat \<Rightarrow> storage \<times> disk \<Rightarrow> nat \<Rightarrow> bytes option" where
  "storage_load i n s a = (case s of (st, d) \<Rightarrow> if a + n < 2 ^ 63 then
     (case storage_pread st d i (replicate n 0) a of Ok (k, bs) \<Rightarrow> Some bs | _ \<Rightarrow> None) else None)"

definition storage_store :: "(nat \<Rightarrow> bool) \<Rightarrow> (nat \<Rightarrow> u8) \<Rightarrow> nat \<Rightarrow> storage \<times> disk \<Rightarrow> nat \<Rightarrow> bytes \<Rightarrow>
    (storage \<times> disk) option" where
  "storage_store rok fresh i s a bs = (case s of (st, d) \<Rightarrow>
     (case storage_pwrite (rok (a + length bs)) fresh st d i bs a of
        Ok (k, s') \<Rightarrow> if k = int (length bs) then Some s' else None
      | _ \<Rightarrow> None))"

lemma zero_ext_padded:
  "take n (drop a c) @ replicate (n - length (take n (drop a c))) 0 = map (zero_ext c) [a..<a + n]"
  by (rule nth_equalityI) (auto simp: zero_ext_def nth_append min_def)

lemma zero_ext_patch:
  "zero_ext (patch c a bs) x = (if a \<le> x \<and> x < a + length bs then bs ! (x - a) else zero_ext c x)"
proof -
  consider "x < a" | "a \<le> x" "x < a + length bs" | "a + length bs \<le> x" by linarith
  moreover have "min (length c) a + (a - length c) = a" by simp
  ultimately show ?thesis by cases (auto simp: zero_ext_def patch_def nth_append)
qed

lemma storage_pread_bytes:
  assumes "storage_inv i (st, d)" "a + length buf < 2 ^ 63"
  shows "storage_pread st d i buf a = Ok (int (length buf), map (storage_byte i (st, d)) [a..<a + length buf]) \<or>
    storage_pread st d i buf a = UB"
proof (cases "storage_read_only st")
  case False
  then show ?thesis using assms(1)
    by (auto simp: storage_inv_def storage_pread_def sys_pread_def storage_byte_def storage_contents_def Let_def
        zero_ext_padded [simplified])
next
  case True
  then obtain sh where sh: "shadow_buf (rmtfds st ! i) = Some sh" "shadow_len (rmtfds st ! i) = length sh"
    "length sh < 2 ^ 63" using assms(1) by (auto simp: storage_inv_def storage_ok_def handle_ok_def Let_def)
  have b: "storage_byte i (st, d) = zero_ext sh" using True sh by (simp add: storage_byte_def storage_contents_def)
  show ?thesis
  proof (cases "a \<le> length sh")
    case False
    then have "length buf \<le> sub64 (length sh) a" using assms(2) by (auto simp: sub64_wraps)
    then have m: "min (length buf) (sub64 (length sh) a) = length buf" by simp
    show ?thesis using False True sh m by (cases "buf = []") (auto simp: storage_pread_def Let_def rd_def simp del: min_less_iff_conj)
  next
    case True
    then have m: "sub64 (length sh) a = length sh - a" using sh(3) by simp
    let ?n = "min (length buf) (length sh - a)"
    have "rd sh a ?n = Some (take (length buf) (drop a sh))" using True by (auto simp: rd_def min_def)
    then show ?thesis using zero_ext_padded [of "length buf" a sh] \<open>storage_read_only st\<close> sh(1,2) m
      by (auto simp: storage_pread_def Let_def b min_def split: if_splits)
  qed
qed

lemma storage_store_bytes:
  assumes "storage_inv i s" "storage_store rok fresh i s a bs = Some s'"
  shows "storage_inv i s'" "storage_read_only (fst s') = storage_read_only (fst s)"
    "storage_valid i s x \<or> a \<le> x \<and> x < a + length bs \<Longrightarrow>
      storage_valid i s' x \<and> storage_byte i s' x = (if a \<le> x \<and> x < a + length bs then bs ! (x - a) else storage_byte i s x)"
proof -
  obtain st d st' d' where s: "s = (st, d)" "s' = (st', d')" by fastforce
  from assms(2) s have w: "storage_pwrite (rok (a + length bs)) fresh st d i bs a = Ok (int (length bs), st', d')"
    by (auto simp: storage_store_def split: cres.splits if_splits)
  have "storage_inv i s' \<and> storage_read_only st' = storage_read_only st \<and>
    (storage_valid i s x \<or> a \<le> x \<and> x < a + length bs \<longrightarrow>
      storage_valid i s' x \<and> storage_byte i s' x = (if a \<le> x \<and> x < a + length bs then bs ! (x - a) else storage_byte i s x))"
  proof (cases "storage_read_only st")
    case False
    then have f: "sys_pwrite d (rfd (rmtfds st ! i)) bs a = (int (length bs), d')" "st' = st"
      using w by (auto simp: storage_pwrite_def Let_def split: prod.splits)
    then obtain f where f': "fds d (rfd (rmtfds st ! i)) = Some f" "d' = d\<lparr>files := (files d)(f := patch (files d f) a bs)\<rparr>"
      by (auto simp: sys_pwrite_def Let_def split: option.splits if_splits)
    then show ?thesis using assms(1) f False s
      by (auto simp: storage_inv_def storage_valid_def storage_byte_def storage_contents_def zero_ext_patch Let_def)
  next
    case True
    let ?r = "rmtfds st ! i" and ?n = "a + length bs"
    obtain sh where sh: "shadow_buf ?r = Some sh" "shadow_len ?r = length sh" "i < 10" "storage_ok st" "in_use ?r"
      using assms(1) True s by (auto simp: storage_inv_def Let_def)
    obtain sh0 sh' where "storage_ok st'" by (rule storage_pwrite_shadow [OF sh(4,3,5) True _ w]) (use sh in auto)
    let ?g = "if ?n > length sh then sh @ map fresh [length sh..<?n] else sh"
    have l: "length (rmtfds st) = 10" using sh(4) by (simp add: storage_ok_def)
    have "?n \<le> length ?g" by simp
    then obtain g where g: "wr ?g a bs = Some g" unfolding wr_def by (simp only: if_True)
    have g': "shadow_buf (rmtfds st' ! i) = Some g" "shadow_len (rmtfds st' ! i) = length g" "storage_read_only st'"
      using w True sh(1,2,3) g wr_length [OF g] l by (auto simp: storage_pwrite_def Let_def split: if_splits)
    have lg: "length sh \<le> length g" "?n \<le> length g" using wr_length [OF g] by auto
    have "storage_inv i s'" using g' \<open>storage_ok st'\<close> sh(3) s by (auto simp: storage_inv_def in_use_def)
    moreover have "zero_ext g x = (if a \<le> x \<and> x < ?n then bs ! (x - a) else zero_ext sh x)"
      if "x < length sh \<or> a \<le> x \<and> x < ?n"
      using that lg wr_nth_in [OF g, of x] wr_nth_other [OF g, of x] by (auto simp: zero_ext_def nth_append)
    ultimately show ?thesis using True g' sh s lg
      by (auto simp: storage_valid_def storage_byte_def storage_contents_def)
  qed
  then show "storage_inv i s'" "storage_read_only (fst s') = storage_read_only (fst s)"
    "storage_valid i s x \<or> a \<le> x \<and> x < a + length bs \<Longrightarrow>
      storage_valid i s' x \<and> storage_byte i s' x = (if a \<le> x \<and> x < a + length bs then bs ! (x - a) else storage_byte i s x)"
    using s by auto
qed

interpretation sto: byte_store "storage_inv i" "storage_valid i" "storage_byte i" "storage_load i" "storage_store rok fresh i"
  for i rok fresh
proof
  fix s n a bs
  assume "storage_inv i s" "storage_load i n s a = Some bs"
  then show "bs = map (storage_byte i s) [a..<a + n]"
    using storage_pread_bytes [of i "fst s" "snd s" a "replicate n 0"]
    by (auto simp: storage_load_def split: prod.splits if_splits cres.splits)
next
  fix s a bs s' x
  assume a: "storage_inv i s" "storage_store rok fresh i s a bs = Some s'"
  note m = storage_store_bytes [OF a]
  show "storage_inv i s'" by (rule m(1))
  show "storage_byte i s' x = bs ! (x - a)" if "a \<le> x" "x < a + length bs" using m(3) that by simp
  show "storage_byte i s' x = storage_byte i s x" if "storage_valid i s x" "x < a \<or> a + length bs \<le> x" using m(3) that by auto
  show "storage_valid i s' x" if "storage_valid i s x \<or> (a \<le> x \<and> x < a + length bs)" using m(3) that by blast
qed

end
