(* ===== verification/Rmtfs_Mem.thy ===== *)
theory Rmtfs_Mem
  imports C_Mem Store_Spec
begin

text \<open>
  The memory shared with the modem, \<open>qcom/rmtfs/sharedmem.c\<close> as built for Android: the region is found
  through the attributes of the \<open>rmtfs\<close> device and accessed with \<open>pread\<close> and \<open>pwrite\<close> on the device, or
  through a mapping of \<open>/dev/mem\<close>. \<open>shared\<close> is the contents of the region; reads and writes of the device
  are clipped at its end and a negative offset is refused. Addresses and sizes are 64-bit words.
\<close>

record rmtfs_mem =
  mem_address :: u64
  mem_size :: u64
  mem_mapped :: bool
  shared :: bytes

section \<open>Finding the region\<close>

definition hex_digit :: "u8 \<Rightarrow> nat option" where
  "hex_digit c = (if isdigit c then Some (unat c - 48)
     else if 97 \<le> c \<and> c \<le> 102 then Some (unat c - 87)
     else if 65 \<le> c \<and> c \<le> 70 then Some (unat c - 55) else None)"

text \<open>
  \<open>strtoull(val, &endptr, 16)\<close>: \<open>None\<close> when there is no number, otherwise the value and whether it was out
  of range.
\<close>

definition strtoull16 :: "bytes \<Rightarrow> (u64 \<times> bool) option" where
  "strtoull16 val =
    (let s = dropWhile isspace val;
         neg = (s \<noteq> [] \<and> hd s = 45);
         s = (if s \<noteq> [] \<and> (hd s = 43 \<or> hd s = 45) then tl s else s);
         s = (case s of
            z # x # d # _ \<Rightarrow> if z = 48 \<and> (x = 120 \<or> x = 88) \<and> hex_digit d \<noteq> None then drop 2 s else s
          | _ \<Rightarrow> s);
         ds = map (\<lambda>c. the (hex_digit c)) (takeWhile (\<lambda>c. hex_digit c \<noteq> None) s);
         v = foldl (\<lambda>n d. 16 * n + d) 0 ds
     in if ds = [] then None
        else if v \<ge> 2 ^ 64 then Some (- 1, True)
        else Some (if neg then - of_nat v else of_nat v, False))"

text \<open>
  The answers of the kernel: \<open>open\<close> of the device and of its two attributes (the error number, or the
  page that \<open>read\<close> has left in \<open>val\<close>).
\<close>

record mem_env =
  env_device :: "int option"
  env_phys_addr :: "int + bytes"
  env_size :: "int + bytes"
  env_reserved :: "(bytes \<times> bytes option) list option"
  env_devmem :: "int option"
  env_mmap :: "bytes option"

text \<open>
  One attribute: an error, or its value. \<open>saved_errno\<close> is the error number left by \<open>strtoull\<close>: \<open>ERANGE\<close>, or
  zero when there is no number, and then the caller takes the value for good.
\<close>

definition read_attr :: "int + bytes \<Rightarrow> int + u64" where
  "read_attr a = (case a of
     Inl e \<Rightarrow> Inl (- e)
   | Inr val \<Rightarrow> (case strtoull16 val of
       None \<Rightarrow> Inl 0
     | Some (v, erange) \<Rightarrow> if v = - 1 \<and> erange then Inl (- 34) else Inr v))"

definition rmtfs_mem_open_rfsa :: "mem_env \<Rightarrow> int \<times> u64 \<times> u64" where
  "rmtfs_mem_open_rfsa env = (case env_device env of
     Some e \<Rightarrow> (- e, 0, 0)
   | None \<Rightarrow> (case read_attr (env_phys_addr env) of
       Inl e \<Rightarrow> (e, (if e = - 34 then - 1 else 0), 0)
     | Inr address \<Rightarrow> (case read_attr (env_size env) of
         Inl e \<Rightarrow> (e, address, (if e = - 34 then - 1 else 0))
       | Inr sz \<Rightarrow> (0, address, sz))))"

definition rmtfs_mem_open_uio :: int where
  "rmtfs_mem_open_uio = - EINVAL"

definition be_word :: "bytes \<Rightarrow> u64" where
  "be_word bs = foldl (\<lambda>n b. push_bit 8 n OR ucast b) 0 bs"

text \<open>The entries of the reserved-memory node with the contents of \<open>reg\<close>, \<open>None\<close> where it cannot be opened.\<close>

fun enumerate_nodes :: "(bytes \<times> bytes option) list \<Rightarrow> int \<times> u64 \<times> u64" where
  "enumerate_nodes [] = (0, 0, 0)"
| "enumerate_nodes ((d_name, r) # des) =
    (if take 5 d_name \<noteq> str ''rmtfs'' then enumerate_nodes des
     else (case r of
         None \<Rightarrow> (-1, 0, 0)
       | Some bs \<Rightarrow>
           if length bs = 8 then (0, be_word (take 4 bs), be_word (drop 4 bs))
           else if length bs = 16 then (0, be_word (take 8 bs), be_word (drop 8 bs))
           else (-1, 0, 0)))"

definition rmtfs_mem_enumerate :: "mem_env \<Rightarrow> int \<times> u64 \<times> u64" where
  "rmtfs_mem_enumerate env = (case env_reserved env of None \<Rightarrow> (-1, 0, 0) | Some des \<Rightarrow> enumerate_nodes des)"

text \<open>\<open>device\<close> is the contents of the region behind the device that was opened.\<close>

definition rmtfs_mem_open :: "mem_env \<Rightarrow> bytes \<Rightarrow> rmtfs_mem option" where
  "rmtfs_mem_open env device = (case rmtfs_mem_open_rfsa env of (ret, address, sz) \<Rightarrow>
     if ret < 0 \<and> ret \<noteq> - ENOENT then None
     else if ret < 0 then
       if rmtfs_mem_open_uio < 0 \<and> rmtfs_mem_open_uio \<noteq> - ENOENT then None
       else if rmtfs_mem_open_uio < 0 then
         (case rmtfs_mem_enumerate env of (ret, address, sz) \<Rightarrow>
            if ret < 0 then None
            else case env_devmem env of
                None \<Rightarrow> None
              | Some fd \<Rightarrow> map_option (\<lambda>m. \<lparr>mem_address = address, mem_size = sz, mem_mapped = True, shared = m\<rparr>)
                  (env_mmap env))
       else Some \<lparr>mem_address = address, mem_size = sz, mem_mapped = False, shared = device\<rparr>
     else Some \<lparr>mem_address = address, mem_size = sz, mem_mapped = False, shared = device\<rparr>)"

section \<open>Access\<close>

definition rmtfs_mem_alloc :: "rmtfs_mem \<Rightarrow> u64 \<Rightarrow> int" where
  "rmtfs_mem_alloc rmem alloc_size =
    (if alloc_size > mem_size rmem then - EINVAL else sint (mem_address rmem))"

definition rmtfs_mem_free :: "rmtfs_mem \<Rightarrow> rmtfs_mem" where
  "rmtfs_mem_free rmem = rmem"

text \<open>The offset of an address in the mapping.\<close>

definition rmtfs_mem_ptr :: "rmtfs_mem \<Rightarrow> u64 \<Rightarrow> int \<Rightarrow> u64 option" where
  "rmtfs_mem_ptr rmem phys_address len =
    (if len < 0 then None
     else let start = phys_address; stop = start + of_int len in
       if start < mem_address rmem \<or> stop > mem_address rmem + mem_size rmem then None
       else Some (phys_address - mem_address rmem))"

definition rmtfs_mem_read :: "rmtfs_mem \<Rightarrow> u64 \<Rightarrow> nat \<Rightarrow> (int \<times> bytes) cres" where
  "rmtfs_mem_read rmem phys_address len =
    (if mem_mapped rmem then
       (case rmtfs_mem_ptr rmem phys_address (int len) of
          None \<Rightarrow> Ok (- EINVAL, [])
        | Some off \<Rightarrow> (case rd (shared rmem) (unat off) len of None \<Rightarrow> UB | Some bs \<Rightarrow> Ok (int len, bs)))
     else let offset = phys_address - mem_address rmem in
       if sint offset < 0 then Ok (-1, [])
       else let bs = take len (drop (unat offset) (shared rmem)) in Ok (int (length bs), bs))"

definition rmtfs_mem_write :: "rmtfs_mem \<Rightarrow> u64 \<Rightarrow> bytes \<Rightarrow> (int \<times> rmtfs_mem) cres" where
  "rmtfs_mem_write rmem phys_address buf =
    (if mem_mapped rmem then
       (case rmtfs_mem_ptr rmem phys_address (int (length buf)) of
          None \<Rightarrow> Ok (- EINVAL, rmem)
        | Some off \<Rightarrow> (case wr (shared rmem) (unat off) buf of
            None \<Rightarrow> UB
          | Some m \<Rightarrow> Ok (int (length buf), rmem\<lparr>shared := m\<rparr>)))
     else let offset = phys_address - mem_address rmem in
       if sint offset < 0 then Ok (-1, rmem)
       else let bs = take (length (shared rmem) - unat offset) buf in
         (case wr (shared rmem) (unat offset) bs of
            None \<Rightarrow> Ok (0, rmem)
          | Some m \<Rightarrow> Ok (int (length bs), rmem\<lparr>shared := m\<rparr>)))"

definition rmtfs_mem_close :: "rmtfs_mem \<Rightarrow> rmtfs_mem option" where
  "rmtfs_mem_close rmem = None"

section \<open>The memory as a byte store\<close>

text \<open>
  The region lies below the middle of the address space, and a mapping has the size that was requested.
  Addresses are physical.
\<close>

definition mem_ok :: "rmtfs_mem \<Rightarrow> bool" where
  "mem_ok rmem \<longleftrightarrow> unat (mem_address rmem) + length (shared rmem) < 2 ^ 63 \<and>
     (mem_mapped rmem \<longrightarrow> unat (mem_size rmem) = length (shared rmem))"

definition mem_valid :: "rmtfs_mem \<Rightarrow> nat \<Rightarrow> bool" where
  "mem_valid rmem x \<longleftrightarrow> unat (mem_address rmem) \<le> x \<and> x < unat (mem_address rmem) + length (shared rmem)"

definition mem_byte :: "rmtfs_mem \<Rightarrow> nat \<Rightarrow> u8" where
  "mem_byte rmem x = shared rmem ! (x - unat (mem_address rmem))"

definition mem_load :: "nat \<Rightarrow> rmtfs_mem \<Rightarrow> nat \<Rightarrow> bytes option" where
  "mem_load n rmem a = (if a + n < 2 ^ 63 then
     (case rmtfs_mem_read rmem (of_nat a) n of
        Ok (k, bs) \<Rightarrow> if k = int n then Some bs else None
      | _ \<Rightarrow> None) else None)"

definition mem_store :: "rmtfs_mem \<Rightarrow> nat \<Rightarrow> bytes \<Rightarrow> rmtfs_mem option" where
  "mem_store rmem a bs = (if a + length bs < 2 ^ 63 then
     (case rmtfs_mem_write rmem (of_nat a) bs of
        Ok (k, rmem') \<Rightarrow> if k = int (length bs) then Some rmem' else None
      | _ \<Rightarrow> None) else None)"

lemma unat_of_nat_small: "a < 2 ^ 64 \<Longrightarrow> unat (of_nat a :: u64) = a"
  by (simp add: unat_of_nat take_bit_nat_eq_self)

lemma signed_diff_small: "m < 2 ^ 63 \<Longrightarrow> a < 2 ^ 63 \<Longrightarrow> signed_take_bit 63 (int a - int m) = int a - int m"
  by (rule signed_take_bit_int_eq_self) simp_all

text \<open>The offset of a physical address in the region.\<close>

lemma mem_offset:
  assumes "mem_ok rmem" "a < 2 ^ 63"
  shows "mem_address rmem \<le> of_nat a \<Longrightarrow> unat (mem_address rmem) \<le> a \<and> unat (of_nat a - mem_address rmem) = a - unat (mem_address rmem)"
    "sint (of_nat a - mem_address rmem) < 0 \<longleftrightarrow> a < unat (mem_address rmem)"
proof -
  let ?b = "mem_address rmem"
  have a: "unat (of_nat a :: u64) = a" using assms(2) by (intro unat_of_nat_small) simp
  have b: "unat ?b < 2 ^ 63" using assms(1) by (simp add: mem_ok_def)
  show "unat ?b \<le> a \<and> unat (of_nat a - ?b) = a - unat ?b" if "?b \<le> of_nat a"
    using that a by (auto simp: word_le_nat_alt unat_sub)
  have "sint (of_nat a - ?b) = int a - int (unat ?b)"
  proof -
    have "of_nat a - ?b = word_of_int (int a - int (unat ?b))" by simp
    then have "sint (of_nat a - ?b) = signed_take_bit 63 (int a - int (unat ?b))"
      by (simp only: signed_of_int) simp
    with signed_diff_small [OF b assms(2)] show ?thesis by (simp only:)
  qed
  then show "sint (of_nat a - ?b) < 0 \<longleftrightarrow> a < unat ?b" by linarith
qed

lemma mem_ptr_Some:
  assumes "mem_ok rmem" "mem_mapped rmem" "a + n < 2 ^ 63" "rmtfs_mem_ptr rmem (of_nat a) (int n) = Some off"
  shows "unat (mem_address rmem) \<le> a" "a + n \<le> unat (mem_address rmem) + length (shared rmem)"
    "unat off = a - unat (mem_address rmem)"
proof -
  let ?b = "mem_address rmem"
  from assms(4) have o: "?b \<le> of_nat a" "of_nat (a + n) \<le> ?b + mem_size rmem" "off = of_nat a - ?b"
    by (auto simp: rmtfs_mem_ptr_def Let_def split: if_splits)
  have "unat (?b + mem_size rmem) = unat ?b + length (shared rmem)"
    using assms(1,2) by (subst unat_word_ariths) (auto simp: mem_ok_def)
  moreover have "unat (of_nat (a + n) :: u64) = a + n" using assms(3) by (intro unat_of_nat_small) simp
  ultimately show "a + n \<le> unat ?b + length (shared rmem)" using o(2) by (simp only: word_le_nat_alt)
  show "unat ?b \<le> a" "unat off = a - unat ?b" using mem_offset(1) [OF assms(1) _ o(1)] assms(3) o(3) by auto
qed

lemma mem_load_Some:
  assumes "mem_ok rmem" "mem_load n rmem a = Some bs" "0 < n"
  shows "unat (mem_address rmem) \<le> a" "a + n \<le> unat (mem_address rmem) + length (shared rmem)"
    "bs = take n (drop (a - unat (mem_address rmem)) (shared rmem))"
proof -
  let ?b = "mem_address rmem"
  have a: "a + n < 2 ^ 63" using assms(2) by (auto simp: mem_load_def split: if_splits)
  have "unat ?b \<le> a \<and> a + n \<le> unat ?b + length (shared rmem) \<and> bs = take n (drop (a - unat ?b) (shared rmem))"
  proof (cases "mem_mapped rmem")
    case True
    then obtain off where "rmtfs_mem_ptr rmem (of_nat a) (int n) = Some off" "rd (shared rmem) (unat off) n = Some bs"
      using assms(2,3) by (auto simp: mem_load_def rmtfs_mem_read_def split: if_splits option.splits)
    then show ?thesis using mem_ptr_Some [OF assms(1) True a] by (auto simp: rd_def split: if_splits)
  next
    case False
    let ?o = "of_nat a - ?b"
    from False assms(2) have bs: "\<not> sint ?o < 0" "bs = take n (drop (unat ?o) (shared rmem))" "length bs = n"
      by (auto simp: mem_load_def rmtfs_mem_read_def Let_def split: if_splits)
    then have le: "unat ?b \<le> a" using mem_offset(2) [OF assms(1)] a by auto
    then have "?b \<le> of_nat a" using a unat_of_nat_small [of a] by (simp add: word_le_nat_alt)
    then have "unat ?o = a - unat ?b" using mem_offset(1) [OF assms(1)] a by auto
    then show ?thesis using bs le assms(3) by (auto simp: min_def split: if_splits)
  qed
  then show "unat ?b \<le> a" "a + n \<le> unat ?b + length (shared rmem)" "bs = take n (drop (a - unat ?b) (shared rmem))" by auto
qed

lemma mem_store_Some:
  assumes "mem_ok rmem" "mem_store rmem a bs = Some rmem'" "bs \<noteq> []"
  shows "unat (mem_address rmem) \<le> a" "a + length bs \<le> unat (mem_address rmem) + length (shared rmem)"
    "wr (shared rmem) (a - unat (mem_address rmem)) bs = Some (shared rmem')" "rmem' = rmem\<lparr>shared := shared rmem'\<rparr>"
proof -
  let ?b = "mem_address rmem"
  have a: "a + length bs < 2 ^ 63" using assms(2) by (auto simp: mem_store_def split: if_splits)
  have "unat ?b \<le> a \<and> a + length bs \<le> unat ?b + length (shared rmem) \<and>
    wr (shared rmem) (a - unat ?b) bs = Some (shared rmem') \<and> rmem' = rmem\<lparr>shared := shared rmem'\<rparr>"
  proof (cases "mem_mapped rmem")
    case True
    then obtain off m where "rmtfs_mem_ptr rmem (of_nat a) (int (length bs)) = Some off"
        "wr (shared rmem) (unat off) bs = Some m" "rmem' = rmem\<lparr>shared := m\<rparr>"
      using assms(2,3) by (auto simp: mem_store_def rmtfs_mem_write_def split: if_splits option.splits)
    then show ?thesis using mem_ptr_Some [OF assms(1) True a] by auto
  next
    case False
    let ?o = "of_nat a - ?b"
    from False assms(2,3) have s: "\<not> sint ?o < 0"
      by (auto simp: mem_store_def rmtfs_mem_write_def Let_def split: if_splits)
    then have le: "unat ?b \<le> a" using mem_offset(2) [OF assms(1)] a by auto
    then have "?b \<le> of_nat a" using a unat_of_nat_small [of a] by (simp add: word_le_nat_alt)
    then have u: "unat ?o = a - unat ?b" using mem_offset(1) [OF assms(1)] a by auto
    let ?bs = "take (length (shared rmem) - unat ?o) bs"
    from False assms(2,3) s obtain m where m: "wr (shared rmem) (unat ?o) ?bs = Some m" "length ?bs = length bs"
        "rmem' = rmem\<lparr>shared := m\<rparr>"
      by (auto simp: mem_store_def rmtfs_mem_write_def Let_def split: if_splits option.splits)
    then have "?bs = bs" by (metis length_take min.absorb_iff1 min.commute take_all)
    with m u le show ?thesis by (auto simp: wr_def split: if_splits)
  qed
  then show "unat ?b \<le> a" "a + length bs \<le> unat ?b + length (shared rmem)"
    "wr (shared rmem) (a - unat ?b) bs = Some (shared rmem')" "rmem' = rmem\<lparr>shared := shared rmem'\<rparr>" by auto
qed

lemma mem_store_Nil: "mem_store rmem a [] = Some rmem' \<Longrightarrow> rmem' = rmem"
  by (auto simp: mem_store_def rmtfs_mem_write_def wr_def Let_def split: if_splits option.splits)

lemma mem_store_nth:
  assumes "mem_ok rmem" "mem_store rmem a bs = Some rmem'"
  shows "mem_ok rmem'" "mem_valid rmem' = mem_valid rmem" "mem_address rmem' = mem_address rmem"
    "mem_valid rmem x \<Longrightarrow> mem_byte rmem' x = (if a \<le> x \<and> x < a + length bs then bs ! (x - a) else mem_byte rmem x)"
    "a \<le> x \<Longrightarrow> x < a + length bs \<Longrightarrow> mem_valid rmem x"
proof -
  have "mem_ok rmem' \<and> mem_valid rmem' = mem_valid rmem \<and> mem_address rmem' = mem_address rmem \<and>
    (mem_valid rmem x \<longrightarrow> mem_byte rmem' x = (if a \<le> x \<and> x < a + length bs then bs ! (x - a) else mem_byte rmem x)) \<and>
    (a \<le> x \<and> x < a + length bs \<longrightarrow> mem_valid rmem x)"
  proof (cases "bs = []")
    case True
    then show ?thesis using assms mem_store_Nil by auto
  next
    case False
    note m = mem_store_Some [OF assms False]
    have l: "length (shared rmem') = length (shared rmem)" using wr_length [OF m(3)] .
    have f: "mem_address rmem' = mem_address rmem" "mem_size rmem' = mem_size rmem" "mem_mapped rmem' = mem_mapped rmem"
      by (subst m(4), simp)+
    have v: "mem_valid rmem' = mem_valid rmem" by (rule ext) (simp add: mem_valid_def f l)
    have "mem_byte rmem' x = (if a \<le> x \<and> x < a + length bs then bs ! (x - a) else mem_byte rmem x)" if "mem_valid rmem x"
    proof (cases "a \<le> x \<and> x < a + length bs")
      case True
      with m(1) wr_nth_in [OF m(3), of "x - unat (mem_address rmem)"] show ?thesis
        by (auto simp: mem_byte_def f)
    next
      case False
      let ?x = "x - unat (mem_address rmem)"
      have "?x < a - unat (mem_address rmem) \<or> a - unat (mem_address rmem) + length bs \<le> ?x" "?x < length (shared rmem)"
        using False that m(1) by (auto simp: mem_valid_def)
      from False wr_nth_other [OF m(3) this] show ?thesis by (auto simp: mem_byte_def f)
    qed
    then show ?thesis using assms(1) m(1,2) l f v by (auto simp: mem_ok_def mem_valid_def)
  qed
  then show "mem_ok rmem'" "mem_valid rmem' = mem_valid rmem" "mem_address rmem' = mem_address rmem"
    "mem_valid rmem x \<Longrightarrow> mem_byte rmem' x = (if a \<le> x \<and> x < a + length bs then bs ! (x - a) else mem_byte rmem x)"
    "a \<le> x \<Longrightarrow> x < a + length bs \<Longrightarrow> mem_valid rmem x" by auto
qed

interpretation shm: byte_store mem_ok mem_valid mem_byte mem_load mem_store
proof
  fix s n a bs
  assume a: "mem_ok s" "mem_load n s a = Some bs"
  show "bs = map (mem_byte s) [a..<a + n]"
  proof (cases "n = 0")
    case True
    then have "length bs = 0" using a(2)
      by (auto simp: mem_load_def rmtfs_mem_read_def Let_def rd_def split: if_splits option.splits)
    then show ?thesis using True by simp
  next
    case False
    note m = mem_load_Some [OF a] 
    show ?thesis by (rule nth_equalityI) (use m False in \<open>auto simp: mem_byte_def\<close>)
  qed
next
  fix s a bs s' x
  assume a: "mem_ok s" "mem_store s a bs = Some s'"
  note m = mem_store_nth [OF a]
  show "mem_ok s'" by (rule m(1))
  show "mem_byte s' x = bs ! (x - a)" if "a \<le> x" "x < a + length bs" using m(4) [OF m(5)] that by simp
  show "mem_byte s' x = mem_byte s x" if "mem_valid s x" "x < a \<or> a + length bs \<le> x" using m(4) that by auto
  show "mem_valid s' x" if "mem_valid s x \<or> (a \<le> x \<and> x < a + length bs)" using that m(2) m(5) by auto
qed

section \<open>Bounds\<close>

lemma mem_access_total:
  assumes "mem_ok rmem" "a + length bs < 2 ^ 63"
  obtains k cs k' rmem' where "rmtfs_mem_read rmem (of_nat a) (length bs) = Ok (k, cs)"
    "rmtfs_mem_write rmem (of_nat a) bs = Ok (k', rmem')" "mem_ok rmem'"
proof -
  have p: "mem_mapped rmem \<Longrightarrow> rmtfs_mem_ptr rmem (of_nat a) (int (length bs)) = Some off \<Longrightarrow>
      unat off + length bs \<le> length (shared rmem)" for off
    using mem_ptr_Some [OF assms(1) _ assms(2), of off] by auto
  have "\<exists>k cs. rmtfs_mem_read rmem (of_nat a) (length bs) = Ok (k, cs)"
    using p by (auto simp: rmtfs_mem_read_def Let_def rd_def split: option.splits)
  moreover have "\<exists>k rmem'. rmtfs_mem_write rmem (of_nat a) bs = Ok (k, rmem') \<and> mem_ok rmem'"
  proof -
    have ok: "mem_ok (rmem\<lparr>shared := m\<rparr>)" if "wr (shared rmem) off cs = Some m" for off cs m
      using assms(1) wr_length [OF that] by (simp add: mem_ok_def)
    have "mem_mapped rmem \<Longrightarrow> rmtfs_mem_ptr rmem (of_nat a) (int (length bs)) = Some off \<Longrightarrow>
        wr (shared rmem) (unat off) bs \<noteq> None" for off using p [of off] by (simp add: wr_def)
    then show ?thesis using assms(1) ok by (auto simp: rmtfs_mem_write_def Let_def split: option.splits)
  qed
  ultimately show ?thesis using that by metis
qed


definition demo_mem :: rmtfs_mem where
  "demo_mem = \<lparr>mem_address = 4096, mem_size = 4, mem_mapped = True, shared = [1, 2, 3, 4]\<rparr>"


end
