(* ===== verification/Rmtfs_Qmi.thy ===== *)
theory Rmtfs_Qmi
  imports Qmi_Codec
begin

text \<open>
  The messages of the remote file system service, \<open>qcom/rmtfs/qmi_rmtfs.c\<close> and \<open>qmi_rmtfs.h\<close>: the
  descriptor tables, with the offsets of the fields on the target, and the structures with their
  layout in memory.
\<close>

abbreviation (input) QMI_RMTFS_RESULT_SUCCESS :: u16 where "QMI_RMTFS_RESULT_SUCCESS \<equiv> 0"
abbreviation (input) QMI_RMTFS_RESULT_FAILURE :: u16 where "QMI_RMTFS_RESULT_FAILURE \<equiv> 1"
abbreviation (input) QMI_RMTFS_ERR_NONE :: u16 where "QMI_RMTFS_ERR_NONE \<equiv> 0"
abbreviation (input) QMI_RMTFS_ERR_INTERNAL :: u16 where "QMI_RMTFS_ERR_INTERNAL \<equiv> 1"
abbreviation (input) QMI_RMTFS_ERR_MALFORMED_MSG :: u16 where "QMI_RMTFS_ERR_MALFORMED_MSG \<equiv> 2"
abbreviation (input) QMI_RMTFS_OPEN :: u16 where "QMI_RMTFS_OPEN \<equiv> 1"
abbreviation (input) QMI_RMTFS_CLOSE :: u16 where "QMI_RMTFS_CLOSE \<equiv> 2"
abbreviation (input) QMI_RMTFS_RW_IOVEC :: u16 where "QMI_RMTFS_RW_IOVEC \<equiv> 3"
abbreviation (input) QMI_RMTFS_ALLOC_BUFF :: u16 where "QMI_RMTFS_ALLOC_BUFF \<equiv> 4"
abbreviation (input) QMI_RMTFS_GET_DEV_ERROR :: u16 where "QMI_RMTFS_GET_DEV_ERROR \<equiv> 5"
abbreviation (input) QMI_RMTFS_FORCE_SYNC_IND :: u16 where "QMI_RMTFS_FORCE_SYNC_IND \<equiv> 6"

abbreviation (input) END :: qmi_elem_info where "END \<equiv> EI QMI_EOTI 0 0 NO_ARRAY 0 0 None"

definition rmtfs_qmi_result_ei :: "qmi_elem_info list" where
  "rmtfs_qmi_result_ei =
    [EI QMI_UNSIGNED_2_BYTE 1 2 NO_ARRAY 0 0 None,
     EI QMI_UNSIGNED_2_BYTE 1 2 NO_ARRAY 0 2 None,
     END]"

definition rmtfs_iovec_entry_ei :: "qmi_elem_info list" where
  "rmtfs_iovec_entry_ei =
    [EI QMI_UNSIGNED_4_BYTE 1 4 NO_ARRAY 0 0 None,
     EI QMI_UNSIGNED_4_BYTE 1 4 NO_ARRAY 0 4 None,
     EI QMI_UNSIGNED_4_BYTE 1 4 NO_ARRAY 0 8 None,
     END]"

definition rmtfs_open_req_ei :: "qmi_elem_info list" where
  "rmtfs_open_req_ei = [EI QMI_STRING 256 1 VAR_LEN_ARRAY 1 4 None, END]"

definition rmtfs_open_resp_ei :: "qmi_elem_info list" where
  "rmtfs_open_resp_ei =
    [EI QMI_STRUCT 1 4 NO_ARRAY 2 0 (Some rmtfs_qmi_result_ei),
     EI QMI_OPT_FLAG 1 1 NO_ARRAY 16 4 None,
     EI QMI_UNSIGNED_4_BYTE 1 4 NO_ARRAY 16 8 None,
     END]"

definition rmtfs_close_req_ei :: "qmi_elem_info list" where
  "rmtfs_close_req_ei = [EI QMI_UNSIGNED_4_BYTE 1 4 NO_ARRAY 1 0 None, END]"

definition rmtfs_close_resp_ei :: "qmi_elem_info list" where
  "rmtfs_close_resp_ei = [EI QMI_STRUCT 1 4 NO_ARRAY 2 0 (Some rmtfs_qmi_result_ei), END]"

definition rmtfs_iovec_req_ei :: "qmi_elem_info list" where
  "rmtfs_iovec_req_ei =
    [EI QMI_UNSIGNED_4_BYTE 1 4 NO_ARRAY 1 0 None,
     EI QMI_UNSIGNED_1_BYTE 1 1 NO_ARRAY 2 4 None,
     EI QMI_DATA_LEN 1 1 NO_ARRAY 3 8 None,
     EI QMI_STRUCT 255 12 VAR_LEN_ARRAY 3 16 (Some rmtfs_iovec_entry_ei),
     EI QMI_UNSIGNED_1_BYTE 1 1 NO_ARRAY 4 3076 None,
     END]"

definition rmtfs_iovec_resp_ei :: "qmi_elem_info list" where
  "rmtfs_iovec_resp_ei = [EI QMI_STRUCT 1 4 NO_ARRAY 2 0 (Some rmtfs_qmi_result_ei), END]"

definition rmtfs_alloc_buf_req_ei :: "qmi_elem_info list" where
  "rmtfs_alloc_buf_req_ei =
    [EI QMI_UNSIGNED_4_BYTE 1 4 NO_ARRAY 1 0 None,
     EI QMI_UNSIGNED_4_BYTE 1 4 NO_ARRAY 2 4 None,
     END]"

definition rmtfs_alloc_buf_resp_ei :: "qmi_elem_info list" where
  "rmtfs_alloc_buf_resp_ei =
    [EI QMI_STRUCT 1 4 NO_ARRAY 2 0 (Some rmtfs_qmi_result_ei),
     EI QMI_OPT_FLAG 1 1 NO_ARRAY 16 4 None,
     EI QMI_UNSIGNED_8_BYTE 1 8 NO_ARRAY 16 8 None,
     END]"

definition rmtfs_dev_error_req_ei :: "qmi_elem_info list" where
  "rmtfs_dev_error_req_ei = [EI QMI_UNSIGNED_4_BYTE 1 4 NO_ARRAY 1 0 None, END]"

definition rmtfs_dev_error_resp_ei :: "qmi_elem_info list" where
  "rmtfs_dev_error_resp_ei =
    [EI QMI_STRUCT 1 4 NO_ARRAY 2 0 (Some rmtfs_qmi_result_ei),
     EI QMI_OPT_FLAG 1 1 NO_ARRAY 16 4 None,
     EI QMI_UNSIGNED_1_BYTE 1 1 NO_ARRAY 16 5 None,
     END]"

definition rmtfs_force_sync_ei :: "qmi_elem_info list" where
  "rmtfs_force_sync_ei =
    [EI QMI_DATA_LEN 1 1 NO_ARRAY 1 0 None,
     EI QMI_UNSIGNED_1_BYTE 10 4 VAR_LEN_ARRAY 1 8 None,
     END]"

section \<open>Structures\<close>

record rmtfs_qmi_result =
  res_result :: u16
  res_error :: u16

record rmtfs_iovec_entry =
  sector_addr :: u32
  phys_offset :: u32
  num_sector :: u32

definition result_bytes :: "rmtfs_qmi_result \<Rightarrow> bytes" where
  "result_bytes r = le16 (res_result r) @ le16 (res_error r)"

definition entry_of :: "bytes \<Rightarrow> rmtfs_iovec_entry" where
  "entry_of bs = \<lparr>sector_addr = rd32 bs, phys_offset = rd32 (drop 4 bs), num_sector = rd32 (drop 8 bs)\<rparr>"

text \<open>The requests, read from the decoded structure.\<close>

record rmtfs_iovec_req =
  iov_caller_id :: u32
  iov_direction :: u8
  iov_len :: u32
  iov_entries :: "rmtfs_iovec_entry list"
  iov_is_force_sync :: u8

definition iovec_req_of :: "bytes \<Rightarrow> rmtfs_iovec_req" where
  "iovec_req_of bs = \<lparr>iov_caller_id = rd32 bs, iov_direction = bs ! 4, iov_len = rd32 (drop 8 bs),
     iov_entries = map (\<lambda>i. entry_of (drop (16 + 12 * i) bs)) [0..<255], iov_is_force_sync = bs ! 3076\<rparr>"

definition open_req_path :: "bytes \<Rightarrow> bytes" where
  "open_req_path bs = drop 4 bs"

definition alloc_req_of :: "bytes \<Rightarrow> u32 \<times> u32" where
  "alloc_req_of bs = (rd32 bs, rd32 (drop 4 bs))"

text \<open>The responses, as the structures that are encoded.\<close>

definition le64 :: "u64 \<Rightarrow> bytes" where
  "le64 w = le32 (ucast w) @ le32 (ucast (drop_bit 32 w))"

definition open_resp_bytes :: "rmtfs_qmi_result \<Rightarrow> u8 \<Rightarrow> u32 \<Rightarrow> bytes" where
  "open_resp_bytes r valid caller_id = result_bytes r @ [valid, 0, 0, 0] @ le32 caller_id"

definition alloc_resp_bytes :: "rmtfs_qmi_result \<Rightarrow> u8 \<Rightarrow> u64 \<Rightarrow> bytes" where
  "alloc_resp_bytes r valid address = result_bytes r @ [valid, 0, 0, 0] @ le64 address"

definition dev_error_resp_bytes :: "rmtfs_qmi_result \<Rightarrow> u8 \<Rightarrow> u8 \<Rightarrow> bytes" where
  "dev_error_resp_bytes r valid status = result_bytes r @ [valid, status]"

end
