(* ===== verification/Rmtfs.thy ===== *)
theory Rmtfs
  imports Rmtfs_Storage Rmtfs_Mem Rmtfs_Qmi Qmi_Roundtrip Qrtr_Lib
begin

text \<open>
  The remote file system daemon, \<open>qcom/rmtfs/rmtfs.c\<close>: the request handlers, the dispatcher, the loop and
  the start-up. The state is the handle table, the disk and the shared memory. A handler returns the
  reply it sends, if any, and the new state. Left to the environment are the system calls and what is
  in automatic variables before they are written (the transaction id when the header does not match,
  the sector buffer, the reply buffer). Debug output is left out.
\<close>

section \<open>State\<close>

record rmtfs_env =
  renv_open :: st_env
  renv_realloc :: "nat \<Rightarrow> bool"
  renv_fresh :: "nat \<Rightarrow> u8"
  renv_txn :: u16
  renv_buf :: bytes
  renv_resp :: bytes

record rmtfs =
  rs_storage :: storage
  rs_disk :: disk
  rs_mem :: rmtfs_mem

abbreviation (input) SECTOR_SIZE :: nat where "SECTOR_SIZE \<equiv> 512"
abbreviation (input) RMTFS_QMI_SERVICE :: u32 where "RMTFS_QMI_SERVICE \<equiv> 14"
abbreviation (input) RMTFS_QMI_VERSION :: u16 where "RMTFS_QMI_VERSION \<equiv> 1"
abbreviation (input) RMTFS_QMI_INSTANCE :: u16 where "RMTFS_QMI_INSTANCE \<equiv> 0"

definition no_error :: rmtfs_qmi_result where
  "no_error = \<lparr>res_result = QMI_RMTFS_RESULT_SUCCESS, res_error = QMI_RMTFS_ERR_NONE\<rparr>"

definition qmi_result_error :: "rmtfs_qmi_result \<Rightarrow> u16 \<Rightarrow> rmtfs_qmi_result" where
  "qmi_result_error r e = (if res_result r = QMI_RMTFS_RESULT_FAILURE then r
     else \<lparr>res_result = QMI_RMTFS_RESULT_FAILURE, res_error = e\<rparr>)"

section \<open>Handlers\<close>

text \<open>Decoding into a structure of \<open>n\<close> zero bytes; the transaction id, and the structure or \<open>None\<close>.\<close>

definition request :: "rmtfs_env \<Rightarrow> nat \<Rightarrow> u16 \<Rightarrow> qmi_elem_info list \<Rightarrow> bytes \<Rightarrow> nat \<Rightarrow> (u16 \<times> bytes option) cres" where
  "request env n msg_id ei data data_len =
    (case qmi_decode_message (Some (replicate n 0)) data data_len QMI_REQUEST msg_id (Some ei) of (txn, r) \<Rightarrow>
     let txn = (case txn of None \<Rightarrow> renv_txn env | Some t \<Rightarrow> t) in
     case r of UB \<Rightarrow> UB | Err _ \<Rightarrow> Ok (txn, None) | Ok (_, req) \<Rightarrow> Ok (txn, Some req))"

definition respond :: "rmtfs_env \<Rightarrow> u16 \<Rightarrow> u16 \<Rightarrow> bytes \<Rightarrow> qmi_elem_info list \<Rightarrow> bytes option cres" where
  "respond env msg_id txn resp ei =
    (case qmi_encode_message (renv_resp env) 256 QMI_RESPONSE msg_id txn (Some resp) (Some ei) of
       UB \<Rightarrow> UB
     | Err _ \<Rightarrow> Ok None
     | Ok (len, data) \<Rightarrow> Ok (Some (take len data)))"

definition rmtfs_open :: "rmtfs_env \<Rightarrow> rmtfs \<Rightarrow> u32 \<Rightarrow> bytes \<Rightarrow> nat \<Rightarrow> (bytes option \<times> rmtfs) cres" where
  "rmtfs_open env rs node data data_len =
    cbind (request env 260 QMI_RMTFS_OPEN rmtfs_open_req_ei data data_len) (\<lambda>(txn, req).
    let (resp, rs) = (case req of
        None \<Rightarrow> (open_resp_bytes (qmi_result_error no_error QMI_RMTFS_ERR_MALFORMED_MSG) 0 0, rs)
      | Some req \<Rightarrow>
          (case storage_open (renv_open env) (rs_storage rs) (rs_disk rs) node (cstr (open_req_path req)) of
             (None, st, d) \<Rightarrow> (open_resp_bytes (qmi_result_error no_error QMI_RMTFS_ERR_INTERNAL) 0 0,
               rs\<lparr>rs_storage := st, rs_disk := d\<rparr>)
           | (Some i, st, d) \<Rightarrow> (open_resp_bytes no_error 1 (storage_get_caller_id st i),
               rs\<lparr>rs_storage := st, rs_disk := d\<rparr>)))
    in cbind (respond env QMI_RMTFS_OPEN txn resp rmtfs_open_resp_ei) (\<lambda>r. Ok (r, rs)))"

definition rmtfs_close :: "rmtfs_env \<Rightarrow> rmtfs \<Rightarrow> u32 \<Rightarrow> bytes \<Rightarrow> nat \<Rightarrow> (bytes option \<times> rmtfs) cres" where
  "rmtfs_close env rs node data data_len =
    cbind (request env 4 QMI_RMTFS_CLOSE rmtfs_close_req_ei data data_len) (\<lambda>(txn, req).
    cbind (case req of
        None \<Rightarrow> Ok (qmi_result_error no_error QMI_RMTFS_ERR_MALFORMED_MSG, rs)
      | Some req \<Rightarrow> cbind (storage_get (rs_storage rs) node (rd32 req)) (\<lambda>fd.
          case fd of
            None \<Rightarrow> Ok (qmi_result_error no_error QMI_RMTFS_ERR_INTERNAL, rs)
          | Some i \<Rightarrow> (case storage_close (rs_storage rs) (rs_disk rs) i of (st, d) \<Rightarrow>
              Ok (no_error, rs\<lparr>rs_storage := st, rs_disk := d, rs_mem := rmtfs_mem_free (rs_mem rs)\<rparr>)))) (\<lambda>(res, rs).
    cbind (respond env QMI_RMTFS_CLOSE txn (result_bytes res) rmtfs_close_resp_ei) (\<lambda>r. Ok (r, rs))))"

text \<open>
  One sector, \<open>off\<close> bytes behind the addresses of the entry: the number of bytes transferred as the loop
  checks it, the sector buffer and the state. \<open>phys\<close> is an address, \<open>sec\<close> a position in the file.
\<close>

definition iovec_sector :: "rmtfs_env \<Rightarrow> nat \<Rightarrow> bool \<Rightarrow> nat \<Rightarrow> nat \<Rightarrow> bytes \<Rightarrow> rmtfs \<Rightarrow> (int \<times> bytes \<times> rmtfs) cres" where
  "iovec_sector env i is_write phys sec buf rs =
    (if is_write then
       cbind (rmtfs_mem_read (rs_mem rs) (of_nat phys) SECTOR_SIZE) (\<lambda>(n, bs).
         let buf = bs @ drop (length bs) buf in
         if n = int SECTOR_SIZE then
           cbind (storage_pwrite (renv_realloc env (sec + SECTOR_SIZE)) (renv_fresh env) (rs_storage rs) (rs_disk rs) i
               buf sec) (\<lambda>(n, st, d).
             Ok (n, buf, rs\<lparr>rs_storage := st, rs_disk := d\<rparr>))
         else Ok (n, buf, rs))
     else
       cbind (storage_pread (rs_storage rs) (rs_disk rs) i buf sec) (\<lambda>(n, buf).
         if n \<ge> 0 then
           let buf = (if n < int SECTOR_SIZE then take (nat n) buf @ replicate (SECTOR_SIZE - nat n) 0 else buf) in
           cbind (rmtfs_mem_write (rs_mem rs) (of_nat phys) buf) (\<lambda>(n, m). Ok (n, buf, rs\<lparr>rs_mem := m\<rparr>))
         else Ok (n, buf, rs)))"

text \<open>The sectors of an entry; the first result is false when a sector was not transferred completely.\<close>

fun iovec_sectors :: "rmtfs_env \<Rightarrow> nat \<Rightarrow> bool \<Rightarrow> nat \<Rightarrow> nat \<Rightarrow> nat \<Rightarrow> bytes \<Rightarrow> rmtfs \<Rightarrow> (bool \<times> bytes \<times> rmtfs) cres" where
  "iovec_sectors env i is_write 0 phys sec buf rs = Ok (True, buf, rs)"
| "iovec_sectors env i is_write (Suc n) phys sec buf rs =
    cbind (iovec_sector env i is_write phys sec buf rs) (\<lambda>(r, buf, rs).
      if r \<noteq> int SECTOR_SIZE then Ok (False, buf, rs)
      else iovec_sectors env i is_write n (phys + SECTOR_SIZE) (sec + SECTOR_SIZE) buf rs)"

text \<open>\<open>sector_addr * SECTOR_SIZE\<close> is a product of 32 bits.\<close>

fun iovec_entries :: "rmtfs_env \<Rightarrow> nat \<Rightarrow> bool \<Rightarrow> rmtfs_iovec_entry list \<Rightarrow> bytes \<Rightarrow> rmtfs \<Rightarrow> (bool \<times> rmtfs) cres" where
  "iovec_entries env i is_write [] buf rs = Ok (True, rs)"
| "iovec_entries env i is_write (e # es) buf rs =
    cbind (iovec_sectors env i is_write (unat (num_sector e)) (unat (phys_offset e))
        (unat (sector_addr e * 512)) buf rs) (\<lambda>(ok, buf, rs).
      if ok then iovec_entries env i is_write es buf rs else Ok (False, rs))"

definition rmtfs_iovec :: "rmtfs_env \<Rightarrow> rmtfs \<Rightarrow> u32 \<Rightarrow> bytes \<Rightarrow> nat \<Rightarrow> (bytes option \<times> rmtfs) cres" where
  "rmtfs_iovec env rs node data data_len =
    cbind (request env 3080 QMI_RMTFS_RW_IOVEC rmtfs_iovec_req_ei data data_len) (\<lambda>(txn, req).
    cbind (case req of
        None \<Rightarrow> Ok (qmi_result_error no_error QMI_RMTFS_ERR_MALFORMED_MSG, rs)
      | Some req \<Rightarrow>
          let req = iovec_req_of req in
          cbind (storage_get (rs_storage rs) node (iov_caller_id req)) (\<lambda>fd.
            case fd of
              None \<Rightarrow> Ok (qmi_result_error no_error QMI_RMTFS_ERR_INTERNAL, rs)
            | Some i \<Rightarrow>
                cbind (iovec_entries env i (iov_direction req \<noteq> 0)
                    (take (unat (iov_len req)) (iov_entries req)) (renv_buf env) rs) (\<lambda>(ok, rs).
                  Ok (if ok then no_error else qmi_result_error no_error QMI_RMTFS_ERR_INTERNAL, rs)))) (\<lambda>(res, rs).
    cbind (respond env QMI_RMTFS_RW_IOVEC txn (result_bytes res) rmtfs_iovec_resp_ei) (\<lambda>r. Ok (r, rs))))"

definition rmtfs_alloc_buf :: "rmtfs_env \<Rightarrow> rmtfs \<Rightarrow> u32 \<Rightarrow> bytes \<Rightarrow> nat \<Rightarrow> (bytes option \<times> rmtfs) cres" where
  "rmtfs_alloc_buf env rs node data data_len =
    cbind (request env 8 QMI_RMTFS_ALLOC_BUFF rmtfs_alloc_buf_req_ei data data_len) (\<lambda>(txn, req).
    let resp = (case req of
        None \<Rightarrow> alloc_resp_bytes (qmi_result_error no_error QMI_RMTFS_ERR_MALFORMED_MSG) 0 0
      | Some req \<Rightarrow>
          let address = rmtfs_mem_alloc (rs_mem rs) (ucast (snd (alloc_req_of req))) in
          if address < 0 then alloc_resp_bytes (qmi_result_error no_error QMI_RMTFS_ERR_INTERNAL) 0 0
          else alloc_resp_bytes no_error 1 (of_int address))
    in cbind (respond env QMI_RMTFS_ALLOC_BUFF txn resp rmtfs_alloc_buf_resp_ei) (\<lambda>r. Ok (r, rs)))"

text \<open>The error is reported when there is a handle, and the status is read when there is none.\<close>

definition rmtfs_get_dev_error :: "rmtfs_env \<Rightarrow> rmtfs \<Rightarrow> u32 \<Rightarrow> bytes \<Rightarrow> nat \<Rightarrow> (bytes option \<times> rmtfs) cres" where
  "rmtfs_get_dev_error env rs node data data_len =
    cbind (request env 4 QMI_RMTFS_GET_DEV_ERROR rmtfs_dev_error_req_ei data data_len) (\<lambda>(txn, req).
    cbind (case req of
        None \<Rightarrow> Ok (dev_error_resp_bytes (qmi_result_error no_error QMI_RMTFS_ERR_MALFORMED_MSG) 0 0)
      | Some req \<Rightarrow> cbind (storage_get (rs_storage rs) node (rd32 req)) (\<lambda>fd.
          case fd of
            Some i \<Rightarrow> Ok (dev_error_resp_bytes (qmi_result_error no_error QMI_RMTFS_ERR_INTERNAL) 0 0)
          | None \<Rightarrow> UB)) (\<lambda>resp.
    cbind (respond env QMI_RMTFS_GET_DEV_ERROR txn resp rmtfs_dev_error_resp_ei) (\<lambda>r. Ok (r, rs))))"

definition rmtfs_bye :: "u32 \<Rightarrow> int" where
  "rmtfs_bye node = 0"

definition rmtfs_del_client :: "u32 \<Rightarrow> u32 \<Rightarrow> int" where
  "rmtfs_del_client node port = 0"

section \<open>Dispatch\<close>

text \<open>
  \<open>recv\<close> is the error number of \<open>recvfrom\<close> or the datagram and its sender, \<open>tail\<close> what the receive buffer
  holds behind the datagram, \<open>pkt\<close> the packet structure before it is filled. The result is the return
  value, the reply with its destination, if any, and the state.
\<close>

definition handle_rmtfs :: "rmtfs_env \<Rightarrow> int + bytes \<times> sockaddr_qrtr \<Rightarrow> bytes \<Rightarrow> qrtr_packet \<Rightarrow> rmtfs \<Rightarrow>
    (int \<times> (u32 \<times> u32 \<times> bytes) option \<times> rmtfs) cres" where
  "handle_rmtfs env recv tail pkt rs = (case recv of
     Inl e \<Rightarrow> Ok (- e, None, rs)
   | Inr (bs, sq) \<Rightarrow> (case qrtr_decode pkt bs sq of (ret, pkt) \<Rightarrow>
       if ret < 0 then Ok (ret, None, rs)
       else if ptype pkt = 3 then Ok (rmtfs_bye (pnode pkt), None, rs)
       else if ptype pkt = 6 then Ok (rmtfs_del_client (pnode pkt) (pport pkt), None, rs)
       else if ptype pkt = 1 then
         let data = pdata pkt @ tail; data_len = length (pdata pkt) in
         (case qmi_decode_header data data_len of
            UB \<Rightarrow> UB
          | Err e \<Rightarrow> Ok (e, None, rs)
          | Ok msg_id \<Rightarrow>
              cbind (if msg_id = QMI_RMTFS_OPEN then rmtfs_open env rs (pnode pkt) data data_len
                  else if msg_id = QMI_RMTFS_CLOSE then rmtfs_close env rs (pnode pkt) data data_len
                  else if msg_id = QMI_RMTFS_RW_IOVEC then rmtfs_iovec env rs (pnode pkt) data data_len
                  else if msg_id = QMI_RMTFS_ALLOC_BUFF then rmtfs_alloc_buf env rs (pnode pkt) data data_len
                  else if msg_id = QMI_RMTFS_GET_DEV_ERROR then rmtfs_get_dev_error env rs (pnode pkt) data data_len
                  else Ok (None, rs)) (\<lambda>(r, rs).
                Ok (0, map_option (\<lambda>b. (pnode pkt, pport pkt, b)) r, rs)))
       else Ok (ret, None, rs)))"

section \<open>Transfers\<close>

text \<open>A transfer copies blocks between two byte stores, the shared memory and a handle.\<close>

interpretation wr_iov: block_copy mem_ok mem_valid mem_byte mem_load mem_store
    "storage_inv i" "storage_valid i" "storage_byte i" "storage_load i" "storage_store rok fresh i"
  for i rok fresh
  by unfold_locales

interpretation rd_iov: block_copy "storage_inv i" "storage_valid i" "storage_byte i" "storage_load i" "storage_store rok fresh i"
    mem_ok mem_valid mem_byte mem_load mem_store
  for i rok fresh
  by unfold_locales

definition rs_store :: "rmtfs \<Rightarrow> storage \<times> disk" where
  "rs_store rs = (rs_storage rs, rs_disk rs)"

lemma mem_read_full:
  assumes "rmtfs_mem_read rmem (of_nat a) n = Ok (int n, bs)" "a + n < 2 ^ 63"
  shows "mem_load n rmem a = Some bs" "length bs = n"
  using assms by (auto simp: mem_load_def rmtfs_mem_read_def rd_def Let_def split: if_splits option.splits)

lemma sectors_write:
  "iovec_sectors env i True n phys sec buf rs = Ok (True, buf', rs') \<Longrightarrow> phys + n * 512 < 2 ^ 63 \<Longrightarrow> length buf = 512 \<Longrightarrow>
    copy_blocks (mem_load 512) (storage_store (renv_realloc env) (renv_fresh env) i) 512 n (rs_mem rs) phys (rs_store rs) sec =
      Some (rs_store rs') \<and> rs_mem rs' = rs_mem rs \<and> length buf' = 512"
proof (induction n arbitrary: phys sec buf rs)
  case (Suc n)
  then obtain bs st d where r: "rmtfs_mem_read (rs_mem rs) (of_nat phys) 512 = Ok (512, bs)"
      "storage_pwrite (renv_realloc env (sec + 512)) (renv_fresh env) (rs_storage rs) (rs_disk rs) i bs sec = Ok (512, st, d)"
      "iovec_sectors env i True n (phys + 512) (sec + 512) bs (rs\<lparr>rs_storage := st, rs_disk := d\<rparr>) = Ok (True, buf', rs')"
    using mem_read_full(2) [of "rs_mem rs" phys 512]
    by (fastforce simp: iovec_sector_def Let_def split: if_splits)
  have l: "mem_load 512 (rs_mem rs) phys = Some bs" "length bs = 512"
    using mem_read_full [of "rs_mem rs" phys 512 bs] r(1) Suc.prems(2) by auto
  have s: "storage_store (renv_realloc env) (renv_fresh env) i (rs_store rs) sec bs = Some (st, d)"
    using r(2) l(2) by (simp add: storage_store_def rs_store_def)
  from Suc.IH [OF r(3)] Suc.prems(2) l s show ?case by (simp add: rs_store_def)
qed (simp add: rs_store_def)

lemma storage_pread_load:
  assumes "storage_inv i (rs_store rs)" "storage_pread (rs_storage rs) (rs_disk rs) i buf a = Ok (n, bs)" "a + length buf < 2 ^ 63"
  shows "storage_load i (length buf) (rs_store rs) a = Some bs" "n = int (length buf)" "length bs = length buf"
proof -
  have i: "storage_inv i (rs_storage rs, rs_disk rs)" using assms(1) by (simp add: rs_store_def)
  have "storage_pread (rs_storage rs) (rs_disk rs) i (replicate (length buf) 0) a = storage_pread (rs_storage rs) (rs_disk rs) i buf a"
    using i by (auto simp: storage_pread_def storage_inv_def sys_pread_def Let_def split: option.splits)
  then show "storage_load i (length buf) (rs_store rs) a = Some bs" using assms(2,3) by (simp add: storage_load_def rs_store_def)
  show "n = int (length buf)" "length bs = length buf" using storage_pread_bytes [OF i assms(3)] assms(2) by auto
qed

lemma sectors_read:
  "iovec_sectors env i False n phys sec buf rs = Ok (True, buf', rs') \<Longrightarrow> storage_inv i (rs_store rs) \<Longrightarrow>
    phys + n * 512 < 2 ^ 63 \<Longrightarrow> sec + n * 512 < 2 ^ 63 \<Longrightarrow> length buf = 512 \<Longrightarrow>
    copy_blocks (storage_load i 512) mem_store 512 n (rs_store rs) sec (rs_mem rs) phys = Some (rs_mem rs') \<and>
    rs_store rs' = rs_store rs \<and> length buf' = 512"
proof (induction n arbitrary: phys sec buf rs)
  case (Suc n)
  then obtain k bs m where r: "storage_pread (rs_storage rs) (rs_disk rs) i buf sec = Ok (k, bs)"
    by (fastforce simp: iovec_sector_def)
  have l: "storage_load i 512 (rs_store rs) sec = Some bs" "k = 512" "length bs = 512"
    using storage_pread_load [OF Suc.prems(2) r] Suc.prems(4,5) by auto
  with r Suc.prems(1) obtain m where m: "rmtfs_mem_write (rs_mem rs) (of_nat phys) bs = Ok (512, m)"
      "iovec_sectors env i False n (phys + 512) (sec + 512) bs (rs\<lparr>rs_mem := m\<rparr>) = Ok (True, buf', rs')"
    by (fastforce simp: iovec_sector_def Let_def split: if_splits)
  have "mem_store (rs_mem rs) phys bs = Some m" using m(1) l(3) Suc.prems(3) by (simp add: mem_store_def)
  with Suc.IH [OF m(2)] Suc.prems l show ?case by (simp add: rs_store_def)
qed (simp add: rs_store_def)

text \<open>What an entry means: a range of a file and a range of the memory, at byte addresses.\<close>

definition entry_sec :: "rmtfs_iovec_entry \<Rightarrow> nat" where "entry_sec e = unat (sector_addr e * 512)"
definition entry_phys :: "rmtfs_iovec_entry \<Rightarrow> nat" where "entry_phys e = unat (phys_offset e)"
definition entry_len :: "rmtfs_iovec_entry \<Rightarrow> nat" where "entry_len e = unat (num_sector e) * 512"

definition store_entry :: "(nat \<Rightarrow> u8) \<Rightarrow> rmtfs_iovec_entry \<Rightarrow> (nat \<Rightarrow> u8) \<Rightarrow> nat \<Rightarrow> u8" where
  "store_entry m e f x = (if entry_sec e \<le> x \<and> x < entry_sec e + entry_len e
     then m (entry_phys e + (x - entry_sec e)) else f x)"

definition fetch_entry :: "(nat \<Rightarrow> u8) \<Rightarrow> rmtfs_iovec_entry \<Rightarrow> (nat \<Rightarrow> u8) \<Rightarrow> nat \<Rightarrow> u8" where
  "fetch_entry f e m x = (if entry_phys e \<le> x \<and> x < entry_phys e + entry_len e
     then f (entry_sec e + (x - entry_phys e)) else m x)"

lemma fold_store_cong:
  "f x = g x \<or> (\<exists>e \<in> set es. entry_sec e \<le> x \<and> x < entry_sec e + entry_len e) \<Longrightarrow>
    fold (store_entry m) es f x = fold (store_entry m) es g x"
proof (induction es arbitrary: f g)
  case (Cons e es)
  show ?case unfolding fold_simps comp_def by (rule Cons.IH) (use Cons.prems in \<open>auto simp: store_entry_def\<close>)
qed simp

lemma fold_fetch_cong: "m x = m' x \<Longrightarrow> fold (fetch_entry f) es m x = fold (fetch_entry f) es m' x"
proof (induction es arbitrary: m m')
  case (Cons e es)
  show ?case unfolding fold_simps comp_def by (rule Cons.IH) (use Cons.prems in \<open>auto simp: fetch_entry_def\<close>)
qed simp

lemma entry_bounds: "entry_phys e + unat (num_sector e) * 512 < 2 ^ 63" "entry_sec e + unat (num_sector e) * 512 < 2 ^ 63"
proof -
  have "unat w < 2 ^ LENGTH(32)" for w :: u32 by (rule unsigned_less)
  then have b: "unat w < 4294967296" for w :: u32 by simp
  show "entry_phys e + unat (num_sector e) * 512 < 2 ^ 63" "entry_sec e + unat (num_sector e) * 512 < 2 ^ 63"
    using b [of "num_sector e"] b [of "phys_offset e"] b [of "sector_addr e * 512"] by (simp_all add: entry_phys_def entry_sec_def)
qed

lemma entries_write:
  "iovec_entries env i True es buf rs = Ok (True, rs') \<Longrightarrow> mem_ok (rs_mem rs) \<Longrightarrow> storage_inv i (rs_store rs) \<Longrightarrow> length buf = 512 \<Longrightarrow>
    storage_inv i (rs_store rs') \<and> rs_mem rs' = rs_mem rs \<and>
    (\<forall>x. storage_valid i (rs_store rs) x \<or> (\<exists>e \<in> set es. entry_sec e \<le> x \<and> x < entry_sec e + entry_len e) \<longrightarrow>
      storage_byte i (rs_store rs') x = fold (store_entry (mem_byte (rs_mem rs))) es (storage_byte i (rs_store rs)) x)"
proof (induction es arbitrary: buf rs)
  case (Cons e es)
  from Cons.prems(1) obtain buf1 rs1 where r: "iovec_sectors env i True (unat (num_sector e)) (entry_phys e) (entry_sec e) buf rs =
      Ok (True, buf1, rs1)" "iovec_entries env i True es buf1 rs1 = Ok (True, rs')"
    by (auto simp: entry_phys_def entry_sec_def split: if_splits)
  note c = sectors_write [OF r(1) entry_bounds(1) Cons.prems(4)]
  note b = wr_iov.copy_blocks_correct [OF conjunct1 [OF c] Cons.prems(2,3)]
  have step: "storage_byte i (rs_store rs1) x = store_entry (mem_byte (rs_mem rs)) e (storage_byte i (rs_store rs)) x"
    if "storage_valid i (rs_store rs) x \<or> entry_sec e \<le> x \<and> x < entry_sec e + entry_len e" for x
  proof (cases "entry_sec e \<le> x \<and> x < entry_sec e + entry_len e")
    case True
    then have "x - entry_sec e < unat (num_sector e) * 512" "entry_sec e + (x - entry_sec e) = x" by (auto simp: entry_len_def)
    with b True show ?thesis by (metis store_entry_def)
  next
    case False
    then show ?thesis using b that by (auto simp: store_entry_def entry_len_def)
  qed
  note ih = Cons.IH [OF r(2)] c b Cons.prems
  have "storage_byte i (rs_store rs') x = fold (store_entry (mem_byte (rs_mem rs))) (e # es) (storage_byte i (rs_store rs)) x"
    if x: "storage_valid i (rs_store rs) x \<or> (\<exists>e \<in> set (e # es). entry_sec e \<le> x \<and> x < entry_sec e + entry_len e)" for x
  proof -
    have v: "storage_valid i (rs_store rs1) x \<or> (\<exists>e \<in> set es. entry_sec e \<le> x \<and> x < entry_sec e + entry_len e)"
      using x b by (auto simp: entry_len_def)
    then have "storage_byte i (rs_store rs') x = fold (store_entry (mem_byte (rs_mem rs))) es (storage_byte i (rs_store rs1)) x"
      using ih by auto
    also have "\<dots> = fold (store_entry (mem_byte (rs_mem rs))) es (store_entry (mem_byte (rs_mem rs)) e (storage_byte i (rs_store rs))) x"
      by (rule fold_store_cong) (use step [of x] x in auto)
    finally show ?thesis by simp
  qed
  then show ?case using ih by auto
qed (auto simp: store_entry_def)

lemma entries_read:
  "iovec_entries env i False es buf rs = Ok (True, rs') \<Longrightarrow> mem_ok (rs_mem rs) \<Longrightarrow> storage_inv i (rs_store rs) \<Longrightarrow> length buf = 512 \<Longrightarrow>
    mem_ok (rs_mem rs') \<and> rs_store rs' = rs_store rs \<and>
    (\<forall>x. mem_valid (rs_mem rs) x \<longrightarrow> mem_valid (rs_mem rs') x \<and>
      mem_byte (rs_mem rs') x = fold (fetch_entry (storage_byte i (rs_store rs))) es (mem_byte (rs_mem rs)) x)"
proof (induction es arbitrary: buf rs)
  case (Cons e es)
  from Cons.prems(1) obtain buf1 rs1 where r: "iovec_sectors env i False (unat (num_sector e)) (entry_phys e) (entry_sec e) buf rs =
      Ok (True, buf1, rs1)" "iovec_entries env i False es buf1 rs1 = Ok (True, rs')"
    by (auto simp: entry_phys_def entry_sec_def split: if_splits)
  note c = sectors_read [OF r(1) Cons.prems(3) entry_bounds Cons.prems(4)]
  note b = rd_iov.copy_blocks_correct [OF conjunct1 [OF c] Cons.prems(3,2)]
  have step: "mem_byte (rs_mem rs1) x = fetch_entry (storage_byte i (rs_store rs)) e (mem_byte (rs_mem rs)) x"
    if "mem_valid (rs_mem rs) x" for x
  proof (cases "entry_phys e \<le> x \<and> x < entry_phys e + entry_len e")
    case True
    then have "x - entry_phys e < unat (num_sector e) * 512" "entry_phys e + (x - entry_phys e) = x" by (auto simp: entry_len_def)
    with b True show ?thesis by (metis fetch_entry_def)
  next
    case False
    then show ?thesis using b that by (auto simp: fetch_entry_def entry_len_def)
  qed
  from Cons.IH [OF r(2)] c b Cons.prems step show ?case by (auto intro!: fold_fetch_cong)
qed auto

text \<open>The effect of a list of entries on the file and the memory.\<close>

definition transferred :: "bool \<Rightarrow> nat \<Rightarrow> rmtfs_iovec_entry list \<Rightarrow> rmtfs \<Rightarrow> rmtfs \<Rightarrow> bool" where
  "transferred is_write i es rs rs' \<longleftrightarrow>
    (if is_write then rs_mem rs' = rs_mem rs \<and>
       (\<forall>x. storage_valid i (rs_store rs) x \<or> (\<exists>e \<in> set es. entry_sec e \<le> x \<and> x < entry_sec e + entry_len e) \<longrightarrow>
          storage_byte i (rs_store rs') x = fold (store_entry (mem_byte (rs_mem rs))) es (storage_byte i (rs_store rs)) x)
     else rs_store rs' = rs_store rs \<and>
       (\<forall>x. mem_valid (rs_mem rs) x \<longrightarrow>
          mem_byte (rs_mem rs') x = fold (fetch_entry (storage_byte i (rs_store rs))) es (mem_byte (rs_mem rs)) x))"

lemma entries_transfer:
  assumes "iovec_entries env i is_write es buf rs = Ok (True, rs')" "mem_ok (rs_mem rs)" "storage_inv i (rs_store rs)"
    "length buf = 512"
  shows "mem_ok (rs_mem rs') \<and> storage_inv i (rs_store rs') \<and> transferred is_write i es rs rs'"
  using entries_write [of env i es buf rs rs'] entries_read [of env i es buf rs rs'] assms
  by (cases is_write) (auto simp: transferred_def)


definition demo_rs :: rmtfs where
  "demo_rs = \<lparr>rs_storage = fst (snd demo_opened), rs_disk = snd (snd demo_opened),
     rs_mem = \<lparr>mem_address = 0, mem_size = 1024, mem_mapped = True, shared = replicate 1024 7\<rparr>\<rparr>"

definition demo_renv :: rmtfs_env where
  "demo_renv = \<lparr>renv_open = demo_st_env, renv_realloc = (\<lambda>_. True), renv_fresh = (\<lambda>_. 0), renv_txn = 0,
     renv_buf = replicate 512 0, renv_resp = replicate 256 0\<rparr>"

lemma demo_rs_inv: "mem_ok (rs_mem demo_rs)" "storage_inv 0 (rs_store demo_rs)"
proof -
  show "mem_ok (rs_mem demo_rs)" by (simp add: demo_rs_def mem_ok_def)
  obtain p where "opened (fst (snd demo_opened)) 0 5 p" "storage_ok (fst (snd demo_opened))" by (rule demo_opened_ok)
  moreover have "\<not> storage_read_only (fst (snd demo_opened))" by code_simp
  moreover have "fds (snd (snd demo_opened)) (rfd (rmtfds (fst (snd demo_opened)) ! 0)) \<noteq> None" by code_simp
  ultimately show "storage_inv 0 (rs_store demo_rs)"
    by (auto simp: storage_inv_def rs_store_def demo_rs_def opened_def Let_def case_prod_beta)
qed

abbreviation (input) demo_entry :: rmtfs_iovec_entry where
  "demo_entry \<equiv> \<lparr>sector_addr = 1, phys_offset = 512, num_sector = 1\<rparr>"


end
