(* ===== verification/Rmtfs_Msg.thy ===== *)
theory Rmtfs_Msg
  imports Rmtfs
begin

text \<open>
  The remote file system service at the level of messages: what a client puts into a request, what the
  handlers of \<open>qcom/rmtfs/rmtfs.c\<close> do with it, and the bytes of the reply.
\<close>

section \<open>Replies\<close>

definition reply :: "u16 \<Rightarrow> u16 \<Rightarrow> bytes \<Rightarrow> bytes" where
  "reply msg_id txn bs = header_bytes \<lparr>hdr_type = QMI_RESPONSE, hdr_txn_id = txn, hdr_msg_id = msg_id,
     hdr_msg_len = of_nat (length bs)\<rparr> @ bs"

lemma respond_ok:
  assumes "wire 1 ei resp 0 0 [] = Some bs" "7 + length bs \<le> 256" "length (renv_resp env) = 256"
  shows "respond env msg_id txn resp ei = Ok (Some (reply msg_id txn bs))"
proof -
  have "length (header_bytes h) = 7" for h by (simp add: header_bytes_def)
  then show ?thesis using encode_message_fits [OF assms(1,2), of "renv_resp env" QMI_RESPONSE msg_id txn] assms(2,3)
    by (simp add: respond_def put_def reply_def)
qed

lemma wire_result:
  "wire 1 rmtfs_iovec_resp_ei (result_bytes r) 0 0 [] = Some ([2, 4, 0] @ result_bytes r)"
  "wire 1 rmtfs_close_resp_ei (result_bytes r) 0 0 [] = Some ([2, 4, 0] @ result_bytes r)"
  by (simp_all add: rmtfs_iovec_resp_ei_def rmtfs_close_resp_ei_def rmtfs_qmi_result_ei_def result_bytes_def wire_eval)

section \<open>The \<open>RW_IOVEC\<close> request\<close>

definition entry_bytes :: "rmtfs_iovec_entry \<Rightarrow> bytes" where
  "entry_bytes e = le32 (sector_addr e) @ le32 (phys_offset e) @ le32 (num_sector e)"

text \<open>The structure with its padding, and the message a client sends for it.\<close>

definition iovec_struct :: "u32 \<Rightarrow> u8 \<Rightarrow> rmtfs_iovec_entry list \<Rightarrow> u8 \<Rightarrow> bytes" where
  "iovec_struct caller dir es force = le32 caller @ [dir, 0, 0, 0] @ le32 (of_nat (length es)) @ [0, 0, 0, 0] @
     concat (map entry_bytes es) @ replicate (3060 - 12 * length es) 0 @ [force, 0, 0, 0]"

definition iovec_bytes :: "u32 \<Rightarrow> u8 \<Rightarrow> rmtfs_iovec_entry list \<Rightarrow> u8 \<Rightarrow> bytes" where
  "iovec_bytes caller dir es force = [1, 4, 0] @ le32 caller @ [2, 1, 0, dir] @
     [3] @ le16 (of_nat (1 + 12 * length es)) @ [of_nat (length es)] @ concat (map entry_bytes es) @ [4, 1, 0, force]"

definition iovec_request :: "u16 \<Rightarrow> u32 \<Rightarrow> u8 \<Rightarrow> rmtfs_iovec_entry list \<Rightarrow> u8 \<Rightarrow> bytes" where
  "iovec_request txn caller dir es force = (let bs = iovec_bytes caller dir es force in
     header_bytes \<lparr>hdr_type = QMI_REQUEST, hdr_txn_id = txn, hdr_msg_id = QMI_RMTFS_RW_IOVEC,
       hdr_msg_len = of_nat (length bs)\<rparr> @ bs)"

lemma length_entry [simp]: "length (entry_bytes e) = 12"
  by (simp add: entry_bytes_def)

lemma length_entries [simp]: "length (concat (map entry_bytes es)) = 12 * length es"
  by (induction es) auto

lemma length_iovec_struct [simp]: "length es \<le> 255 \<Longrightarrow> length (iovec_struct caller dir es force) = 3080"
  by (simp add: iovec_struct_def)

lemma has_self: "pos = length as \<Longrightarrow> has (as @ bs @ cs) pos bs"
  by (simp add: has_def rd_def)

lemma iovec_struct_has:
  assumes "length es \<le> 255"
  shows "has (iovec_struct caller dir es force) 0 (le32 caller)" "has (iovec_struct caller dir es force) 4 [dir]"
    "has (iovec_struct caller dir es force) 8 (le32 (of_nat (length es)))"
    "has (iovec_struct caller dir es force) 16 (concat (map entry_bytes es))" "has (iovec_struct caller dir es force) 3076 [force]"
proof -
  show "has (iovec_struct caller dir es force) 0 (le32 caller)"
    unfolding iovec_struct_def by (rule has_self [of 0 "[]", simplified])
  show "has (iovec_struct caller dir es force) 4 [dir]"
    using has_self [of 4 "le32 caller" "[dir]"] by (simp add: iovec_struct_def)
  show "has (iovec_struct caller dir es force) 8 (le32 (of_nat (length es)))"
    using has_self [of 8 "le32 caller @ [dir, 0, 0, 0]" "le32 (of_nat (length es))"] by (simp add: iovec_struct_def)
  show "has (iovec_struct caller dir es force) 16 (concat (map entry_bytes es))"
    using has_self [of 16 "le32 caller @ [dir, 0, 0, 0] @ le32 (of_nat (length es)) @ [0, 0, 0, 0]" "concat (map entry_bytes es)"]
    by (simp add: iovec_struct_def)
  show "has (iovec_struct caller dir es force) 3076 [force]"
    using has_self [of 3076 "le32 caller @ [dir, 0, 0, 0] @ le32 (of_nat (length es)) @ [0, 0, 0, 0] @
      concat (map entry_bytes es) @ replicate (3060 - 12 * length es) 0" "[force]"] assms
    by (simp add: iovec_struct_def)
qed

text \<open>The entries.\<close>

fun entry_patches :: "nat \<Rightarrow> rmtfs_iovec_entry list \<Rightarrow> patch list" where
  "entry_patches off [] = []"
| "entry_patches off (e # es) = [(off, le32 (sector_addr e)), (off + 4, le32 (phys_offset e)), (off + 8, le32 (num_sector e))] @
     entry_patches (off + 12) es"

lemma wire_entry:
  assumes "has src off (entry_bytes e)"
  shows "wire 2 rmtfs_iovec_entry_ei src off 0 [] = Some (entry_bytes e)"
    "patches 2 rmtfs_iovec_entry_ei src off 0 =
      [(off, le32 (sector_addr e)), (off + 4, le32 (phys_offset e)), (off + 8, le32 (num_sector e))]"
proof -
  have "rd src off 4 = Some (le32 (sector_addr e))" "rd src (off + 4) 4 = Some (le32 (phys_offset e))"
    "rd src (off + 8) 4 = Some (le32 (num_sector e))"
    using assms unfolding entry_bytes_def has_append by (auto simp: has_def add.commute)
  then show "wire 2 rmtfs_iovec_entry_ei src off 0 [] = Some (entry_bytes e)"
    "patches 2 rmtfs_iovec_entry_ei src off 0 =
      [(off, le32 (sector_addr e)), (off + 4, le32 (phys_offset e)), (off + 8, le32 (num_sector e))]"
    by (simp_all add: rmtfs_iovec_entry_ei_def wire.simps(2) patches.simps(2) wire_elem_def enc_count_def emit_def
        elem_patches_def entry_bytes_def)
qed

lemma wire_entries:
  "has src off (concat (map entry_bytes es)) \<Longrightarrow>
    wire_structs (length es) (Some rmtfs_iovec_entry_ei) 12 2 src off = Some (concat (map entry_bytes es)) \<and>
    patches_structs (length es) (Some rmtfs_iovec_entry_ei) 12 2 src off = entry_patches off es"
proof (induction es arbitrary: off)
  case (Cons e es)
  then have "has src off (entry_bytes e)" "has src (off + 12) (concat (map entry_bytes es))" by simp_all
  with Cons.IH wire_entry [of src off e] show ?case by simp
qed simp

lemma wire_iovec:
  assumes "length es \<le> 255" and src: "src = iovec_struct caller dir es force"
  shows "wire 1 rmtfs_iovec_req_ei src 0 0 [] = Some (iovec_bytes caller dir es force)"
    "patches 1 rmtfs_iovec_req_ei src 0 0 =
      [(0, le32 caller), (4, [dir]), (8, le32 (of_nat (length es)))] @ entry_patches 16 es @ [(3076, [force])]"
proof -
  let ?n = "length es"
  note h = iovec_struct_has [OF assms(1), of caller dir force, folded src]
  have n: "?n < 256" using assms(1) by simp
  have r: "rd src 0 4 = Some (le32 caller)" "rd src 4 1 = Some [dir]" "rd src 3076 1 = Some [force]"
    using h by (simp_all add: has_def)
  have "has src 8 [of_nat ?n]" using h(3) by (simp add: le32_byte [OF n] has_Cons [of src 8 _ "[0, 0, 0]"])
  then have r8: "rd src 8 1 = Some [of_nat ?n]" by (simp add: has_def)
  have u: "unat (of_nat ?n :: u32) = ?n" using n by (simp add: unat_of_nat take_bit_nat_eq_self)
  have l: "wire_len (EI QMI_DATA_LEN 1 1 NO_ARRAY 3 8 None) src 8 1 = Some (?n, [of_nat ?n])"
    using r8 u n by (simp add: wire_len_def Let_def le32_byte [of 1, simplified] rd32_byte le32_byte)
  have w: "wire_structs ?n (Some rmtfs_iovec_entry_ei) 12 (Suc (Suc 0)) src 16 = Some (concat (map entry_bytes es))"
    "patches_structs ?n (Some rmtfs_iovec_entry_ei) 12 (Suc (Suc 0)) src 16 = entry_patches 16 es"
    using wire_entries [OF h(4)] by (simp_all add: numeral_2_eq_2)
  have b: "le16 4 = [4, 0]" "le16 1 = [1, 0]" by (simp_all add: le16_def)
  show "wire 1 rmtfs_iovec_req_ei src 0 0 [] = Some (iovec_bytes caller dir es force)"
    using r l w b assms(1)
    by (cases "es = []") (simp_all add: rmtfs_iovec_req_ei_def wire.simps(2) wire_elem_def enc_count_def emit_def iovec_bytes_def)
  show "patches 1 rmtfs_iovec_req_ei src 0 0 =
      [(0, le32 caller), (4, [dir]), (8, le32 (of_nat (length es)))] @ entry_patches 16 es @ [(3076, [force])]"
    using r l w b assms(1)
    by (cases "es = []") (simp_all add: rmtfs_iovec_req_ei_def patches.simps(2) wire_elem_def enc_count_def elem_patches_def)
qed

lemma wf_entry: "\<exists>sfs. sfs \<noteq> [] \<and> wf_table (Suc (Suc 0)) sfs rmtfs_iovec_entry_ei"
proof (intro exI conjI)
  let ?fs = "[Field None None (EI QMI_UNSIGNED_4_BYTE 1 4 NO_ARRAY 0 0 None), Field None None (EI QMI_UNSIGNED_4_BYTE 1 4 NO_ARRAY 0 4 None),
    Field None None (EI QMI_UNSIGNED_4_BYTE 1 4 NO_ARRAY 0 8 None)]"
  show "?fs \<noteq> []" by simp
  show "wf_table (Suc (Suc 0)) ?fs rmtfs_iovec_entry_ei"
    by (rule wf_tableI [where eoti = "EI QMI_EOTI 0 0 NO_ARRAY 0 0 None"])
      (simp_all add: rmtfs_iovec_entry_ei_def flat_def wf_flag_def wf_len_def wf_data_def)
qed

abbreviation (input) "iovec_fields \<equiv>
  [Field None None (EI QMI_UNSIGNED_4_BYTE 1 4 NO_ARRAY 1 0 None), Field None None (EI QMI_UNSIGNED_1_BYTE 1 1 NO_ARRAY 2 4 None),
   Field None (Some (EI QMI_DATA_LEN 1 1 NO_ARRAY 3 8 None)) (EI QMI_STRUCT 255 12 VAR_LEN_ARRAY 3 16 (Some rmtfs_iovec_entry_ei)),
   Field None None (EI QMI_UNSIGNED_1_BYTE 1 1 NO_ARRAY 4 3076 None)]"

lemma wf_iovec: "wf_table 1 iovec_fields rmtfs_iovec_req_ei"
  using wf_entry by (intro wf_tableI [where eoti = "EI QMI_EOTI 0 0 NO_ARRAY 0 0 None"])
    (auto simp: rmtfs_iovec_req_ei_def flat_def wf_flag_def wf_len_def wf_data_def)

lemma entry_patches_set:
  "(o', b) \<in> set (entry_patches off es) \<longleftrightarrow> (\<exists>i < length es. o' = off + 12 * i \<and> b = le32 (sector_addr (es ! i)) \<or>
     o' = off + 12 * i + 4 \<and> b = le32 (phys_offset (es ! i)) \<or> o' = off + 12 * i + 8 \<and> b = le32 (num_sector (es ! i)))"
proof (induction es arbitrary: off)
  case (Cons e es)
  show ?case unfolding length_Cons Ex_less_Suc2 by (auto simp: Cons.IH algebra_simps)
qed simp

lemma has_entry: "has src off (concat (map entry_bytes es)) \<Longrightarrow> i < length es \<Longrightarrow> has src (off + 12 * i) (entry_bytes (es ! i))"
proof (induction es arbitrary: off i)
  case (Cons e es)
  then show ?case by (cases i) (auto simp: algebra_simps dest: Cons.IH)
qed simp

lemma iovec_decoded:
  assumes "length es \<le> 255"
    and ps_def: "ps = [(0, le32 caller), (4, [dir]), (8, le32 (of_nat (length es)))] @ entry_patches 16 es @ [(3076, [force])]"
  shows "patches_fit ps (replicate 3080 0)"
    "let r = iovec_req_of (apply_patches ps (replicate 3080 0)) in
      iov_caller_id r = caller \<and> iov_direction r = dir \<and> take (unat (iov_len r)) (iov_entries r) = es"
proof -
  let ?m = "replicate 3080 (0 :: u8)"
  note h = iovec_struct_has [OF assms(1), of caller dir force]
  show fit: "patches_fit ps ?m" using assms(1) by (auto simp: ps_def patches_fit_def entry_patches_set)
  have src: "\<forall>(off, b) \<in> set ps. rd (iovec_struct caller dir es force) off (length b) = Some b"
  proof -
    have "has (iovec_struct caller dir es force) (16 + 12 * i) (le32 (sector_addr (es ! i))) \<and>
        has (iovec_struct caller dir es force) (16 + 12 * i + 4) (le32 (phys_offset (es ! i))) \<and>
        has (iovec_struct caller dir es force) (16 + 12 * i + 8) (le32 (num_sector (es ! i)))" if "i < length es" for i
      using has_entry [OF h(4) that] by (simp add: entry_bytes_def algebra_simps)
    with h show ?thesis unfolding ps_def has_def by (auto simp: entry_patches_set)
  qed
  define req where "req = apply_patches ps ?m"
  note g = apply_patches_rd [OF src fit, folded req_def]
  have l: "length req = 3080" using fit by (simp add: req_def)
  have r32: "rd32 (drop off req) = w" if "(off, le32 w) \<in> set ps" for off w
  proof -
    from g [OF that] have "drop off req = le32 w @ drop 4 (drop off req)"
      using append_take_drop_id [of 4 "drop off req"] by (auto simp: rd_def split: if_splits)
    then show ?thesis using rd32_le32 by metis
  qed
  have "rd req 4 1 = Some [dir]" using g [of 4 "[dir]"] by (simp add: ps_def)
  then have dir: "req ! 4 = dir" using l by (auto simp: rd_def take_Suc hd_drop_conv_nth)
  have u: "unat (of_nat (length es) :: u32) = length es" using assms(1) by (simp add: unat_of_nat take_bit_nat_eq_self)
  have e: "entry_of (drop (16 + 12 * i) req) = es ! i" if "i < length es" for i
  proof -
    have "(16 + 12 * i, le32 (sector_addr (es ! i))) \<in> set ps" "(16 + 12 * i + 4, le32 (phys_offset (es ! i))) \<in> set ps"
      "(16 + 12 * i + 8, le32 (num_sector (es ! i))) \<in> set ps"
      using that unfolding ps_def set_append Un_iff entry_patches_set by blast+
    from this [THEN r32] show ?thesis by (simp add: entry_of_def algebra_simps)
  qed
  then have "map (\<lambda>i. entry_of (drop (16 + 12 * i) req)) [0..<length es] = es" by (auto intro: nth_equalityI)
  then have "take (length es) (map (\<lambda>i. entry_of (drop (16 + 12 * i) req)) [0..<255]) = es"
    using assms(1) by (simp add: take_map take_upt del: upt_conv_Cons)
  then show "let r = iovec_req_of (apply_patches ps ?m) in
      iov_caller_id r = caller \<and> iov_direction r = dir \<and> take (unat (iov_len r)) (iov_entries r) = es"
    unfolding req_def [symmetric] Let_def using dir u r32 [of 0 caller] r32 [of 8 "of_nat (length es)"]
    by (simp add: iovec_req_of_def ps_def del: upt_conv_Cons)
qed

lemma request_iovec:
  assumes "length es \<le> 255" and bs_def: "bs = iovec_bytes caller dir es force"
  shows "\<exists>req. request env 3080 QMI_RMTFS_RW_IOVEC rmtfs_iovec_req_ei (iovec_request txn caller dir es force @ tail) (7 + length bs) =
      Ok (txn, Some req) \<and> iov_caller_id (iovec_req_of req) = caller \<and> iov_direction (iovec_req_of req) = dir \<and>
      take (unat (iov_len (iovec_req_of req))) (iov_entries (iovec_req_of req)) = es"
proof -
  note w = wire_iovec [OF assms(1) refl, of caller dir force]
  note d = iovec_decoded [OF assms(1) refl, of caller dir force, unfolded Let_def]
  have l: "length bs < 65536" using assms(1) by (simp add: bs_def iovec_bytes_def)
  have m: "iovec_request txn caller dir es force @ tail =
      header_bytes \<lparr>hdr_type = QMI_REQUEST, hdr_txn_id = txn, hdr_msg_id = QMI_RMTFS_RW_IOVEC, hdr_msg_len = of_nat (length bs)\<rparr> @ bs @ tail"
    by (simp add: iovec_request_def Let_def bs_def)
  from decode_message_wire(2) [OF wf_iovec w(1) l [unfolded bs_def] d(1) [folded w(2)] m [unfolded bs_def]] d(2) [folded w(2)]
  show ?thesis by (simp add: request_def bs_def)
qed

text \<open>With files behind the handles, no request touches memory outside the region.\<close>

lemma sector_file:
  assumes "mem_ok (rs_mem rs)" "storage_inv i (rs_store rs)" "\<not> storage_read_only (rs_storage rs)" "phys + 512 < 2 ^ 63" "length buf = 512"
  shows "\<exists>n buf' rs'. iovec_sector env i w phys sec buf rs = Ok (n, buf', rs') \<and> mem_ok (rs_mem rs') \<and>
    (n = 512 \<longrightarrow> length buf' = 512 \<and> storage_inv i (rs_store rs') \<and> \<not> storage_read_only (rs_storage rs'))"
proof (cases w)
  case True
  obtain k cs where r: "rmtfs_mem_read (rs_mem rs) (of_nat phys) 512 = Ok (k, cs)"
    using mem_access_total [OF assms(1), of phys buf] assms(4,5) by metis
  show ?thesis
  proof (cases "k = 512")
    case k: True
    then have l: "length cs = 512" using mem_read_full(2) [of "rs_mem rs" phys 512 cs] r assms(4) by simp
    obtain n d where p: "storage_pwrite (renv_realloc env (sec + 512)) (renv_fresh env) (rs_storage rs) (rs_disk rs) i cs sec =
        Ok (n, rs_storage rs, d)"
      using assms(3) by (cases "sys_pwrite (rs_disk rs) (rfd (rmtfds (rs_storage rs) ! i)) cs sec") (auto simp: storage_pwrite_def Let_def)
    then have "storage_inv i (rs_storage rs, d)" if "n = 512"
      using that storage_store_bytes(1) [OF assms(2), of "renv_realloc env" "renv_fresh env" sec cs "(rs_storage rs, d)"] l
      by (simp add: storage_store_def rs_store_def)
    then show ?thesis using True k r l p assms(1,3,5) by (auto simp: iovec_sector_def Let_def rs_store_def)
  qed (use True r assms(1) in \<open>simp add: iovec_sector_def Let_def\<close>)
next
  case False
  have p: "storage_pread (rs_storage rs) (rs_disk rs) i buf sec \<noteq> UB" "\<And>e. storage_pread (rs_storage rs) (rs_disk rs) i buf sec \<noteq> Err e"
    using assms(3) by (auto simp: storage_pread_def Let_def)
  then obtain n bs where n: "storage_pread (rs_storage rs) (rs_disk rs) i buf sec = Ok (n, bs)" by (metis cres.exhaust surj_pair)
  then have "n = 512" "length bs = 512" using assms(3,5)
    by (auto simp: storage_pread_def sys_pread_def Let_def split: option.splits)
  moreover obtain k m where "rmtfs_mem_write (rs_mem rs) (of_nat phys) bs = Ok (k, m)" "mem_ok m"
    using mem_access_total [OF assms(1), of phys bs] assms(4) \<open>length bs = 512\<close> by metis
  ultimately show ?thesis using False n assms(2,3) by (auto simp: iovec_sector_def Let_def rs_store_def)
qed

lemma sectors_file:
  "mem_ok (rs_mem rs) \<Longrightarrow> storage_inv i (rs_store rs) \<Longrightarrow> \<not> storage_read_only (rs_storage rs) \<Longrightarrow> phys + 512 * n < 2 ^ 63 \<Longrightarrow>
    length buf = 512 \<Longrightarrow> \<exists>ok buf' rs'. iovec_sectors env i w n phys sec buf rs = Ok (ok, buf', rs') \<and>
    (ok \<longrightarrow> length buf' = 512 \<and> mem_ok (rs_mem rs') \<and> storage_inv i (rs_store rs') \<and> \<not> storage_read_only (rs_storage rs'))"
proof (induction n arbitrary: phys sec buf rs)
  case (Suc n)
  from sector_file [OF Suc.prems(1-3) _ Suc.prems(5), of phys env w sec] Suc.prems(4) obtain k buf1 rs1 where
    s: "iovec_sector env i w phys sec buf rs = Ok (k, buf1, rs1)" "mem_ok (rs_mem rs1)"
      "k = 512 \<longrightarrow> length buf1 = 512 \<and> storage_inv i (rs_store rs1) \<and> \<not> storage_read_only (rs_storage rs1)" by auto
  then show ?case using Suc.IH [of rs1 "phys + 512" buf1 "sec + 512"] Suc.prems(4) by (cases "k = 512") auto
qed auto

lemma entries_file:
  "mem_ok (rs_mem rs) \<Longrightarrow> storage_inv i (rs_store rs) \<Longrightarrow> \<not> storage_read_only (rs_storage rs) \<Longrightarrow> length buf = 512 \<Longrightarrow>
    \<exists>ok rs'. iovec_entries env i w es buf rs = Ok (ok, rs')"
proof (induction es arbitrary: buf rs)
  case (Cons e es)
  from sectors_file [OF Cons.prems(1-3) _ Cons.prems(4), of "entry_phys e" "unat (num_sector e)" env w "entry_sec e"] entry_bounds(1) [of e]
  obtain ok buf1 rs1 where s: "iovec_sectors env i w (unat (num_sector e)) (entry_phys e) (entry_sec e) buf rs = Ok (ok, buf1, rs1)"
      "ok \<longrightarrow> length buf1 = 512 \<and> mem_ok (rs_mem rs1) \<and> storage_inv i (rs_store rs1) \<and> \<not> storage_read_only (rs_storage rs1)" by auto
  then show ?case using Cons.IH [of rs1 buf1] by (cases ok) (auto simp: entry_phys_def entry_sec_def)
qed auto

text \<open>The whole way: from the datagram of a client to the datagram that answers it.\<close>

lemma serve_iovec:
  assumes "length es \<le> 255" "storage_get (rs_storage rs) (sq_node sq) caller = Ok (Some i)" "sq_port sq \<noteq> QRTR_PORT_CTRL"
    "iovec_entries env i (dir \<noteq> 0) es (renv_buf env) rs = Ok (ok, rs')" "length (renv_resp env) = 256"
  shows "handle_rmtfs env (Inr (iovec_request txn caller dir es force, sq)) tail pkt rs =
    Ok (0, Some (sq_node sq, sq_port sq, reply QMI_RMTFS_RW_IOVEC txn ([2, 4, 0] @ result_bytes
      (if ok then no_error else qmi_result_error no_error QMI_RMTFS_ERR_INTERNAL))), rs')"
proof -
  let ?r = "iovec_request txn caller dir es force" and ?bs = "iovec_bytes caller dir es force"
  have l: "length ?r = 7 + length ?bs" by (simp add: iovec_request_def Let_def header_bytes_def)
  have b: "length ?bs < 65536" using assms(1) by (simp add: iovec_bytes_def)
  have m: "?r @ tail = header_bytes \<lparr>hdr_type = QMI_REQUEST, hdr_txn_id = txn, hdr_msg_id = QMI_RMTFS_RW_IOVEC,
      hdr_msg_len = of_nat (length ?bs)\<rparr> @ ?bs @ tail" by (simp add: iovec_request_def Let_def)
  have h: "qmi_decode_header (?r @ tail) (length ?r) = Ok QMI_RMTFS_RW_IOVEC"
    unfolding l using decode_message_wire(1) [OF wf_iovec wire_iovec(1) [OF assms(1) refl] b _ m]
      wire_iovec(2) [OF assms(1) refl] iovec_decoded(1) [OF assms(1) refl] by metis
  have "length (result_bytes r) = 4" for r by (simp add: result_bytes_def)
  then have a: "respond env QMI_RMTFS_RW_IOVEC txn (result_bytes r) rmtfs_iovec_resp_ei =
      Ok (Some (reply QMI_RMTFS_RW_IOVEC txn ([2, 4, 0] @ result_bytes r)))" for r
    by (intro respond_ok wire_result(1)) (simp_all add: assms(5))
  obtain req where "request env 3080 QMI_RMTFS_RW_IOVEC rmtfs_iovec_req_ei (?r @ tail) (length ?r) = Ok (txn, Some req)"
      "iov_caller_id (iovec_req_of req) = caller" "iov_direction (iovec_req_of req) = dir"
      "take (unat (iov_len (iovec_req_of req))) (iov_entries (iovec_req_of req)) = es"
    using request_iovec [OF assms(1) refl] unfolding l by metis
  then have "rmtfs_iovec env rs (sq_node sq) (?r @ tail) (length ?r) = Ok (Some (reply QMI_RMTFS_RW_IOVEC txn ([2, 4, 0] @ result_bytes
      (if ok then no_error else qmi_result_error no_error QMI_RMTFS_ERR_INTERNAL))), rs')"
    using assms(2,4) a by (simp add: rmtfs_iovec_def)
  then show ?thesis using assms(3) h by (simp add: handle_rmtfs_def qrtr_decode_def)
qed



end
