(* ===== verification/Rmtfs_Run.thy ===== *)
theory Rmtfs_Run
  imports Rmtfs C_Lib
begin

text \<open>
  Start-up, the event loop and the end of the remote file system daemon (\<open>main\<close>, \<open>run_rmtfs\<close> and the signal
  handler in \<open>qcom/rmtfs/rmtfs.c\<close>) together with the threads that start and stop the modem
  (\<open>qcom/rmtfs/rproc.c\<close>). The loop, the signals and the threads run concurrently: a schedule is a list of events.
\<close>

section \<open>The remote processor\<close>

text \<open>
  The driver directory: \<open>None\<close> when it cannot be opened, otherwise its entries; an entry that is a device
  with a \<open>remoteproc\<close> directory lists what is in that. For each name there: \<open>None\<close> when it cannot be
  opened, otherwise the descriptor of its \<open>state\<close> file, negative on failure.
\<close>

type_synonym rproc_dir = "(bytes \<times> int option) list"
type_synonym rproc_base = "(bytes \<times> rproc_dir option) list"

fun find_state :: "rproc_dir \<Rightarrow> int \<Rightarrow> int" where
  "find_state [] rproc_state_fd = rproc_state_fd"
| "find_state ((d_name, s) # des) rproc_state_fd =
    (if rproc_state_fd \<ge> 0 then rproc_state_fd
     else if dots d_name then find_state des rproc_state_fd
     else (case s of None \<Rightarrow> find_state des rproc_state_fd | Some fd \<Rightarrow> find_state des fd))"

fun find_device :: "rproc_base \<Rightarrow> int \<Rightarrow> int" where
  "find_device [] rproc_state_fd = rproc_state_fd"
| "find_device ((d_name, dev) # des) rproc_state_fd =
    (if rproc_state_fd \<ge> 0 then rproc_state_fd
     else if dots d_name then find_device des rproc_state_fd
     else (case dev of
         None \<Rightarrow> find_device des rproc_state_fd
       | Some rproc \<Rightarrow> find_device des (find_state rproc rproc_state_fd)))"

text \<open>\<open>pipe_fd\<close> is the reading end of the pipe, or \<open>None\<close> when it cannot be made.\<close>

definition rproc_init :: "rproc_base option \<Rightarrow> int option \<Rightarrow> int" where
  "rproc_init base pipe_fd = (case base of
     None \<Rightarrow> -1
   | Some des \<Rightarrow> if find_device des (-1) < 0 then -1 else (case pipe_fd of None \<Rightarrow> -1 | Some fd \<Rightarrow> fd))"

section \<open>State\<close>

text \<open>Where the loop is: before the check of the signals, in \<open>select\<close>, left, or in undefined behaviour or ended.\<close>

datatype run_pc = Check_Signals | Selecting | Left_Loop | Undefined | Exited

text \<open>
  The threads are counted by what they still have to do: write \<open>start\<close>, write \<open>stop\<close>, or report to the
  pipe. \<open>state_file\<close> are the calls that write to the state file, the first one first, and \<open>run_sent\<close> the replies.
\<close>

record rmtfs_run =
  run_pc :: run_pc
  rprocfd :: int
  sig_int_count :: nat
  sig_int_handled :: bool
  starting :: nat
  stopping :: nat
  reporting :: nat
  rproc_pipe :: bytes
  state_file :: "bytes list"
  run_ret :: int
  run_rs :: rmtfs
  run_sent :: "(u32 \<times> u32 \<times> bytes) list"

section \<open>Threads and signals\<close>

definition rproc_start :: "bool \<Rightarrow> rmtfs_run \<Rightarrow> rmtfs_run" where
  "rproc_start created s = (if created then s\<lparr>starting := starting s + 1\<rparr> else s)"

definition rproc_stop :: "bool \<Rightarrow> rmtfs_run \<Rightarrow> rmtfs_run" where
  "rproc_stop created s = (if created then s\<lparr>stopping := stopping s + 1\<rparr> else s)"

definition do_rproc_start :: "rmtfs_run \<Rightarrow> rmtfs_run" where
  "do_rproc_start s = s\<lparr>starting := starting s - 1, state_file := state_file s @ [str ''start'']\<rparr>"

text \<open>The two system calls of \<open>do_rproc_stop\<close>; the process ends when the second one fails.\<close>

definition do_rproc_stop :: "rmtfs_run \<Rightarrow> rmtfs_run" where
  "do_rproc_stop s = s\<lparr>stopping := stopping s - 1, reporting := reporting s + 1, state_file := state_file s @ [str ''stop'']\<rparr>"

definition do_rproc_report :: "bool \<Rightarrow> rmtfs_run \<Rightarrow> rmtfs_run" where
  "do_rproc_report written s = (let s = s\<lparr>reporting := reporting s - 1\<rparr> in
     if written then s\<lparr>rproc_pipe := rproc_pipe s @ str ''Y''\<rparr> else s\<lparr>run_pc := Exited\<rparr>)"

definition sig_int_handler :: "rmtfs_run \<Rightarrow> rmtfs_run" where
  "sig_int_handler s = s\<lparr>sig_int_count := sig_int_count s + 1\<rparr>"

section \<open>The loop\<close>

text \<open>What is in front of the loop; \<open>sys\<close> answers the system calls.\<close>

definition run_begin :: "qrtr_sys \<Rightarrow> bool \<Rightarrow> rmtfs_run \<Rightarrow> rmtfs_run" where
  "run_begin sys created s = (let rmtfs_fd = fst (qrtr_open sys RMTFS_QMI_SERVICE) in
     if rmtfs_fd < 0 then s\<lparr>run_ret := rmtfs_fd, run_pc := Left_Loop\<rparr>
     else let ret = fst (qrtr_publish sys rmtfs_fd RMTFS_QMI_SERVICE RMTFS_QMI_VERSION RMTFS_QMI_INSTANCE) in
       if ret < 0 then s\<lparr>run_ret := ret, run_pc := Left_Loop\<rparr>
       else (if rprocfd s \<ge> 0 then rproc_start created s else s)
         \<lparr>run_ret := ret, run_pc := Check_Signals, sig_int_handled := False\<rparr>)"

definition check_signals :: "bool \<Rightarrow> rmtfs_run \<Rightarrow> rmtfs_run" where
  "check_signals created s =
    (if rprocfd s \<ge> 0 \<and> sig_int_count s = 1 \<and> \<not> sig_int_handled s then
       (rproc_stop created s)\<lparr>sig_int_handled := True, run_pc := Selecting\<rparr>
     else if sig_int_count s > 1 then s\<lparr>run_pc := Left_Loop\<rparr>
     else s\<lparr>run_pc := Selecting\<rparr>)"

text \<open>
  The answers of \<open>select\<close>: interrupted, another error, nothing on the socket, or a datagram (or an error
  of \<open>recvfrom\<close>) with what the receive buffer and the packet structure held before.
\<close>

datatype answer = Interrupted | Select_Error | is_quiet: Quiet | Packet rmtfs_env "int + bytes \<times> sockaddr_qrtr" bytes qrtr_packet

definition read_pipe :: "rmtfs_run \<Rightarrow> bool \<times> rmtfs_run" where
  "read_pipe s = (case rproc_pipe s of
     [] \<Rightarrow> (False, s)
   | done # rest \<Rightarrow> (done = 89, s\<lparr>rproc_pipe := rest, run_ret := 1\<rparr>))"

definition serve :: "answer \<Rightarrow> rmtfs_run \<Rightarrow> rmtfs_run" where
  "serve a s = (case a of
     Packet env recv tail pkt \<Rightarrow> (case handle_rmtfs env recv tail pkt (run_rs s) of
         Ok (ret, sent, rs) \<Rightarrow>
           s\<lparr>run_ret := ret, run_rs := rs, run_sent := run_sent s @ (case sent of None \<Rightarrow> [] | Some m \<Rightarrow> [m]),
             run_pc := (if ret = - ENETRESET then Left_Loop else Check_Signals)\<rparr>
       | _ \<Rightarrow> s\<lparr>run_pc := Undefined\<rparr>)
   | _ \<Rightarrow> s\<lparr>run_pc := Check_Signals\<rparr>)"

text \<open>\<open>select\<close> and what follows it. When neither the socket nor the pipe has anything, it blocks.\<close>

definition select_round :: "answer \<Rightarrow> rmtfs_run \<Rightarrow> rmtfs_run" where
  "select_round a s = (case a of
     Interrupted \<Rightarrow> s\<lparr>run_ret := -1, run_pc := Check_Signals\<rparr>
   | Select_Error \<Rightarrow> s\<lparr>run_ret := -1, run_pc := Left_Loop\<rparr>
   | _ \<Rightarrow>
     (let ready = (rprocfd s \<ge> 0 \<and> rproc_pipe s \<noteq> []) in
      if is_quiet a \<and> \<not> ready then s
      else case (if ready then read_pipe s else (False, s)) of (fin, s) \<Rightarrow>
        if fin then s\<lparr>run_pc := Left_Loop\<rparr> else serve a s))"

section \<open>Start-up\<close>

datatype rmtfs_option = Opt_o bytes | Opt_P | Opt_r | Opt_s | Opt_v | Opt_unknown

record rmtfs_opts =
  storage_root :: "bytes option"
  use_partitions :: bool
  read_only :: bool
  opt_rprocfd :: int

text \<open>The options; \<open>None\<close> is the return value 1.\<close>

fun parse_options :: "rproc_base option \<Rightarrow> int option \<Rightarrow> rmtfs_option list \<Rightarrow> rmtfs_opts \<Rightarrow> rmtfs_opts option" where
  "parse_options base pipe_fd [] os = Some os"
| "parse_options base pipe_fd (x # xs) os = (case x of
     Opt_o dir \<Rightarrow> parse_options base pipe_fd xs (os\<lparr>storage_root := Some dir\<rparr>)
   | Opt_P \<Rightarrow> parse_options base pipe_fd xs (os\<lparr>use_partitions := True\<rparr>)
   | Opt_r \<Rightarrow> parse_options base pipe_fd xs (os\<lparr>read_only := True\<rparr>)
   | Opt_s \<Rightarrow> (let fd = rproc_init base pipe_fd in
       if fd < 0 then None else parse_options base pipe_fd xs (os\<lparr>opt_rprocfd := fd\<rparr>))
   | Opt_v \<Rightarrow> parse_options base pipe_fd xs os
   | Opt_unknown \<Rightarrow> None)"

text \<open>The variables when the loop of \<open>main\<close> is entered; it starts as after a reset of the network.\<close>

definition fresh_run :: "int \<Rightarrow> rmtfs \<Rightarrow> rmtfs_run" where
  "fresh_run fd rs = \<lparr>run_pc = Left_Loop, rprocfd = fd, sig_int_count = 0, sig_int_handled = False, starting = 0, stopping = 0,
     reporting = 0, rproc_pipe = [], state_file = [], run_ret = - ENETRESET, run_rs = rs, run_sent = []\<rparr>"

definition rmtfs_start :: "rproc_base option \<Rightarrow> int option \<Rightarrow> mem_env \<Rightarrow> bytes \<Rightarrow> disk \<Rightarrow> rmtfs_option list \<Rightarrow>
    rmtfs_run option" where
  "rmtfs_start base pipe_fd menv device d xs =
    (case parse_options base pipe_fd xs
        \<lparr>storage_root = None, use_partitions = False, read_only = False, opt_rprocfd = -1\<rparr> of
       None \<Rightarrow> None
     | Some os \<Rightarrow> (case rmtfs_mem_open menv device of
         None \<Rightarrow> None
       | Some rmem \<Rightarrow> Some (fresh_run (opt_rprocfd os)
           \<lparr>rs_storage = storage_init static_storage (storage_root os) (read_only os) (use_partitions os), rs_disk = d, rs_mem = rmem\<rparr>)))"

text \<open>The loop of \<open>main\<close>: run again after a reset of the network, or clean up.\<close>

definition main_next :: "qrtr_sys \<Rightarrow> bool \<Rightarrow> rmtfs_run \<Rightarrow> rmtfs_run" where
  "main_next sys created s =
    (if run_ret s = - ENETRESET then run_begin sys created s
     else s\<lparr>run_pc := Exited, run_rs := (run_rs s)\<lparr>rs_disk := storage_exit (rs_storage (run_rs s)) (rs_disk (run_rs s))\<rparr>\<rparr>)"

section \<open>Schedules\<close>

text \<open>
  An event is a step of the loop, of a thread or of the kernel. An event that is not possible in the
  current state does nothing.
\<close>

datatype run_event = Signal | Main qrtr_sys bool | Check bool | Select answer | Do_Start | Do_Stop | Do_Report bool

fun run_step :: "run_event \<Rightarrow> rmtfs_run \<Rightarrow> rmtfs_run" where
  "run_step Signal s = (if run_pc s = Exited then s else sig_int_handler s)"
| "run_step (Main sys created) s = (if run_pc s = Left_Loop then main_next sys created s else s)"
| "run_step (Check created) s = (if run_pc s = Check_Signals then check_signals created s else s)"
| "run_step (Select a) s = (if run_pc s = Selecting then select_round a s else s)"
| "run_step Do_Start s = (if run_pc s \<noteq> Exited \<and> starting s > 0 then do_rproc_start s else s)"
| "run_step Do_Stop s = (if run_pc s \<noteq> Exited \<and> stopping s > 0 then do_rproc_stop s else s)"
| "run_step (Do_Report written) s = (if run_pc s \<noteq> Exited \<and> reporting s > 0 then do_rproc_report written s else s)"

inductive reached :: "rmtfs_run \<Rightarrow> rmtfs_run \<Rightarrow> bool" for s0 where
  reached_start: "reached s0 s0"
| reached_step: "reached s0 s \<Longrightarrow> reached s0 (run_step e s)"

lemmas run_defs = main_next_def run_begin_def check_signals_def select_round_def serve_def read_pipe_def rproc_start_def
  rproc_stop_def do_rproc_start_def do_rproc_stop_def do_rproc_report_def sig_int_handler_def

section \<open>Safety\<close>

definition run_inv :: "rmtfs_run \<Rightarrow> bool" where
  "run_inv s \<longleftrightarrow> set (rproc_pipe s) \<subseteq> {89} \<and> set (state_file s) \<subseteq> {str ''start'', str ''stop''} \<and>
     (rproc_pipe s \<noteq> [] \<or> reporting s > 0 \<longrightarrow> str ''stop'' \<in> set (state_file s)) \<and>
     (stopping s > 0 \<or> str ''stop'' \<in> set (state_file s) \<longrightarrow> sig_int_count s \<ge> 1 \<and> rprocfd s \<ge> 0) \<and>
     (rprocfd s < 0 \<longrightarrow> state_file s = [] \<and> starting s = 0) \<and>
     ((run_pc s = Left_Loop \<or> run_pc s = Exited) \<and> sig_int_count s \<le> 1 \<and> run_ret s \<ge> 0 \<longrightarrow> str ''stop'' \<in> set (state_file s))"

lemma str_simps [simp]: "str ''Y'' = [89]" "str ''start'' \<noteq> str ''stop''" "str ''stop'' \<noteq> str ''start''"
  by (simp_all add: str_def of_char_def)

lemma run_inv_select: "run_inv s \<Longrightarrow> run_inv (select_round a s)"
  by (cases a; cases "rproc_pipe s")
    (simp_all add: run_inv_def select_round_def serve_def read_pipe_def Let_def split: cres.splits prod.splits)

lemma run_inv_main: "run_inv s \<Longrightarrow> run_pc s = Left_Loop \<Longrightarrow> run_inv (main_next sys created s)"
  by (auto simp: run_inv_def main_next_def run_begin_def rproc_start_def Let_def)

lemma run_inv_threads:
  "run_inv s \<Longrightarrow> run_inv (sig_int_handler s)"
  "run_inv s \<Longrightarrow> run_inv (check_signals created s)"
  "run_inv s \<Longrightarrow> starting s > 0 \<Longrightarrow> run_inv (do_rproc_start s)"
  "run_inv s \<Longrightarrow> stopping s > 0 \<Longrightarrow> run_inv (do_rproc_stop s)"
  "run_inv s \<Longrightarrow> reporting s > 0 \<Longrightarrow> run_inv (do_rproc_report written s)"
  by (simp_all add: run_inv_def run_defs Let_def)

lemma run_inv_step: "run_inv s \<Longrightarrow> run_inv (run_step e s)"
  by (cases e) (simp_all add: run_inv_select run_inv_main run_inv_threads)

lemma run_inv_reached: "reached s0 s \<Longrightarrow> run_inv s0 \<Longrightarrow> run_inv s"
  by (induction rule: reached.induct) (auto intro: run_inv_step)

lemma run_inv_start: "rmtfs_start base pipe_fd menv device d xs = Some s0 \<Longrightarrow> run_inv s0"
  by (auto simp: rmtfs_start_def fresh_run_def run_inv_def split: option.splits)

lemma start_fresh:
  assumes "rmtfs_start base pipe_fd menv device d xs = Some s0"
  obtains rs where "s0 = fresh_run (rprocfd s0) rs"
  using assms by (auto simp: rmtfs_start_def fresh_run_def split: option.splits)

text \<open>
  C8: the modem and its storage are taken down in order. In every state the daemon can reach, whatever the
  schedule of the loop, the threads and the signals: nothing but \<open>start\<close> and \<open>stop\<close> is written to the state
  file, and nothing at all without the option \<open>-s\<close>; \<open>stop\<close> is written only after a signal; and when the service
  has ended without an error after at most one signal, the modem had been told to stop before.
\<close>

theorem run_graceful:
  assumes "rmtfs_start base pipe_fd menv device d xs = Some s0" "reached s0 s"
  shows "set (state_file s) \<subseteq> {str ''start'', str ''stop''} \<and> (rprocfd s < 0 \<longrightarrow> state_file s = []) \<and>
    (str ''stop'' \<in> set (state_file s) \<longrightarrow> sig_int_count s \<ge> 1 \<and> rprocfd s \<ge> 0) \<and>
    ((run_pc s = Left_Loop \<or> run_pc s = Exited) \<and> sig_int_count s \<le> 1 \<and> run_ret s \<ge> 0 \<longrightarrow> str ''stop'' \<in> set (state_file s))"
  using run_inv_reached [OF assms(2) run_inv_start [OF assms(1)]] by (simp add: run_inv_def)

section \<open>Liveness\<close>

text \<open>The schedule gives the turns \<open>ps\<close> in this order, with any other events in between.\<close>

fun visits :: "(run_event \<Rightarrow> bool) list \<Rightarrow> run_event list \<Rightarrow> bool" where
  "visits [] es = True"
| "visits (p # ps) [] = False"
| "visits (p # ps) (e # es) = (if p e then visits ps es else visits (p # ps) es)"

lemma visits_tl: "visits (p # ps) es \<Longrightarrow> visits ps es"
proof (induction es arbitrary: p ps)
  case (Cons e es)
  then show ?case by (cases ps) (auto split: if_splits)
qed simp

lemma visits_drop: "visits ps es \<Longrightarrow> visits (drop n ps) es"
proof (induction n arbitrary: ps)
  case (Suc n)
  then show ?case by (cases ps) (auto dest: visits_tl)
qed simp

definition is_check :: "run_event \<Rightarrow> bool" where "is_check e = (case e of Check c \<Rightarrow> True | _ \<Rightarrow> False)"
definition is_select :: "run_event \<Rightarrow> bool" where "is_select e = (case e of Select a \<Rightarrow> True | _ \<Rightarrow> False)"
definition is_stop :: "run_event \<Rightarrow> bool" where "is_stop e = (case e of Do_Stop \<Rightarrow> True | _ \<Rightarrow> False)"
definition is_report :: "run_event \<Rightarrow> bool" where "is_report e = (case e of Do_Report w \<Rightarrow> True | _ \<Rightarrow> False)"

definition turns :: "(run_event \<Rightarrow> bool) list" where
  "turns = [is_check, is_stop, is_report, is_check, is_select]"

lemma length_turns [simp]: "length turns = 5"
  by (simp add: turns_def)

text \<open>No further signal, and no failure of a system call or of the creation of the thread.\<close>

definition undisturbed :: "run_event \<Rightarrow> bool" where
  "undisturbed e = (case e of Signal \<Rightarrow> False | Main sys created \<Rightarrow> False | Check created \<Rightarrow> created
     | Select a \<Rightarrow> (case a of Interrupted \<Rightarrow> False | Select_Error \<Rightarrow> False | _ \<Rightarrow> True)
     | Do_Report written \<Rightarrow> written | _ \<Rightarrow> True)"

text \<open>How many of the turns are still needed.\<close>

definition running :: "rmtfs_run \<Rightarrow> bool" where
  "running s \<longleftrightarrow> run_pc s = Check_Signals \<or> run_pc s = Selecting"

definition need :: "rmtfs_run \<Rightarrow> nat" where
  "need s = (if \<not> running s then 0 else if \<not> sig_int_handled s then 5
     else if rproc_pipe s \<noteq> [] then (if run_pc s = Selecting then 1 else 2)
     else if reporting s > 0 then 3 else 4)"

definition winding_down :: "rmtfs_run \<Rightarrow> bool" where
  "winding_down s \<longleftrightarrow> rprocfd s \<ge> 0 \<and> sig_int_count s = 1 \<and> set (rproc_pipe s) \<subseteq> {89} \<and>
     (running s \<longrightarrow> (if sig_int_handled s then rproc_pipe s \<noteq> [] \<or> reporting s > 0 \<or> stopping s > 0
       else run_pc s = Check_Signals))"

lemma need_le: "need s \<le> 5"
  by (simp add: need_def)

lemma serve_frame:
  "rprocfd (serve a s) = rprocfd s \<and> sig_int_count (serve a s) = sig_int_count s \<and> rproc_pipe (serve a s) = rproc_pipe s \<and>
    sig_int_handled (serve a s) = sig_int_handled s \<and> reporting (serve a s) = reporting s \<and> stopping (serve a s) = stopping s \<and>
    state_file (serve a s) = state_file s"
  by (simp add: serve_def split: answer.splits cres.splits prod.splits)

lemma winding_select:
  assumes "winding_down s" "undisturbed (Select a)" "run_pc s = Selecting"
  shows "winding_down (select_round a s) \<and> need (select_round a s) \<le> need s \<and> (need s = 1 \<longrightarrow> need (select_round a s) = 0)"
proof (cases "rproc_pipe s")
  case Nil
  show ?thesis
  proof (cases a)
    case (Packet env recv tail pkt)
    then have "select_round a s = serve a s" using Nil by (simp add: select_round_def)
    then show ?thesis using assms(1,3) Nil serve_frame [of a s] by (auto simp: winding_down_def need_def running_def split: if_splits)
  qed (use assms Nil in \<open>simp_all add: undisturbed_def select_round_def need_def running_def\<close>)
next
  case (Cons b bs)
  then have "b = 89" "rprocfd s \<ge> 0" using assms(1) by (auto simp: winding_down_def)
  then have "select_round a s = s\<lparr>rproc_pipe := bs, run_ret := 1, run_pc := Left_Loop\<rparr>"
    using assms(2) Cons by (cases a) (simp_all add: undisturbed_def select_round_def read_pipe_def)
  then show ?thesis using assms(1) Cons by (simp add: winding_down_def need_def running_def)
qed

lemma need_step:
  assumes "winding_down s" "undisturbed e"
  shows "winding_down (run_step e s) \<and> need (run_step e s) \<le> need s \<and>
    (0 < need s \<and> (turns ! (5 - need s)) e \<longrightarrow> need (run_step e s) < need s)"
proof -
  have t: "(turns ! (5 - need s)) e \<longrightarrow>
      (case e of Check c \<Rightarrow> need s = 5 \<or> need s = 2 | Do_Stop \<Rightarrow> need s = 4 | Do_Report w \<Rightarrow> need s = 3 | Select a \<Rightarrow> need s = 1 | _ \<Rightarrow> False)"
    if pos: "0 < need s"
  proof -
    consider "need s = 1" | "need s = 2" | "need s = 3" | "need s = 4" | "need s = 5" using pos need_le [of s] by linarith
    then show ?thesis
      by cases (cases e; simp add: turns_def is_check_def is_stop_def is_report_def is_select_def)+
  qed
  note d = winding_down_def need_def running_def undisturbed_def
  show ?thesis
  proof (cases e)
    case (Select a)
    moreover have "need s = 1 \<Longrightarrow> run_pc s = Selecting" by (auto simp: need_def running_def split: if_splits)
    ultimately show ?thesis using assms winding_select [of s a] t by (cases "run_pc s = Selecting") auto
  next
    case (Check c)
    then have "run_step e s = (if run_pc s = Check_Signals then check_signals True s else s)" using assms(2) by (simp add: undisturbed_def)
    moreover have "winding_down (check_signals True s) \<and> need (check_signals True s) \<le> need s \<and>
        (need s = 5 \<or> need s = 2 \<longrightarrow> need (check_signals True s) < need s)" if "run_pc s = Check_Signals"
      using that assms(1) by (cases "sig_int_handled s") (auto simp: check_signals_def rproc_stop_def d)
    moreover have "need s = 5 \<or> need s = 2 \<Longrightarrow> run_pc s = Check_Signals" using assms(1) by (auto simp: d split: if_splits)
    ultimately show ?thesis using t Check assms(1) by auto
  next
    case (Do_Report w)
    then have r: "run_step e s = (if run_pc s \<noteq> Exited \<and> reporting s > 0 then do_rproc_report True s else s)"
      using assms(2) by (simp add: undisturbed_def)
    have "winding_down (do_rproc_report True s) \<and> need (do_rproc_report True s) \<le> need s \<and>
        (need s = 3 \<longrightarrow> need (do_rproc_report True s) < 3)" if "reporting s > 0"
      using that assms(1) by (cases "sig_int_handled s"; cases "rproc_pipe s") (auto simp: do_rproc_report_def Let_def d)
    then show ?thesis using t Do_Report assms(1) r by (auto simp: need_def running_def)
  next
    case Do_Stop
    then have r: "run_step e s = (if run_pc s \<noteq> Exited \<and> stopping s > 0 then do_rproc_stop s else s)" by simp
    have "winding_down (do_rproc_stop s) \<and> need (do_rproc_stop s) \<le> need s \<and> (need s = 4 \<longrightarrow> need (do_rproc_stop s) < 4)"
      using assms(1) by (cases "sig_int_handled s"; cases "rproc_pipe s") (auto simp: do_rproc_stop_def d)
    moreover have "run_step e s = do_rproc_stop s \<or> run_step e s = s \<and> need s \<noteq> 4" unfolding r using assms(1)
      by (auto simp: d split: if_splits)
    moreover have "0 < need s \<and> (turns ! (5 - need s)) e \<longrightarrow> need s = 4" using t Do_Stop by auto
    ultimately show ?thesis using assms(1) by (elim disjE) (metis, metis order_refl)
  next
    case Do_Start
    then have "\<not> (0 < need s \<and> (turns ! (5 - need s)) e)" using t by auto
    moreover have "winding_down (do_rproc_start s)" "need (do_rproc_start s) = need s"
      using assms(1) by (auto simp: do_rproc_start_def d)
    ultimately show ?thesis using Do_Start assms(1) by simp
  qed (use assms(2) in \<open>simp_all add: undisturbed_def\<close>)
qed

lemma need_fold:
  "winding_down s \<Longrightarrow> list_all undisturbed es \<Longrightarrow> visits (drop (5 - need s) turns) es \<Longrightarrow> need (fold run_step es s) = 0"
proof (induction es arbitrary: s)
  case Nil
  then show ?case using need_le [of s] by (cases "drop (5 - need s) turns") auto
next
  case (Cons e es)
  let ?s = "run_step e s"
  note n = need_step [OF Cons.prems(1), of e]
  have "visits (drop (5 - need ?s) turns) es"
  proof (cases "need s = 0")
    case False
    then have d: "drop (5 - need s) turns = turns ! (5 - need s) # drop (Suc (5 - need s)) turns"
      using need_le [of s] by (intro Cons_nth_drop_Suc [symmetric]) auto
    show ?thesis
    proof (cases "(turns ! (5 - need s)) e")
      case True
      then have "visits (drop (Suc (5 - need s)) turns) es" using Cons.prems(3) unfolding d by simp
      from visits_drop [OF this, of "4 - need ?s - (5 - need s)"]
      have "visits (drop (4 - need ?s - (5 - need s) + Suc (5 - need s)) turns) es"
        by (simp only: drop_drop)
      moreover have "need ?s < need s" using n True False Cons.prems(2) by simp
      then have "4 - need ?s - (5 - need s) + Suc (5 - need s) = 5 - need ?s" using need_le [of s] by simp
      ultimately show ?thesis by (simp only:)
    next
      case noturn: False
      then have "visits (drop (5 - need s) turns) es" using Cons.prems(3) unfolding d by simp
      from visits_drop [OF this, of "need s - need ?s"] have "visits (drop (need s - need ?s + (5 - need s)) turns) es" by (simp only: drop_drop)
      moreover have "need s - need ?s + (5 - need s) = 5 - need ?s" using n Cons.prems(2) need_le [of s] by simp
      ultimately show ?thesis by (simp only:)
    qed
  qed (use n Cons.prems(2) in simp)
  then show ?case using Cons.IH [of ?s] n Cons.prems(2) by simp
qed

definition is_packet :: "run_event \<Rightarrow> bool" where
  "is_packet e = (case e of Select a \<Rightarrow> (case a of Packet env recv tail pkt \<Rightarrow> True | _ \<Rightarrow> False) | _ \<Rightarrow> False)"

lemma not_exited: "undisturbed e \<Longrightarrow> run_pc s \<noteq> Exited \<Longrightarrow> run_pc (run_step e s) \<noteq> Exited"
  by (cases e) (auto simp: undisturbed_def run_defs Let_def split: answer.splits list.splits cres.splits prod.splits)

definition orderly :: "rmtfs_run \<Rightarrow> bool" where
  "orderly s \<longleftrightarrow> run_pc s \<noteq> Undefined \<and> (run_pc s = Left_Loop \<longrightarrow> run_ret s = 1)"

lemma orderly_step:
  assumes "undisturbed e" "\<not> is_packet e" "orderly s" "winding_down s"
  shows "orderly (run_step e s)"
proof (cases e)
  case (Select a)
  then have "a = Quiet" using assms(1,2) by (cases a) (auto simp: undisturbed_def is_packet_def)
  then show ?thesis using Select assms(3,4)
    by (cases "rproc_pipe s") (auto simp: orderly_def winding_down_def select_round_def read_pipe_def)
next
  case (Check c)
  then show ?thesis using assms(3,4) by (auto simp: orderly_def winding_down_def check_signals_def rproc_stop_def)
qed (use assms(1,3) in \<open>auto simp: orderly_def undisturbed_def do_rproc_start_def do_rproc_stop_def do_rproc_report_def Let_def\<close>)

lemma fold_orderly:
  "list_all undisturbed es \<Longrightarrow> list_all (\<lambda>e. \<not> is_packet e) es \<Longrightarrow> orderly s \<Longrightarrow> winding_down s \<Longrightarrow> orderly (fold run_step es s)"
  by (induction es arbitrary: s) (auto simp: orderly_step need_step)

lemma fold_not_exited: "list_all undisturbed es \<Longrightarrow> run_pc s \<noteq> Exited \<Longrightarrow> run_pc (fold run_step es s) \<noteq> Exited"
  by (induction es arbitrary: s) (auto simp: not_exited)

lemma reached_fold: "reached s0 s \<Longrightarrow> reached s0 (fold run_step es s)"
  by (induction es arbitrary: s) (auto intro: reached_step)

lemma winding_fold: "list_all undisturbed es \<Longrightarrow> winding_down s \<Longrightarrow> winding_down (fold run_step es s)"
  by (induction es arbitrary: s) (auto simp: need_step)


text \<open>A start with the option \<open>-s\<close>, for the examples.\<close>

definition demo_sys :: qrtr_sys where
  "demo_sys = \<lparr>sys_socket = 3, sys_setsockopt = (\<lambda>_. 0), sys_bind = (\<lambda>_ _. 0),
     sys_getsockname = (\<lambda>_. (0, \<lparr>sq_family = AF_QIPCRTR, sq_node = 1, sq_port = 14\<rparr>, 12)), sys_sendto = (\<lambda>_ _ bs. int (length bs)),
     sys_recvfrom = (\<lambda>_ _. (-1, [], \<lparr>sq_family = 0, sq_node = 0, sq_port = 0\<rparr>)), sys_poll = (\<lambda>_ _. 0)\<rparr>"

definition demo_menv :: mem_env where
  "demo_menv = \<lparr>env_device = None, env_phys_addr = Inr (str ''0x1000''), env_size = Inr (str ''0x400''), env_reserved = None,
     env_devmem = None, env_mmap = None\<rparr>"

definition demo_base :: rproc_base where
  "demo_base = [(str ''.'', None), (str ''mss'', Some [(str ''remoteproc0'', Some 7)])]"

definition demo_start :: "rmtfs_run option" where
  "demo_start = rmtfs_start (Some demo_base) (Some 9) demo_menv [] demo_disk [Opt_s]"

lemma demo_started:
  obtains rs where "demo_start = Some (fresh_run 9 rs)"
proof -
  have b: "rproc_init (Some demo_base) (Some 9) = 9" by code_simp
  have "rmtfs_mem_open demo_menv [] \<noteq> None"
    by (simp add: rmtfs_mem_open_def rmtfs_mem_open_rfsa_def read_attr_def strtoull16_def demo_menv_def str_def of_char_def
        hex_digit_def isdigit_def isspace_def)
  then obtain rmem where "rmtfs_mem_open demo_menv [] = Some rmem" by blast
  then show ?thesis using that b by (simp add: demo_start_def rmtfs_start_def)
qed

lemma demo_published: "fst (qrtr_open demo_sys 14) = 3" "fst (qrtr_publish demo_sys 3 14 1 0) = 0"
  by (simp_all add: qrtr_open_def qrtr_publish_def qrtr_new_server_def qrtr_getname_def qrtr_sendto_def demo_sys_def AF_QIPCRTR_def)

theorem run_graceful_witness:
  "\<exists>s0 s. demo_start = Some s0 \<and> reached s0 s \<and> run_pc s = Exited \<and> sig_int_count s = 1 \<and> str ''stop'' \<in> set (state_file s)"
proof -
  obtain rs where s0: "demo_start = Some (fresh_run 9 rs)" by (rule demo_started)
  let ?init = "fresh_run 9 rs"
  let ?es = "[Main demo_sys True, Do_Start, Signal, Check True, Do_Stop, Do_Report True, Select Quiet, Main demo_sys True]"
  have r: "reached ?init (fold run_step ?es ?init)" by (intro reached_fold reached_start)
  have f: "run_pc (fold run_step ?es ?init) = Exited" "sig_int_count (fold run_step ?es ?init) = 1" "run_ret (fold run_step ?es ?init) = 1"
    unfolding fold_simps by (simp_all add: demo_published run_defs fresh_run_def)
  have "str ''stop'' \<in> set (state_file (fold run_step ?es ?init))"
    using run_graceful [OF s0 [unfolded demo_start_def] r] unfolding f by (simp del: run_step.simps fold_simps)
  with s0 r f(1,2) show ?thesis by blast
qed


section \<open>Races\<close>

text \<open>The events while nobody sends anything and no thread is stopping the modem.\<close>

definition idle :: "run_event \<Rightarrow> bool" where
  "idle e = (case e of Select a \<Rightarrow> is_quiet a | _ \<Rightarrow> True)"

lemma idle_step:
  assumes "idle e" "run_pc s = Selecting" "rproc_pipe s = []" "stopping s = 0" "reporting s = 0"
  shows "run_pc (run_step e s) = Selecting" "rproc_pipe (run_step e s) = []" "stopping (run_step e s) = 0" "reporting (run_step e s) = 0"
  using assms by (cases e; auto simp: idle_def select_round_def do_rproc_start_def sig_int_handler_def split: answer.splits)+

lemma idle_fold:
  "list_all idle es \<Longrightarrow> run_pc s = Selecting \<Longrightarrow> rproc_pipe s = [] \<Longrightarrow> stopping s = 0 \<Longrightarrow> reporting s = 0 \<Longrightarrow>
    run_pc (fold run_step es s) = Selecting"
  by (induction es arbitrary: s) (simp_all add: idle_step)

text \<open>
  C33: what the shutdown does not guarantee. A signal that arrives after the check and before \<open>select\<close> is not
  noticed: as long as the network is quiet, the loop waits, whatever the threads do and however many signals
  follow, unless one of them interrupts \<open>select\<close>. And the modem can be told to stop before it is told to
  start, because the two threads are not ordered: the daemon ends with \<open>start\<close> as the last word.
\<close>

theorem shutdown_races:
  assumes "rmtfs_start base pipe_fd menv device d xs = Some s0" "rprocfd s0 \<ge> 0" "fst (qrtr_open sys 14) = fd" "fd \<ge> 0"
    "fst (qrtr_publish sys fd 14 1 0) \<ge> 0"
  shows "(\<exists>s. reached s0 s \<and> run_pc s = Selecting \<and> sig_int_count s = 1 \<and>
      (\<forall>es. list_all idle es \<longrightarrow> run_pc (fold run_step es s) = Selecting)) \<and>
    (\<exists>s. reached s0 s \<and> run_pc s = Exited \<and> run_ret s = 1 \<and> state_file s = [str ''stop'', str ''start''])"
proof -
  obtain rs where s0: "s0 = fresh_run (rprocfd s0) rs" by (rule start_fresh [OF assms(1)])
  let ?s = "fold run_step [Main sys True, Check True, Signal] s0"
  have "reached s0 ?s" by (intro reached_fold reached_start)
  moreover have f: "run_pc ?s = Selecting" "sig_int_count ?s = 1" "rproc_pipe ?s = []" "stopping ?s = 0" "reporting ?s = 0"
    using assms(2-5) by (subst s0, simp add: run_defs fresh_run_def)+
  moreover have "\<forall>es. list_all idle es \<longrightarrow> run_pc (fold run_step es ?s) = Selecting"
    using idle_fold [OF _ f(1,3-5)] by blast
  ultimately have "\<exists>s. reached s0 s \<and> run_pc s = Selecting \<and> sig_int_count s = 1 \<and>
      (\<forall>es. list_all idle es \<longrightarrow> run_pc (fold run_step es s) = Selecting)" by blast
  moreover have "\<exists>s. reached s0 s \<and> run_pc s = Exited \<and> run_ret s = 1 \<and> state_file s = [str ''stop'', str ''start'']"
  proof (intro exI conjI)
    let ?es = "[Main sys True, Signal, Check True, Do_Stop, Do_Report True, Select Quiet, Do_Start, Main sys True]"
    show "reached s0 (fold run_step ?es s0)" by (intro reached_fold reached_start)
    show "run_pc (fold run_step ?es s0) = Exited" "run_ret (fold run_step ?es s0) = 1"
      "state_file (fold run_step ?es s0) = [str ''stop'', str ''start'']"
      using assms(2-5) by (subst s0, simp add: run_defs fresh_run_def)+
  qed
  ultimately show ?thesis ..
qed

theorem shutdown_races_witness:
  "\<exists>s0 s. demo_start = Some s0 \<and> reached s0 s \<and> run_pc s = Exited \<and> state_file s = [str ''stop'', str ''start'']"
proof -
  obtain rs where s0: "demo_start = Some (fresh_run 9 rs)" by (rule demo_started)
  have p: "fst (qrtr_open demo_sys 14) = 3" "fst (qrtr_publish demo_sys 3 14 1 0) \<ge> 0" using demo_published by simp_all
  have "rprocfd (fresh_run 9 rs) \<ge> 0" by (simp add: fresh_run_def)
  from shutdown_races [OF s0 [unfolded demo_start_def] this p(1) _ p(2)] s0 show ?thesis by auto
qed

end
