(* ===== verification/Rmtfs_Util.thy ===== *)
theory Rmtfs_Util
  imports C_Lib
begin

text \<open>
  The hexadecimal dump of \<open>qcom/rmtfs/util.c\<close>: every character goes through a buffer of 65 bytes. The result
  is the list of the printed lines, each with the offset that stands in front of it.
\<close>

section \<open>The code\<close>

definition to_hex :: "u8 \<Rightarrow> u8" where
  "to_hex ch = (let ch = ch AND 0xf in if ch \<le> 9 then 48 + ch else 97 + ch - 10)"

definition isprint :: "u8 \<Rightarrow> bool" where
  "isprint ch \<longleftrightarrow> 32 \<le> ch \<and> ch < 127"

text \<open>\<open>line[li++] = c\<close> for a few characters.\<close>

definition put_chars :: "bytes \<Rightarrow> bytes \<times> nat \<Rightarrow> (bytes \<times> nat) cres" where
  "put_chars cs p = (case p of (line, li) \<Rightarrow> cbind (of_opt (wr line li cs)) (\<lambda>line. Ok (line, li + length cs)))"

fun dump_hex :: "bytes \<Rightarrow> bytes \<times> nat \<Rightarrow> (bytes \<times> nat) cres" where
  "dump_hex [] p = Ok p"
| "dump_hex (ch # chs) p = cbind (put_chars [to_hex (drop_bit 4 ch), to_hex ch, 32] p) (dump_hex chs)"

fun dump_pad :: "nat \<Rightarrow> bytes \<times> nat \<Rightarrow> (bytes \<times> nat) cres" where
  "dump_pad 0 p = Ok p"
| "dump_pad (Suc n) p = cbind (put_chars [32, 32, 32] p) (dump_pad n)"

fun dump_text :: "bytes \<Rightarrow> bytes \<times> nat \<Rightarrow> (bytes \<times> nat) cres" where
  "dump_text [] p = Ok p"
| "dump_text (ch # chs) p = cbind (put_chars [if isprint ch then ch else 46] p) (dump_text chs)"

text \<open>One line, for up to 16 bytes; the buffer is uninitialised the first time.\<close>

definition dump_line :: "bytes \<Rightarrow> bytes \<Rightarrow> bytes cres" where
  "dump_line chs line =
    cbind (dump_hex chs (line, 0)) (\<lambda>p.
    cbind (dump_pad (16 - length chs) p) (\<lambda>p.
    cbind (dump_text chs p) (\<lambda>p.
    cbind (put_chars [0] p) (\<lambda>(line, li). Ok line))))"

text \<open>\<open>i\<close> is an \<open>int\<close>.\<close>

function print_lines :: "bytes \<Rightarrow> nat \<Rightarrow> bytes \<Rightarrow> (nat \<times> bytes) list cres" where
  "print_lines buf i line = (if i < length buf then
     cbind (dump_line (take (min 16 (length buf - i)) (drop i buf)) line) (\<lambda>line.
       if i + 16 \<ge> 2 ^ 31 then UB
       else cbind (print_lines buf (i + 16) line) (\<lambda>ls. Ok ((i, cstr line) # ls)))
     else Ok [])"
  by pat_completeness auto

termination
  by (relation "measure (\<lambda>(buf, i, line). length buf - i)") auto

definition print_hex_dump :: "bytes \<Rightarrow> bytes \<Rightarrow> (nat \<times> bytes) list cres" where
  "print_hex_dump line buf = print_lines buf 0 line"

section \<open>The text of a line\<close>

definition hex_digits :: bytes where
  "hex_digits = str ''0123456789abcdef''"

definition hex_byte :: "u8 \<Rightarrow> bytes" where
  "hex_byte ch = [hex_digits ! (unat ch div 16), hex_digits ! (unat ch mod 16), 32]"

definition show_byte :: "u8 \<Rightarrow> u8" where
  "show_byte ch = (if isprint ch then ch else 46)"

definition line_text :: "bytes \<Rightarrow> bytes" where
  "line_text chs = concat (map hex_byte chs) @ replicate (3 * (16 - length chs)) 32 @ map show_byte chs"

fun chunks :: "nat \<Rightarrow> bytes \<Rightarrow> (nat \<times> bytes) list" where
  "chunks i [] = []"
| "chunks i (b # bs) = (i, line_text (take 16 (b # bs))) # chunks (i + 16) (drop 16 (b # bs))"

lemma nibble_digit:
  assumes "n < 16"
  shows "(let ch = of_nat n :: u8 in if ch \<le> 9 then 48 + ch else 97 + ch - 10) = hex_digits ! n"
proof -
  have "n = 0 \<or> n = 1 \<or> n = 2 \<or> n = 3 \<or> n = 4 \<or> n = 5 \<or> n = 6 \<or> n = 7 \<or> n = 8 \<or> n = 9 \<or> n = 10 \<or> n = 11 \<or>
    n = 12 \<or> n = 13 \<or> n = 14 \<or> n = 15" using assms by presburger
  then show ?thesis by (elim disjE) (simp_all add: hex_digits_def str_def of_char_def)
qed

lemma to_hex_digit: "to_hex ch = hex_digits ! (unat ch mod 16)"
proof -
  have "ch AND 0xf = take_bit 4 ch" by (simp add: take_bit_eq_mask mask_eq_exp_minus_1)
  moreover have "unat (take_bit 4 ch) = unat ch mod 16" by (simp add: unsigned_take_bit_eq take_bit_nat_def)
  ultimately have "ch AND 0xf = of_nat (unat ch mod 16)" by (metis of_nat_unat ucast_id)
  then show ?thesis using nibble_digit [of "unat ch mod 16"] by (simp add: to_hex_def)
qed

lemma high_nibble: "unat (ch :: u8) div 16 < 16" "unat (drop_bit 4 ch) = unat ch div 16"
proof -
  have "unat ch < 2 ^ LENGTH(8)" by (rule unsigned_less)
  then show "unat ch div 16 < 16" by simp
  with \<open>unat ch < 2 ^ LENGTH(8)\<close> show "unat (drop_bit 4 ch) = unat ch div 16"
    by (simp add: unsigned_drop_bit_eq drop_bit_nat_def take_bit_nat_def)
qed

lemma hex_byte: "[to_hex (drop_bit 4 ch), to_hex ch, 32] = hex_byte ch"
  using high_nibble [of ch] by (simp add: hex_byte_def to_hex_digit)

text \<open>\<open>line\<close> begins with the text \<open>pre\<close> and \<open>f\<close> appends \<open>cs\<close> to it.\<close>

definition appends :: "(bytes \<times> nat \<Rightarrow> (bytes \<times> nat) cres) \<Rightarrow> bytes \<Rightarrow> bool" where
  "appends f cs \<longleftrightarrow> (\<forall>line pre. length pre + length cs \<le> length line \<longrightarrow> take (length pre) line = pre \<longrightarrow>
     (\<exists>line'. f (line, length pre) = Ok (line', length (pre @ cs)) \<and> length line' = length line \<and>
       take (length (pre @ cs)) line' = pre @ cs))"

lemma appends_put: "appends (put_chars cs) cs"
  by (auto simp: appends_def put_chars_def wr_def)

lemma appends_Ok: "appends Ok []"
  by (auto simp: appends_def)

lemma appends_bind:
  assumes "appends f cs" "appends g ds"
  shows "appends (\<lambda>p. cbind (f p) g) (cs @ ds)"
  unfolding appends_def
proof (intro allI impI)
  fix line pre :: bytes assume l: "length pre + length (cs @ ds) \<le> length line" "take (length pre) line = pre"
  then obtain line1 where "f (line, length pre) = Ok (line1, length (pre @ cs))" "length line1 = length line"
      "take (length (pre @ cs)) line1 = pre @ cs"
    using assms(1) [unfolded appends_def, rule_format, of pre line] by auto
  moreover from this l obtain line2 where "g (line1, length (pre @ cs)) = Ok (line2, length ((pre @ cs) @ ds))"
      "length line2 = length line1" "take (length ((pre @ cs) @ ds)) line2 = (pre @ cs) @ ds"
    using assms(2) [unfolded appends_def, rule_format, of "pre @ cs" line1] by auto
  ultimately show "\<exists>line'. cbind (f (line, length pre)) g = Ok (line', length (pre @ cs @ ds)) \<and> length line' = length line \<and>
      take (length (pre @ cs @ ds)) line' = pre @ cs @ ds" by simp
qed

lemma appends_hex: "appends (dump_hex chs) (concat (map hex_byte chs))"
proof (induction chs)
  case (Cons ch chs)
  have "dump_hex (ch # chs) = (\<lambda>p. cbind (put_chars (hex_byte ch) p) (dump_hex chs))" by (simp add: hex_byte fun_eq_iff)
  then show ?case using appends_bind [OF appends_put Cons] by simp
qed (simp add: appends_def)

lemma appends_pad: "appends (dump_pad n) (replicate (3 * n) 32)"
proof (induction n)
  case (Suc n)
  have "dump_pad (Suc n) = (\<lambda>p. cbind (put_chars [32, 32, 32] p) (dump_pad n))" by (simp add: fun_eq_iff)
  moreover have "replicate (3 * Suc n) 32 = [32, 32, 32] @ replicate (3 * n) (32 :: u8)" by (simp add: numeral_3_eq_3)
  ultimately show ?case using appends_bind [OF appends_put Suc] by metis
qed (simp add: appends_def)

lemma appends_text: "appends (dump_text chs) (map show_byte chs)"
proof (induction chs)
  case (Cons ch chs)
  have "dump_text (ch # chs) = (\<lambda>p. cbind (put_chars [show_byte ch] p) (dump_text chs))" by (simp add: show_byte_def fun_eq_iff)
  then show ?case using appends_bind [OF appends_put [of "[show_byte ch]"] Cons] by simp
qed (simp add: appends_def)

lemma hex_digits_nonzero: "0 \<notin> set hex_digits" "length hex_digits = 16"
  by (simp_all add: hex_digits_def str_def of_char_def)

lemma line_text_nonzero: "0 \<notin> set (line_text chs)"
proof -
  have "0 \<notin> set (hex_byte ch)" for ch using hex_digits_nonzero high_nibble(1) [of ch] by (auto simp: hex_byte_def) (metis mod_less_divisor nth_mem zero_less_numeral)+
  then show ?thesis by (auto simp: line_text_def show_byte_def isprint_def)
qed

lemma length_line_text: "length chs \<le> 16 \<Longrightarrow> length (line_text chs) = 48 + length chs"
proof -
  assume "length chs \<le> 16"
  moreover have "length (concat (map hex_byte chs)) = 3 * length chs" by (induction chs) (auto simp: hex_byte_def)
  ultimately show ?thesis by (simp add: line_text_def)
qed

lemma dump_line_Ok:
  assumes "length chs \<le> 16" "length line = 65"
  shows "\<exists>line'. dump_line chs line = Ok line' \<and> length line' = 65 \<and> cstr line' = line_text chs"
proof -
  have "appends (\<lambda>p. cbind (dump_hex chs p) (\<lambda>p. cbind (dump_pad (16 - length chs) p) (\<lambda>p. cbind (dump_text chs p) (put_chars [0]))))
      (line_text chs @ [0])"
    using appends_bind [OF appends_hex appends_bind [OF appends_pad appends_bind [OF appends_text appends_put]]]
    unfolding line_text_def by (metis append.assoc)
  moreover have "length (line_text chs @ [0]) \<le> length line" using length_line_text [OF assms(1)] assms by simp
  ultimately obtain line' where l: "cbind (dump_hex chs (line, 0)) (\<lambda>p. cbind (dump_pad (16 - length chs) p) (\<lambda>p. cbind (dump_text chs p) (put_chars [0]))) =
      Ok (line', length (line_text chs @ [0]))" "length line' = 65" "take (length (line_text chs @ [0])) line' = line_text chs @ [0]"
    unfolding appends_def using assms(2) by (elim allE [of _ line] allE [of _ "[]"]) auto
  then have "line' = line_text chs @ 0 # drop (length (line_text chs @ [0])) line'"
    by (metis append_Cons append_Nil append_assoc append_take_drop_id)
  then have "cstr line' = line_text chs" using cstr_append [OF line_text_nonzero] by metis
  moreover have "dump_line chs line = Ok line'" using l(1) by (auto simp: dump_line_def)
  ultimately show ?thesis using l(2) by blast
qed

text \<open>
  C25: a dump stays in its buffer of 65 characters and shows what is there: for every input of less than
  2 GiB the printed lines are those of the reference, 16 bytes each, in hexadecimal and as text, the last
  one padded.
\<close>

theorem hex_dump_ok:
  assumes "length line = 65" "length buf \<le> 2 ^ 31 - 16"
  shows "print_hex_dump line buf = Ok (chunks 0 buf)"
proof -
  have "print_lines buf (16 * k) line = Ok (chunks (16 * k) (drop (16 * k) buf))" if "length line = 65" for k line
    using that
  proof (induction "length buf - 16 * k" arbitrary: k line rule: less_induct)
    case less
    show ?case
    proof (cases "16 * k < length buf")
      case True
      let ?c = "take (min 16 (length buf - 16 * k)) (drop (16 * k) buf)"
      obtain line' where l: "dump_line ?c line = Ok line'" "length line' = 65" "cstr line' = line_text ?c"
        using dump_line_Ok [of ?c line] less.prems by auto
      have "16 * k + 16 < 2 ^ 31" using True assms(2) by presburger
      moreover have "print_lines buf (16 * Suc k) line' = Ok (chunks (16 * Suc k) (drop (16 * Suc k) buf))"
        using less.hyps [of "Suc k" line'] True l(2) by simp
      moreover obtain b bs where "drop (16 * k) buf = b # bs" using True by (metis Cons_nth_drop_Suc)
      moreover have "?c = take 16 (drop (16 * k) buf)" by (simp add: min_def)
      moreover have "drop 16 (drop (16 * k) buf) = drop (16 * Suc k) buf" by (simp add: add.commute)
      ultimately show ?thesis using True l by (subst print_lines.simps) (simp add: add.commute)
    qed (subst print_lines.simps, simp)
  qed
  from this [OF assms(1), of 0] show ?thesis by (simp add: print_hex_dump_def)
qed

theorem hex_dump_ok_witness:
  "print_hex_dump (replicate 65 0) [72, 105, 0] = Ok [(0, str ''48 69 00 '' @ replicate 39 32 @ str ''Hi.'')]"
proof -
  have "chunks 0 [72, 105, 0] = [(0, str ''48 69 00 '' @ replicate 39 32 @ str ''Hi.'')]" by code_simp
  then show ?thesis using hex_dump_ok [of "replicate 65 0" "[72, 105, 0]"] by simp
qed

end
