(* ===== verification/Tqftp_Translate.thy ===== *)
theory Tqftp_Translate
  imports C_Lib
begin

text \<open>
  How the file server of the modem, \<open>qcom/tqftpserv/translate.c\<close>, finds the file behind a requested path:
  read-only files lie with the firmware of a remote processor, the others in a directory of the server.
  The result is the path that was opened, or \<open>None\<close> for -1.
\<close>

section \<open>The file system\<close>

text \<open>
  The class directory of the remote processors with the \<open>firmware\<close> attribute of each, \<open>None\<close> where it cannot
  be opened or read; whether the directory of the server can be made and opened; and whether \<open>open\<close> succeeds
  on a path, for reading or with the flags of a request.
\<close>

record tr_env =
  tr_class :: "(bytes \<times> bytes option) list option"
  tr_tmp :: bool
  tr_open :: "bytes \<Rightarrow> bool \<Rightarrow> bool"

abbreviation (input) READONLY_PATH :: bytes where "READONLY_PATH \<equiv> str ''/readonly/firmware/image/''"
abbreviation (input) READWRITE_PATH :: bytes where "READWRITE_PATH \<equiv> str ''/readwrite/''"
abbreviation (input) TQ_FIRMWARE_BASE :: bytes where "TQ_FIRMWARE_BASE \<equiv> str ''/vendor/firmware/''"
abbreviation (input) TQFTPSERV_TMP :: bytes where "TQFTPSERV_TMP \<equiv> str ''/data/vendor/tmp/tqftpserv''"

section \<open>The code\<close>

text \<open>\<open>PATH_MAX\<close> is 4096; an attribute of that many bytes is terminated behind its buffer.\<close>

fun scan_class :: "tr_env \<Rightarrow> bytes \<Rightarrow> (bytes \<times> bytes option) list \<Rightarrow> bytes option cres" where
  "scan_class env file [] = Ok None"
| "scan_class env file ((d_name, attr) # des) =
    (if dots d_name \<or> length d_name + 10 > 32 then scan_class env file des
     else (case attr of
         None \<Rightarrow> scan_class env file des
       | Some contents \<Rightarrow>
           if length contents \<ge> 4096 then UB
           else let firmware_value = cstr contents in
             if length TQ_FIRMWARE_BASE + length firmware_value + 1 + length file + 1 > 4096 then scan_class env file des
             else let path = TQ_FIRMWARE_BASE @ dirname firmware_value @ [47] @ file in
               if length path + 1 > 4096 then UB
               else if tr_open env path False then Ok (Some path)
               else scan_class env file des))"

definition translate_readonly :: "tr_env \<Rightarrow> bytes \<Rightarrow> bytes option cres" where
  "translate_readonly env file = (case tr_class env of None \<Rightarrow> Ok None | Some des \<Rightarrow> scan_class env file des)"

text \<open>\<open>openat\<close> takes an absolute path as it is.\<close>

definition openat_path :: "bytes \<Rightarrow> bytes \<Rightarrow> bytes" where
  "openat_path base file = (if file \<noteq> [] \<and> hd file = 47 then file else base @ [47] @ file)"

definition translate_readwrite :: "tr_env \<Rightarrow> bytes \<Rightarrow> bool \<Rightarrow> bytes option" where
  "translate_readwrite env file write =
    (if \<not> tr_tmp env then None
     else let path = openat_path TQFTPSERV_TMP file in if tr_open env path write then Some path else None)"

definition translate_open :: "tr_env \<Rightarrow> bytes \<Rightarrow> bool \<Rightarrow> bytes option cres" where
  "translate_open env path write =
    (if take (length READONLY_PATH) path = READONLY_PATH then translate_readonly env (drop (length READONLY_PATH) path)
     else if take (length READWRITE_PATH) path = READWRITE_PATH then
       Ok (translate_readwrite env (drop (length READWRITE_PATH) path) write)
     else Ok None)"

section \<open>Properties\<close>

lemma dirname_length: "path \<noteq> [] \<Longrightarrow> length (dirname path) \<le> length path"
proof -
  assume p: "path \<noteq> []"
  define r1 where "r1 = dropWhile (\<lambda>c. c = 47) (rev path)"
  define r2 where "r2 = dropWhile (\<lambda>c. c \<noteq> 47) r1"
  define r3 where "r3 = dropWhile (\<lambda>c. c = 47) r2"
  have "length r3 \<le> length path"
    using length_dropWhile_le [of "\<lambda>c. c = 47" r2] length_dropWhile_le [of "\<lambda>c. c \<noteq> 47" r1]
      length_dropWhile_le [of "\<lambda>c. c = 47" "rev path"] unfolding r1_def r2_def r3_def by simp
  moreover have "dirname path = [46] \<or> dirname path = [47] \<or> dirname path = rev r3"
    unfolding dirname_def Let_def r1_def [symmetric] r2_def [symmetric] r3_def [symmetric] by simp
  moreover have "1 \<le> length path" using p by (cases path) auto
  ultimately show ?thesis by auto
qed

text \<open>The contents of an attribute: not empty, and short enough for the buffer.\<close>

definition attr_ok :: "bytes option \<Rightarrow> bool" where
  "attr_ok a \<longleftrightarrow> (\<forall>c. a = Some c \<longrightarrow> cstr c \<noteq> [] \<and> length c < 4096)"

lemma scan_class_result:
  "list_all (\<lambda>(d, a). attr_ok a) des \<Longrightarrow> \<exists>r. scan_class env file des = Ok r \<and>
    (\<forall>p. r = Some p \<longrightarrow> tr_open env p False \<and> length p < 4096 \<and>
      (\<exists>(d, a) \<in> set des. \<exists>c. a = Some c \<and> p = TQ_FIRMWARE_BASE @ dirname (cstr c) @ [47] @ file))"
proof (induction des)
  case (Cons de des)
  obtain d a where de: "de = (d, a)" by (cases de)
  from Cons obtain r where r: "scan_class env file des = Ok r" "\<forall>p. r = Some p \<longrightarrow> tr_open env p False \<and> length p < 4096 \<and>
      (\<exists>(d, a) \<in> set des. \<exists>c. a = Some c \<and> p = TQ_FIRMWARE_BASE @ dirname (cstr c) @ [47] @ file)" by auto
  show ?case
  proof (cases a)
    case (Some c)
    then have c: "cstr c \<noteq> []" "length c < 4096" using Cons.prems de by (auto simp: attr_ok_def)
    have l: "length TQ_FIRMWARE_BASE = 17" by (simp add: str_def)
    from dirname_length [OF c(1)] r c(2) Some de l show ?thesis by (auto simp: Let_def)
  qed (use r de in auto)
qed simp


definition demo_tr :: tr_env where
  "demo_tr = \<lparr>tr_class = Some [(str ''remoteproc0'', Some (str ''qcom/mba.mbn''))], tr_tmp = True,
     tr_open = (\<lambda>p w. p = str ''/vendor/firmware/qcom/a.bin'' \<or> p = str ''/etc/hosts'')\<rparr>"


end
