(* ===== verification/Tqftp_List.thy ===== *)
theory Tqftp_List
  imports List_Spec
begin

text \<open>
  The circular list of \<open>qcom/tqftpserv/list.h\<close>: the head is an item of the ring and no pointer is null. The
  store gives the two fields of every \<open>struct list_head\<close>; \<open>ring\<close> is the address of the head.
\<close>

section \<open>The code\<close>

record ring =
  rnext :: "nat \<Rightarrow> nat"
  rprev :: "nat \<Rightarrow> nat"
  ring :: nat

definition ring_init :: "ring \<Rightarrow> ring" where
  "ring_init s = s\<lparr>rnext := (rnext s)(ring s := ring s), rprev := (rprev s)(ring s := ring s)\<rparr>"

definition ring_empty :: "ring \<Rightarrow> bool" where
  "ring_empty s \<longleftrightarrow> rnext s (ring s) = ring s"

definition ring_add :: "ring \<Rightarrow> nat \<Rightarrow> ring" where
  "ring_add s item =
    (let prev = rprev s (ring s);
         s = s\<lparr>rnext := (rnext s)(item := ring s)\<rparr>;
         s = s\<lparr>rprev := (rprev s)(item := prev)\<rparr>;
         s = s\<lparr>rprev := (rprev s)(ring s := item)\<rparr>
     in s\<lparr>rnext := (rnext s)(prev := item)\<rparr>)"

definition ring_del :: "ring \<Rightarrow> nat \<Rightarrow> ring" where
  "ring_del s item =
    (let s = s\<lparr>rnext := (rnext s)(rprev s item := rnext s item)\<rparr>
     in s\<lparr>rprev := (rprev s)(rnext s item := rprev s item)\<rparr>)"

text \<open>The loops end when they are back at the head.\<close>

definition ring_next :: "ring \<Rightarrow> nat \<Rightarrow> nat option" where
  "ring_next s item = (if rnext s item = ring s then None else Some (rnext s item))"

definition ring_first :: "ring \<Rightarrow> nat option" where
  "ring_first s = ring_next s (ring s)"

definition ring_for_each :: "nat \<Rightarrow> ring \<Rightarrow> nat list option" where
  "ring_for_each fuel s = for_each fuel ring_next s (ring_first s)"

definition ring_for_each_safe_del :: "nat \<Rightarrow> (nat \<Rightarrow> bool) \<Rightarrow> ring \<Rightarrow> ring option" where
  "ring_for_each_safe_del fuel P s = sweep fuel ring_next (\<lambda>s x. Some (ring_del s x)) P s (ring_first s)"

section \<open>Represented sequences\<close>

fun linked :: "ring \<Rightarrow> nat list \<Rightarrow> bool" where
  "linked s (x # y # zs) = (rnext s x = y \<and> rprev s y = x \<and> linked s (y # zs))"
| "linked s _ = True"

definition ring_repr :: "ring \<Rightarrow> nat list \<Rightarrow> bool" where
  "ring_repr s xs \<longleftrightarrow> distinct (ring s # xs) \<and> linked s (ring s # xs @ [ring s])"

lemma linked_append: "linked s (xs @ x # ys) \<longleftrightarrow> linked s (xs @ [x]) \<and> linked s (x # ys)"
proof (induction xs)
  case (Cons a xs)
  then show ?case by (cases xs) auto
qed (cases ys, auto)

lemma linked_frame:
  "(\<And>x. x \<in> set (butlast xs) \<Longrightarrow> rnext s' x = rnext s x) \<Longrightarrow> (\<And>x. x \<in> set (tl xs) \<Longrightarrow> rprev s' x = rprev s x) \<Longrightarrow>
    linked s' xs = linked s xs"
proof (induction xs)
  case (Cons a xs)
  then show ?case by (cases xs) auto
qed simp

text \<open>The ring around a place: what is before it and what is behind it.\<close>

lemma ring_repr_split:
  "ring_repr s (xs @ ys) \<longleftrightarrow> distinct (ring s # xs @ ys) \<and>
    linked s (ring s # xs) \<and> linked s (ys @ [ring s]) \<and>
    rnext s (last (ring s # xs)) = hd (ys @ [ring s]) \<and> rprev s (hd (ys @ [ring s])) = last (ring s # xs)"
proof -
  obtain as a where a: "ring s # xs = as @ [a]" by (metis rev_exhaust list.distinct(1))
  obtain b bs where b: "ys @ [ring s] = b # bs" by (cases "ys @ [ring s]") auto
  have e: "ring s # (xs @ ys) @ [ring s] = as @ a # b # bs" using a b by simp
  show ?thesis unfolding ring_repr_def e a b linked_append [of s as a "b # bs"] by auto
qed

lemma ring_add_repr:
  assumes "ring_repr s xs" "x \<notin> set xs" "x \<noteq> ring s"
  shows "ring_repr (ring_add s x) (xs @ [x])"
proof -
  from assms(1) ring_repr_split [of s xs "[]"] have r: "distinct (ring s # xs)" "linked s (ring s # xs)"
    "rnext s (last (ring s # xs)) = ring s" "rprev s (ring s) = last (ring s # xs)" by auto
  let ?p = "last (ring s # xs)"
  have p: "?p \<noteq> x" using assms(2,3) by (cases "xs = []") (auto dest: last_in_set)
  have "linked (ring_add s x) (ring s # xs) = linked s (ring s # xs)"
  proof (rule linked_frame)
    fix y assume "y \<in> set (butlast (ring s # xs))"
    moreover have "ring s # xs = butlast (ring s # xs) @ [?p]" by (metis append_butlast_last_id list.distinct(1))
    then have "?p \<notin> set (butlast (ring s # xs))" using r(1) by (metis distinct_append not_distinct_conv_prefix)
    ultimately have "y \<noteq> ?p" "y \<noteq> x" using assms(2,3) in_set_butlastD [of y "ring s # xs"] by auto
    then show "rnext (ring_add s x) y = rnext s y" using r(4) by (simp add: ring_add_def Let_def)
  next
    fix y assume "y \<in> set (tl (ring s # xs))"
    then show "rprev (ring_add s x) y = rprev s y" using r(1) assms(2) by (auto simp: ring_add_def Let_def)
  qed
  then show ?thesis using r assms(2,3) p ring_repr_split [of "ring_add s x" xs "[x]"] by (simp add: ring_add_def Let_def)
qed

lemma ring_del_repr:
  assumes "ring_repr s (xs @ x # ys)"
  shows "ring_repr (ring_del s x) (xs @ ys)"
proof -
  let ?p = "last (ring s # xs)" and ?n = "hd (ys @ [ring s])"
  from assms ring_repr_split [of s xs "x # ys"] have r: "distinct (ring s # xs @ x # ys)" "linked s (ring s # xs)"
    "linked s (x # ys @ [ring s])" "rnext s ?p = x" "rprev s x = ?p" by auto
  then have n: "rnext s x = ?n" "rprev s ?n = x" "linked s (ys @ [ring s])" by (cases ys; auto)+
  have d: "ring_del s x = s\<lparr>rnext := (rnext s)(?p := ?n), rprev := (rprev s)(?n := ?p)\<rparr>"
    using r(1,4,5) n by (cases "xs = []") (auto simp: ring_del_def Let_def)
  have "linked (ring_del s x) (ring s # xs) = linked s (ring s # xs)"
  proof (rule linked_frame)
    fix y assume y: "y \<in> set (butlast (ring s # xs))"
    moreover have "ring s # xs = butlast (ring s # xs) @ [?p]" by (metis append_butlast_last_id list.distinct(1))
    then have "?p \<notin> set (butlast (ring s # xs))" using r(1) by (metis distinct_append distinct.simps(2) append_Cons not_distinct_conv_prefix)
    ultimately show "rnext (ring_del s x) y = rnext s y" unfolding d by auto
  next
    fix y assume "y \<in> set (tl (ring s # xs))"
    then show "rprev (ring_del s x) y = rprev s y" unfolding d using r(1) by (cases ys) auto
  qed
  moreover have "linked (ring_del s x) (ys @ [ring s]) = linked s (ys @ [ring s])"
  proof (rule linked_frame)
    fix y assume "y \<in> set (butlast (ys @ [ring s]))"
    then have "y \<noteq> ?p" using r(1) by (cases "xs = []") (auto dest: last_in_set)
    then show "rnext (ring_del s x) y = rnext s y" unfolding d by simp
  next
    fix y assume "y \<in> set (tl (ys @ [ring s]))"
    then have "y \<noteq> ?n" using r(1) by (cases ys) auto
    then show "rprev (ring_del s x) y = rprev s y" unfolding d by simp
  qed
  moreover have "ring (ring_del s x) = ring s" unfolding d by simp
  ultimately show ?thesis using r(1,2) n(3) ring_repr_split [of "ring_del s x" xs ys] unfolding d by simp
qed

lemma ring_del_repr1: "ring_repr s xs \<Longrightarrow> x \<in> set xs \<Longrightarrow> ring_repr (ring_del s x) (remove1 x xs)"
proof -
  assume a: "ring_repr s xs" "x \<in> set xs"
  from split_list [OF a(2)] obtain ys zs where xs: "xs = ys @ x # zs" by blast
  moreover have "x \<notin> set ys" using a(1) xs by (auto simp: ring_repr_def)
  ultimately show ?thesis using ring_del_repr a(1) by (simp add: remove1_append)
qed

lemma ring_next_repr: "ring_repr s (xs @ x # ys) \<Longrightarrow> ring_next s x = head_opt ys"
proof -
  assume "ring_repr s (xs @ x # ys)"
  then have "linked s (x # ys @ [ring s])" "ring s \<notin> set ys" using ring_repr_split [of s xs "x # ys"] by auto
  then show ?thesis by (cases ys) (auto simp: ring_next_def)
qed

interpretation rlist: item_list ring_repr ring_init ring_add "\<lambda>s x. Some (ring_del s x)" ring_first ring_next "\<lambda>s x. x \<noteq> ring s"
proof unfold_locales
  show "distinct xs" if "ring_repr s xs" for s xs using that by (simp add: ring_repr_def)
  show "ring_repr (ring_init s) []" for s by (simp add: ring_repr_def ring_init_def)
  show "\<exists>s'. Some (ring_del s x) = Some s' \<and> ring_repr s' (remove1 x xs)" if "ring_repr s xs" "x \<in> set xs" for s xs x
    using ring_del_repr1 [OF that] by simp
  show "ring_first s = head_opt xs" if "ring_repr s xs" for s xs
    using that by (cases xs) (auto simp: ring_repr_def ring_first_def ring_next_def)
qed (auto intro: ring_add_repr ring_next_repr)

section \<open>Properties\<close>

text \<open>
  C26: the list of clients behaves like a sequence: \<open>list_empty\<close> tests it, adding a client to the ring puts
  it last, the \<open>list_for_each\<close> loop visits every client once in this order, and the loop that deletes clients
  on its way, as the server does for those that are finished or gone, leaves the others.
\<close>

theorem ring_loops:
  assumes "ring_repr s xs" "x \<notin> set xs" "x \<noteq> ring s" "Suc (length xs) \<le> fuel"
  shows "ring_empty s = (xs = []) \<and> ring_repr (ring_add s x) (xs @ [x]) \<and> ring_for_each fuel (ring_add s x) = Some (xs @ [x]) \<and>
    (\<exists>s'. ring_for_each_safe_del fuel P (ring_add s x) = Some s' \<and> ring_repr s' (filter (\<lambda>y. \<not> P y) (xs @ [x])))"
proof -
  have r: "ring_repr (ring_add s x) (xs @ [x])" by (rule ring_add_repr [OF assms(1-3)])
  moreover have "ring_empty s = (xs = [])" using assms(1) by (cases xs) (auto simp: ring_empty_def ring_repr_def)
  ultimately show ?thesis using rlist.for_each_all [OF r, of fuel] rlist.sweep_all [OF r, of fuel P] assms(4)
    by (simp add: ring_for_each_def ring_for_each_safe_del_def)
qed

abbreviation new_ring :: ring where
  "new_ring \<equiv> ring_init \<lparr>rnext = (\<lambda>_. 0), rprev = (\<lambda>_. 0), ring = 1\<rparr>"

theorem ring_loops_witness:
  "ring_empty new_ring \<and> (\<exists>s'. ring_for_each_safe_del 1 (\<lambda>y. y = 5) (ring_add new_ring 5) = Some s' \<and> ring_repr s' [])"
  using ring_loops [of new_ring "[]" 5 1 "\<lambda>y. y = 5"] by (simp add: ring_repr_def ring_init_def)

end
