(* ===== verification/Tqftp.thy ===== *)
theory Tqftp
  imports Tqftp_Translate Tqftp_List Qrtr_Lib
begin

text \<open>
  The file server for the modem, \<open>qcom/tqftpserv/tqftpserv.c\<close>: TFTP over QRTR. A client is a \<open>struct tftp_client\<close>;
  the lists of readers and writers, whose representation \<open>Tqftp_List\<close> treats, are sequences. The state also
  has the open files with their positions, the files, and what was sent on each socket. Left to the
  environment are the results of the system calls and what is in a buffer behind a datagram. \<open>char\<close> is
  unsigned, as on the target. The field \<open>block\<close> of a client is never used and left out, and so are the log messages.
\<close>

section \<open>State\<close>

record tftp_client =
  csq :: sockaddr_qrtr
  csock :: int
  cfd :: int
  cblksize :: u64
  crsize :: u64
  cwsize :: u64
  ctimeoutms :: u32

record tq_env =
  te_tr :: tr_env
  te_sock :: int
  te_connect :: int
  te_fd :: int
  te_malloc :: "nat \<Rightarrow> bool"
  te_send :: "int \<Rightarrow> bytes \<Rightarrow> int"
  te_pread :: bool
  te_write :: "bytes \<Rightarrow> int"

record tq =
  readers :: "tftp_client list"
  writers :: "tftp_client list"
  tq_fds :: "int \<Rightarrow> (bytes \<times> nat) option"
  tq_disk :: "bytes \<Rightarrow> bytes"
  tq_sent :: "(int \<times> bytes) list"

abbreviation (input) OP_RRQ :: nat where "OP_RRQ \<equiv> 1"
abbreviation (input) OP_WRQ :: nat where "OP_WRQ \<equiv> 2"
abbreviation (input) OP_DATA :: nat where "OP_DATA \<equiv> 3"
abbreviation (input) OP_ACK :: nat where "OP_ACK \<equiv> 4"
abbreviation (input) OP_ERROR :: nat where "OP_ERROR \<equiv> 5"
abbreviation (input) OP_OACK :: nat where "OP_OACK \<equiv> 6"

section \<open>System calls\<close>

definition sys_send :: "tq_env \<Rightarrow> int \<Rightarrow> bytes \<Rightarrow> tq \<Rightarrow> int \<times> tq" where
  "sys_send env sock pkt st = (let n = te_send env sock pkt in
     (n, if n < 0 then st else st\<lparr>tq_sent := tq_sent st @ [(sock, pkt)]\<rparr>))"

definition pread_file :: "tq_env \<Rightarrow> tq \<Rightarrow> int \<Rightarrow> u64 \<Rightarrow> u64 \<Rightarrow> bytes option" where
  "pread_file env st fd n offset = (case tq_fds st fd of
     None \<Rightarrow> None
   | Some (p, _) \<Rightarrow> if \<not> te_pread env \<or> sint offset < 0 then None else Some (take (unat n) (drop (unat offset) (tq_disk st p))))"

definition overwrite :: "bytes \<Rightarrow> nat \<Rightarrow> bytes \<Rightarrow> bytes" where
  "overwrite c a bs = take a c @ replicate (a - length c) 0 @ bs @ drop (a + length bs) c"

definition write_file :: "tq_env \<Rightarrow> int \<Rightarrow> bytes \<Rightarrow> tq \<Rightarrow> int \<times> tq" where
  "write_file env fd bs st = (case tq_fds st fd of
     None \<Rightarrow> (-1, st)
   | Some (p, pos) \<Rightarrow> (let n = te_write env bs; bs = take (nat n) bs in
       if n < 0 then (n, st)
       else (n, st\<lparr>tq_fds := (tq_fds st)(fd \<mapsto> (p, pos + length bs)),
         tq_disk := (tq_disk st)(p := overwrite (tq_disk st p) pos bs)\<rparr>)))"

definition close_fd :: "int \<Rightarrow> tq \<Rightarrow> tq" where
  "close_fd fd st = st\<lparr>tq_fds := (tq_fds st)(fd := None)\<rparr>"

section \<open>Sending\<close>

text \<open>\<open>malloc(4 + blksize)\<close> is not checked, and the sum wraps.\<close>

definition tftp_send_data :: "tq_env \<Rightarrow> tftp_client \<Rightarrow> u32 \<Rightarrow> u64 \<Rightarrow> tq \<Rightarrow> (int \<times> tq) cres" where
  "tftp_send_data env client block offset st = (let sz = unat (4 + cblksize client) in
     if sz < 4 \<or> \<not> te_malloc env sz then UB
     else (case pread_file env st (cfd client) (cblksize client) offset of
         None \<Rightarrow> Ok (-1, st)
       | Some bs \<Rightarrow> if bs = [] then Ok (0, st)
           else Ok (sys_send env (csock client) ([0, of_nat OP_DATA, ucast (drop_bit 8 block), ucast block] @ bs) st)))"

definition tftp_send_ack :: "tq_env \<Rightarrow> int \<Rightarrow> u16 \<Rightarrow> tq \<Rightarrow> int \<times> tq" where
  "tftp_send_ack env sock block st = sys_send env sock [0, of_nat OP_ACK, ucast (drop_bit 8 block), ucast block] st"

definition oack_field :: "string \<Rightarrow> int option \<Rightarrow> bytes" where
  "oack_field name v = (case v of None \<Rightarrow> [] | Some n \<Rightarrow> str name @ [0] @ dec_int n @ [0])"

definition oack_bytes :: "u64 option \<Rightarrow> u64 option \<Rightarrow> u64 option \<Rightarrow> u32 option \<Rightarrow> u64 option \<Rightarrow> bytes" where
  "oack_bytes blksize tsize wsize timeoutms rsize = [0, of_nat OP_OACK] @
     oack_field ''blksize'' (map_option sint blksize) @ oack_field ''timeoutms'' (map_option sint timeoutms) @
     oack_field ''tsize'' (if tsize = Some (- 1) then None else map_option sint tsize) @
     oack_field ''wsize'' (map_option sint wsize) @ oack_field ''rsize'' (map_option sint rsize)"

text \<open>The packet is built in 512 bytes.\<close>

definition tftp_send_oack :: "tq_env \<Rightarrow> int \<Rightarrow> u64 option \<Rightarrow> u64 option \<Rightarrow> u64 option \<Rightarrow> u32 option \<Rightarrow> u64 option \<Rightarrow> tq \<Rightarrow>
    (int \<times> tq) cres" where
  "tftp_send_oack env sock blksize tsize wsize timeoutms rsize st =
    (let pkt = oack_bytes blksize tsize wsize timeoutms rsize in
     if length pkt > 512 then UB else Ok (sys_send env sock pkt st))"

definition tftp_send_error :: "tq_env \<Rightarrow> int \<Rightarrow> u16 \<Rightarrow> bytes \<Rightarrow> tq \<Rightarrow> int \<times> tq" where
  "tftp_send_error env sock code msg st = (let pkt = [0, of_nat OP_ERROR, ucast (drop_bit 8 code), ucast code] @ msg @ [0] in
     if \<not> te_malloc env (length pkt) then (-1, st) else sys_send env sock pkt st)"

section \<open>Requests\<close>

text \<open>A string of the request: the buffer is searched for its end beyond the datagram.\<close>

definition next_str :: "bytes \<Rightarrow> nat \<Rightarrow> (bytes \<times> nat) cres" where
  "next_str buf p = (case strlen (drop p buf) of None \<Rightarrow> UB | Some n \<Rightarrow> Ok (take n (drop p buf), p + n + 1))"

lemma next_str_more: "next_str buf p = Ok (s, p') \<Longrightarrow> p < p'"
  by (auto simp: next_str_def split: option.splits)

definition lower :: "u8 \<Rightarrow> u8" where
  "lower c = (if 65 \<le> c \<and> c \<le> 90 then c + 32 else c)"

definition is_octet :: "bytes \<Rightarrow> bool" where
  "is_octet mode \<longleftrightarrow> map lower mode = str ''octet''"

record rrq_opts =
  o_blksize :: u64
  o_timeoutms :: u32
  o_tsize :: u64
  o_rsize :: u64
  o_wsize :: u64

definition set_opt :: "bytes \<Rightarrow> bytes \<Rightarrow> rrq_opts \<Rightarrow> rrq_opts" where
  "set_opt opt val os =
    (if opt = str ''blksize'' then os\<lparr>o_blksize := scast (atoi val)\<rparr>
     else if opt = str ''timeoutms'' then os\<lparr>o_timeoutms := atoi val\<rparr>
     else if opt = str ''tsize'' then os\<lparr>o_tsize := scast (atoi val)\<rparr>
     else if opt = str ''rsize'' then os\<lparr>o_rsize := scast (atoi val)\<rparr>
     else if opt = str ''wsize'' then os\<lparr>o_wsize := scast (atoi val)\<rparr>
     else os)"

function parse_opts :: "bytes \<Rightarrow> nat \<Rightarrow> nat \<Rightarrow> rrq_opts \<Rightarrow> rrq_opts cres" where
  "parse_opts buf len p os =
    (if p < len then
       (case next_str buf p of
          Ok (opt, p') \<Rightarrow> (case next_str buf p' of
            Ok (val, p'') \<Rightarrow> parse_opts buf len p'' (set_opt opt val os)
          | _ \<Rightarrow> UB)
        | _ \<Rightarrow> UB)
     else Ok os)"
  by pat_completeness auto

termination
  by (relation "measure (\<lambda>(buf, len, p, os). len - p)") (auto dest!: next_str_more)

declare parse_opts.simps [simp del]

definition default_opts :: rrq_opts where
  "default_opts = \<lparr>o_blksize = 512, o_timeoutms = 1000, o_tsize = - 1, o_rsize = 0, o_wsize = 0\<rparr>"

definition nonzero :: "u64 \<Rightarrow> u64 option" where
  "nonzero w = (if w = 0 then None else Some w)"

text \<open>\<open>buf\<close> is the whole receive buffer, \<open>len\<close> the length of the datagram.\<close>

definition handle_rrq :: "tq_env \<Rightarrow> bytes \<Rightarrow> nat \<Rightarrow> sockaddr_qrtr \<Rightarrow> tq \<Rightarrow> tq cres" where
  "handle_rrq env buf len sq st =
    cbind (next_str buf 2) (\<lambda>(filename, p).
    cbind (next_str buf p) (\<lambda>(mode, p).
      if \<not> is_octet mode then Ok st
      else let do_oack = (p < len) in
        cbind (parse_opts buf len p default_opts) (\<lambda>os.
          let sock = te_sock env in
          if sock < 0 \<or> te_connect env < 0 then Ok st
          else cbind (translate_open (te_tr env) filename False) (\<lambda>r. case r of
              None \<Rightarrow> Ok (snd (tftp_send_error env sock 1 (str ''file not found'') st))
            | Some path \<Rightarrow>
                let tsize = (if o_tsize os \<noteq> - 1 then of_nat (length (tq_disk st path)) else o_tsize os);
                    client = \<lparr>csq = sq, csock = sock, cfd = te_fd env, cblksize = o_blksize os, crsize = o_rsize os,
                      cwsize = o_wsize os, ctimeoutms = o_timeoutms os\<rparr>;
                    st = st\<lparr>tq_fds := (tq_fds st)(te_fd env \<mapsto> (path, 0)), readers := readers st @ [client]\<rparr>
                in cbind (if do_oack then tftp_send_oack env sock (Some (o_blksize os)) (nonzero tsize) (nonzero (o_wsize os))
                      (Some (o_timeoutms os)) (nonzero (o_rsize os)) st
                    else tftp_send_data env client 1 0 st) (\<lambda>(n, st). Ok st)))))"

definition handle_wrq :: "tq_env \<Rightarrow> bytes \<Rightarrow> sockaddr_qrtr \<Rightarrow> tq \<Rightarrow> tq cres" where
  "handle_wrq env buf sq st =
    cbind (next_str buf 2) (\<lambda>(filename, p).
    cbind (next_str buf p) (\<lambda>(mode, p).
      if \<not> is_octet mode then Ok st
      else cbind (translate_open (te_tr env) filename True) (\<lambda>r. case r of
          None \<Rightarrow> Ok st
        | Some path \<Rightarrow>
            let st = st\<lparr>tq_fds := (tq_fds st)(te_fd env \<mapsto> (path, 0))\<rparr>; sock = te_sock env in
            if sock < 0 \<or> te_connect env < 0 then Ok st
            else let client = \<lparr>csq = sq, csock = sock, cfd = te_fd env, cblksize = 0, crsize = 0, cwsize = 0, ctimeoutms = 0\<rparr>
              in (case tftp_send_ack env sock 0 st of (ret, st) \<Rightarrow>
                if ret < 0 then Ok (close_fd (te_fd env) st) else Ok (st\<lparr>writers := writers st @ [client]\<rparr>)))))"

section \<open>Transfers\<close>

text \<open>
  The window of blocks after an acknowledgement. The counter has 16 bits and the bound 64: the loop
  may run forever, and then there is no result.
\<close>

partial_function (option) send_window :: "tq_env \<Rightarrow> tftp_client \<Rightarrow> u16 \<Rightarrow> u16 \<Rightarrow> tq \<Rightarrow> tq cres option" where
  "send_window env client lst block st =
    (if (ucast block :: u64) < ucast lst + cwsize client then
       (case tftp_send_data env client (ucast block + 1) (ucast block * cblksize client) st of
          Ok r \<Rightarrow> if fst r \<le> 0 then Some (Ok (snd r)) else send_window env client lst (block + 1) (snd r)
        | _ \<Rightarrow> Some UB)
     else Some (Ok st))"

text \<open>A datagram or the error number, and what the buffer held before.\<close>

type_synonym recv = "int + bytes \<times> sockaddr_qrtr"

definition be16 :: "bytes \<Rightarrow> nat \<Rightarrow> u16" where
  "be16 buf i = push_bit 8 (ucast (buf ! i)) OR ucast (buf ! (i + 1))"

definition handle_reader :: "tq_env \<Rightarrow> tftp_client \<Rightarrow> recv \<Rightarrow> bytes \<Rightarrow> tq \<Rightarrow> (int \<times> tq) cres option" where
  "handle_reader env client recv stale st = (case recv of
     Inl e \<Rightarrow> Some (Ok (-1, st))
   | Inr (bs, sq) \<Rightarrow>
       if sq_node sq \<noteq> sq_node (csq client) \<or> sq_port sq \<noteq> sq_port (csq client) then Some (Ok (-1, st))
       else let buf = bs @ drop (length bs) stale; opcode = unat (be16 buf 0) in
         if opcode = OP_ERROR then (if length bs \<ge> 128 then Some UB else Some (Ok (-1, st)))
         else if opcode \<noteq> OP_ACK then Some (Ok (-1, st))
         else map_option (\<lambda>r. cbind r (\<lambda>st. Ok (1, st))) (send_window env client (be16 buf 2) (be16 buf 2) st))"

definition handle_writer :: "tq_env \<Rightarrow> tftp_client \<Rightarrow> recv \<Rightarrow> bytes \<Rightarrow> tq \<Rightarrow> (int \<times> tq) cres" where
  "handle_writer env client recv stale st = (case recv of
     Inl e \<Rightarrow> Ok (-1, st)
   | Inr (bs, sq) \<Rightarrow>
       if sq_node sq \<noteq> sq_node (csq client) \<or> sq_port sq \<noteq> sq_port (csq client) then Ok (-1, st)
       else let buf = bs @ drop (length bs) stale; opcode = unat (be16 buf 0); block = be16 buf 2 in
         if opcode \<noteq> OP_DATA then Ok (-1, snd (tftp_send_error env (csock client) 4 (str ''Expected DATA opcode'') st))
         else if length bs < 4 then UB
         else let payload = drop 4 bs in
           (case write_file env (cfd client) payload st of (ret, st) \<Rightarrow>
              if ret < 0 then Ok (-1, st)
              else Ok (if length payload = 512 then 1 else 0, snd (tftp_send_ack env (csock client) block st))))"

section \<open>The loop\<close>

definition client_close_and_free :: "bool \<Rightarrow> tftp_client \<Rightarrow> tq \<Rightarrow> tq" where
  "client_close_and_free writer client st =
    close_fd (cfd client) (if writer then st\<lparr>writers := remove1 client (writers st)\<rparr> else st\<lparr>readers := remove1 client (readers st)\<rparr>)"

text \<open>What \<open>select\<close> found on each socket, with the answers of the system calls in its handler.\<close>

type_synonym tq_input = "int \<Rightarrow> (tq_env \<times> recv \<times> bytes) option"

fun writer_pass :: "tq_input \<Rightarrow> tftp_client list \<Rightarrow> tq \<Rightarrow> tq cres" where
  "writer_pass inp [] st = Ok st"
| "writer_pass inp (c # cs) st = (case inp (csock c) of
     None \<Rightarrow> writer_pass inp cs st
   | Some (env, recv, stale) \<Rightarrow> cbind (handle_writer env c recv stale st) (\<lambda>(ret, st).
       writer_pass inp cs (if ret \<le> 0 then client_close_and_free True c st else st)))"

fun reader_pass :: "tq_input \<Rightarrow> tftp_client list \<Rightarrow> tq \<Rightarrow> tq cres option" where
  "reader_pass inp [] st = Some (Ok st)"
| "reader_pass inp (c # cs) st = (case inp (csock c) of
     None \<Rightarrow> reader_pass inp cs st
   | Some (env, recv, stale) \<Rightarrow> (case handle_reader env c recv stale st of
       None \<Rightarrow> None
     | Some (Ok (ret, st)) \<Rightarrow> reader_pass inp cs (if ret \<le> 0 then client_close_and_free False c st else st)
     | Some _ \<Rightarrow> Some UB))"

definition drop_writers :: "(tftp_client \<Rightarrow> bool) \<Rightarrow> tq \<Rightarrow> tq" where
  "drop_writers P st = fold (\<lambda>c st. if P c then client_close_and_free True c st else st) (writers st) st"

text \<open>
  The listening socket: a return value of \<open>main\<close>, or \<open>None\<close> to go on. \<open>stale\<close> is the rest of the buffer of
  4096 bytes, \<open>pkt\<close> the packet structure before.
\<close>

definition listen_socket :: "tq_env \<Rightarrow> recv \<Rightarrow> bytes \<Rightarrow> qrtr_packet \<Rightarrow> tq \<Rightarrow> (int option \<times> tq) cres" where
  "listen_socket env recv stale pkt st = (case recv of
     Inl e \<Rightarrow> Ok (Some (- e), st)
   | Inr (bs, sq) \<Rightarrow>
       if sq_port sq = QRTR_PORT_CTRL then
         (case qrtr_decode pkt bs sq of (ret, pkt) \<Rightarrow>
            if ret < 0 then Ok (Some ret, st)
            else if ptype pkt = 3 then Ok (None, drop_writers (\<lambda>c. sq_node (csq c) = sq_node sq) st)
            else if ptype pkt = 6 then Ok (None, drop_writers (\<lambda>c. csq c = sq) st)
            else Ok (None, st))
       else if length bs < 2 then Ok (None, st)
       else let buf = bs @ drop (length bs) stale; opcode = unat (be16 buf 0) in
         if opcode = OP_RRQ then cbind (handle_rrq env buf (length bs) sq st) (\<lambda>st. Ok (None, st))
         else if opcode = OP_WRQ then cbind (handle_wrq env buf sq st) (\<lambda>st. Ok (None, st))
         else Ok (None, st))"

text \<open>One turn of the loop in which \<open>select\<close> returned; an interrupted one changes nothing.\<close>

definition tq_round :: "tq_input \<Rightarrow> (tq_env \<times> recv \<times> bytes \<times> qrtr_packet) option \<Rightarrow> tq \<Rightarrow> (int option \<times> tq) cres option" where
  "tq_round inp listen st = (case writer_pass inp (writers st) st of
     Ok st \<Rightarrow> (case reader_pass inp (readers st) st of
         None \<Rightarrow> None
       | Some (Ok st) \<Rightarrow> (case listen of
           None \<Rightarrow> Some (Ok (None, st))
         | Some (env, recv, stale, pkt) \<Rightarrow> Some (listen_socket env recv stale pkt st))
       | Some _ \<Rightarrow> Some UB)
   | _ \<Rightarrow> Some UB)"

definition tq_start :: "qrtr_sys \<Rightarrow> (bytes \<Rightarrow> bytes) \<Rightarrow> tq option" where
  "tq_start sys disk = (let fd = fst (qrtr_open sys 0) in
     if fd < 0 \<or> fst (qrtr_publish sys fd 4096 1 0) < 0 then None
     else Some \<lparr>readers = [], writers = [], tq_fds = Map.empty, tq_disk = disk, tq_sent = []\<rparr>)"

end
