(* ===== verification/Tqftp_Transfer.thy ===== *)
theory Tqftp_Transfer
  imports Tqftp
begin

text \<open>
  What the file server does over a whole transfer: a client that reads gets the file, a client that writes
  leaves it, and when neither works.
\<close>

section \<open>Sending a window\<close>

definition data_pkt :: "nat \<Rightarrow> bytes \<Rightarrow> bytes" where
  "data_pkt n bs = [0, 3, of_nat (n div 256), of_nat n] @ bs"

definition file_block :: "nat \<Rightarrow> bytes \<Rightarrow> nat \<Rightarrow> bytes" where
  "file_block b c k = take b (drop (k * b) c)"

text \<open>The number of blocks of a file.\<close>

definition blocks :: "nat \<Rightarrow> bytes \<Rightarrow> nat" where
  "blocks b c = (length c + b - 1) div b"

lemma blocks_iff: "0 < b \<Longrightarrow> k < blocks b c \<longleftrightarrow> k * b < length c"
proof -
  assume b: "0 < b"
  have "k < blocks b c \<longleftrightarrow> Suc k * b \<le> length c + b - 1"
    using less_eq_div_iff_mult_less_eq [OF b, of "Suc k" "length c + b - 1"] by (simp add: blocks_def Suc_le_eq)
  also have "\<dots> \<longleftrightarrow> k * b < length c" using b by auto
  finally show ?thesis .
qed

lemma file_block_empty: "0 < b \<Longrightarrow> file_block b c k = [] \<longleftrightarrow> blocks b c \<le> k"
  using blocks_iff [of b k c] by (auto simp: file_block_def)

lemma concat_blocks: "concat (map (file_block b c) [0..<n]) = take (n * b) c"
proof (induction n)
  case (Suc n)
  have "take (n * b + b) c = take (n * b) c @ take b (drop (n * b) c)" by (rule take_add)
  then show ?case using Suc by (simp add: file_block_def add.commute)
qed simp

lemma blocks_cover: "0 < b \<Longrightarrow> blocks b c \<le> n \<Longrightarrow> concat (map (file_block b c) [0..<n]) = c"
  using blocks_iff [of b n c] by (simp add: concat_blocks)

text \<open>The client reads the open file \<open>c\<close> in blocks of \<open>b\<close> bytes, \<open>w\<close> at a time, and no system call fails.\<close>

definition reading :: "tq_env \<Rightarrow> tftp_client \<Rightarrow> bytes \<Rightarrow> nat \<Rightarrow> nat \<Rightarrow> tq \<Rightarrow> bool" where
  "reading env client c b w st \<longleftrightarrow> (\<exists>p pos. tq_fds st (cfd client) = Some (p, pos) \<and> tq_disk st p = c) \<and>
     unat (cblksize client) = b \<and> 0 < b \<and> b < 2 ^ 46 \<and> unat (cwsize client) = w \<and> w < 2 ^ 63 \<and>
     te_pread env \<and> (\<forall>n. te_malloc env n) \<and> (\<forall>sock pkt. te_send env sock pkt = int (length pkt))"

definition sent :: "tq \<Rightarrow> (int \<times> bytes) list \<Rightarrow> tq" where
  "sent st ps = st\<lparr>tq_sent := tq_sent st @ ps\<rparr>"

lemma sent_simps [simp]: "sent st [] = st" "sent (sent st ps) qs = sent st (ps @ qs)"
  by (simp_all add: sent_def)

lemma reading_sent [simp]: "reading env client c b w (sent st ps) = reading env client c b w st"
  by (simp add: reading_def sent_def)

lemma block_offset:
  assumes "unat b < 2 ^ 46" "k < 65536"
  shows "unat (of_nat k * b :: u64) = k * unat b" "\<not> sint (of_nat k * b :: u64) < 0"
proof -
  have "k * unat b \<le> 65536 * 2 ^ 46" using assms by (intro mult_le_mono) simp_all
  then have l: "k * unat b < 2 ^ 63" by simp
  have k: "unat (of_nat k :: u64) = k" using assms(2) by (simp add: unat_of_nat take_bit_nat_eq_self)
  show u: "unat (of_nat k * b :: u64) = k * unat b" unfolding unat_word_ariths k using l by simp
  have "uint (of_nat k * b) = int (k * unat b)" using u by (metis unsigned_of_nat uint_nat)
  then have "sint (of_nat k * b) = signed_take_bit 63 (int (k * unat b))" unfolding sint_uint by simp
  moreover have "n < 2 ^ 63 \<Longrightarrow> signed_take_bit 63 (int n) = int n" for n by (rule signed_take_bit_int_eq_self) simp_all
  ultimately show "\<not> sint (of_nat k * b :: u64) < 0" using l by (metis of_nat_less_0_iff)
qed

lemma pkt_number:
  assumes "n < 2 ^ 32"
  shows "ucast (drop_bit 8 (of_nat n :: u32)) = (of_nat (n div 256) :: u8)" "ucast (of_nat n :: u32) = (of_nat n :: u8)"
proof -
  have u: "unat (of_nat n :: u32) = n" using assms by (simp add: unat_of_nat take_bit_nat_eq_self)
  have d: "unat (drop_bit 8 (of_nat n :: u32)) = n div 256" using u assms by (simp add: unsigned_drop_bit_eq drop_bit_nat_def take_bit_nat_def)
  show "ucast (drop_bit 8 (of_nat n :: u32)) = (of_nat (n div 256) :: u8)" by (metis d of_nat_unat)
  show "ucast (of_nat n :: u32) = (of_nat n :: u8)" by (metis u of_nat_unat)
qed

lemma send_block:
  assumes "reading env client c b w st" "k < 65536"
  shows "tftp_send_data env client (of_nat (Suc k)) (of_nat k * cblksize client) st =
    Ok (if blocks b c \<le> k then (0, st)
        else (4 + int (length (file_block b c k)), sent st [(csock client, data_pkt (Suc k) (file_block b c k))]))"
proof -
  from assms(1) obtain p pos where r: "tq_fds st (cfd client) = Some (p, pos)" "tq_disk st p = c" "unat (cblksize client) = b"
    "0 < b" "b < 2 ^ 46" "te_pread env" "\<forall>n. te_malloc env n" "\<forall>sock pkt. te_send env sock pkt = int (length pkt)"
    by (auto simp: reading_def)
  have "unat (4 + cblksize client) = 4 + b" using r(3,5) by (simp add: unat_word_ariths)
  moreover have "pread_file env st (cfd client) (cblksize client) (of_nat k * cblksize client) = Some (file_block b c k)"
    using r block_offset [of "cblksize client" k] assms(2) by (simp add: pread_file_def file_block_def)
  ultimately show ?thesis using r file_block_empty [OF r(4), of c k] pkt_number [of "Suc k"] assms(2)
    by (simp add: tftp_send_data_def sys_send_def sent_def data_pkt_def del: of_nat_Suc)
qed

definition block_pkts :: "tftp_client \<Rightarrow> bytes \<Rightarrow> nat \<Rightarrow> nat list \<Rightarrow> (int \<times> bytes) list" where
  "block_pkts client c b ks = map (\<lambda>k. (csock client, data_pkt (Suc k) (file_block b c k))) ks"

lemma u16_counter:
  assumes "k < 65536"
  shows "ucast (of_nat k :: u16) = (of_nat k :: u64)" "(ucast (of_nat k :: u16) :: u32) + 1 = of_nat (Suc k)"
proof -
  have u: "unat (of_nat k :: u16) = k" using assms by (simp add: unat_of_nat take_bit_nat_eq_self)
  show "ucast (of_nat k :: u16) = (of_nat k :: u64)" by (metis u of_nat_unat)
  have "ucast (of_nat k :: u16) = (of_nat k :: u32)" by (metis u of_nat_unat)
  then show "(ucast (of_nat k :: u16) :: u32) + 1 = of_nat (Suc k)" by (simp add: add.commute)
qed

lemma window_guard:
  assumes "k < 65536" "l < 65536" "unat w < 2 ^ 63"
  shows "(ucast (of_nat k :: u16) :: u64) < ucast (of_nat l :: u16) + w \<longleftrightarrow> k < l + unat w"
proof -
  have k: "unat (of_nat k :: u64) = k" "unat (of_nat l :: u64) = l"
    using assms(1,2) by (simp_all add: unat_of_nat take_bit_nat_eq_self)
  have "unat (of_nat l + w :: u64) = l + unat w" using assms k(2) by (simp add: unat_word_ariths)
  then show ?thesis unfolding u16_counter(1) [OF assms(1)] u16_counter(1) [OF assms(2)] by (simp add: word_less_nat_alt k)
qed

lemma window_ok:
  assumes "reading env client c b w st" "l + w \<le> 65535" "l \<le> k" "k \<le> l + w"
  shows "send_window env client (of_nat l) (of_nat k) st =
    Some (Ok (sent st (block_pkts client c b [k..<min (l + w) (blocks b c)])))"
  using assms
proof (induction "l + w - k" arbitrary: k st)
  case 0
  then have "k = l + w" by simp
  then show ?case using window_guard [of k l "cwsize client"] 0 by (subst send_window.simps) (auto simp: reading_def block_pkts_def)
next
  case (Suc d)
  then have k: "k < l + w" "k < 65536" by auto
  have g: "(ucast (of_nat k :: u16) :: u64) < ucast (of_nat l :: u16) + cwsize client"
    using window_guard [of k l "cwsize client"] Suc.prems k by (auto simp: reading_def)
  note s = send_block [OF Suc.prems(1) k(2)]
  have n: "(of_nat k :: u16) + 1 = of_nat (Suc k)" by (simp add: add.commute)
  show ?case
  proof (cases "blocks b c \<le> k")
    case True
    then show ?thesis using g s by (subst send_window.simps) (simp add: u16_counter [OF k(2)] block_pkts_def del: of_nat_Suc)
  next
    case False
    let ?st = "sent st [(csock client, data_pkt (Suc k) (file_block b c k))]"
    have "send_window env client (of_nat l) (of_nat (Suc k)) ?st =
        Some (Ok (sent ?st (block_pkts client c b [Suc k..<min (l + w) (blocks b c)])))"
      by (rule Suc.hyps(1)) (use Suc.hyps(2) Suc.prems k in auto)
    moreover have "[k..<min (l + w) (blocks b c)] = k # [Suc k..<min (l + w) (blocks b c)]"
      using False k by (intro upt_conv_Cons) simp
    ultimately show ?thesis using g s False
      by (subst send_window.simps) (simp add: u16_counter [OF k(2)] n block_pkts_def del: of_nat_Suc)
  qed
qed

section \<open>Reading a file\<close>

definition ack_pkt :: "nat \<Rightarrow> bytes" where
  "ack_pkt n = [0, 4, of_nat (n div 256), of_nat n]"

lemma be16_pkt: "be16 ([x, y, of_nat (n div 256), of_nat n] @ zs) 2 = of_nat n"
proof -
  have "n div 256 = drop_bit 8 n" by (simp add: drop_bit_nat_def)
  then show ?thesis by (intro bit_word_eqI) (auto simp: be16_def bit_simps)
qed

lemma reader_ack:
  assumes "l < 65536"
  shows "handle_reader env client (Inr (ack_pkt l, csq client)) stale st =
    map_option (\<lambda>r. cbind r (\<lambda>st. Ok (1, st))) (send_window env client (of_nat l) (of_nat l) st)"
proof -
  have "be16 (ack_pkt l @ zs) 2 = of_nat l" "be16 (ack_pkt l @ zs) 0 = 4" for zs
    using be16_pkt [of 0 4 l zs] by (simp_all add: ack_pkt_def be16_def)
  then show ?thesis by (simp add: handle_reader_def)
qed

text \<open>The server while the client acknowledges one block after the other; each time the transfer goes on.\<close>

fun ack_run :: "tq_env \<Rightarrow> tftp_client \<Rightarrow> bytes \<Rightarrow> nat list \<Rightarrow> tq \<Rightarrow> tq cres option" where
  "ack_run env client stale [] st = Some (Ok st)"
| "ack_run env client stale (l # ls) st = (case handle_reader env client (Inr (ack_pkt l, csq client)) stale st of
     Some (Ok (ret, st)) \<Rightarrow> if ret > 0 then ack_run env client stale ls st else Some (Ok st)
   | Some _ \<Rightarrow> Some UB
   | None \<Rightarrow> None)"

lemma ack_run_append:
  "ack_run env client stale ls st = Some (Ok st1) \<Longrightarrow> reading env client c b w st \<Longrightarrow> (\<forall>l \<in> set ls. l + w \<le> 65535) \<Longrightarrow>
    ack_run env client stale (ls @ ls') st = ack_run env client stale ls' st1"
proof (induction ls arbitrary: st)
  case (Cons l ls)
  then show ?case using window_ok [of env client c b w st l l] reader_ack [of l env client stale st] by simp
qed simp

lemma ack_windows:
  assumes "reading env client c b w st" "m * w \<le> 65535" "0 < w"
  shows "ack_run env client stale (map (\<lambda>i. i * w) [0..<m]) st = Some (Ok (sent st (block_pkts client c b [0..<min (m * w) (blocks b c)])))"
  using assms(2)
proof (induction m)
  case 0
  then show ?case by (simp add: block_pkts_def)
next
  case (Suc m)
  let ?st = "sent st (block_pkts client c b [0..<min (m * w) (blocks b c)])"
  have l: "m * w + w \<le> 65535" "m * w < 65536" using Suc.prems by auto
  have "\<forall>l \<in> set (map (\<lambda>i. i * w) [0..<m]). l + w \<le> 65535"
  proof
    fix l assume "l \<in> set (map (\<lambda>i. i * w) [0..<m])"
    then obtain i where "i < m" "l = i * w" by auto
    then have "l + w \<le> m * w" by (metis Suc_leI add.commute mult_Suc mult_le_mono1)
    then show "l + w \<le> 65535" using l by linarith
  qed
  moreover have "ack_run env client stale (map (\<lambda>i. i * w) [0..<m]) st = Some (Ok ?st)" using Suc by simp
  ultimately have "ack_run env client stale (map (\<lambda>i. i * w) [0..<m] @ [m * w]) st = ack_run env client stale [m * w] ?st"
    using ack_run_append assms(1) by blast
  moreover have "ack_run env client stale [m * w] ?st =
      Some (Ok (sent ?st (block_pkts client c b [m * w..<min (m * w + w) (blocks b c)])))"
    using window_ok [of env client c b w ?st "m * w" "m * w"] reader_ack [OF l(2), of env client stale ?st] assms(1) l(1) by simp
  moreover have "[0..<min (m * w) (blocks b c)] @ [m * w..<min (m * w + w) (blocks b c)] = [0..<min (Suc m * w) (blocks b c)]"
  proof (cases "m * w \<le> blocks b c")
    case True
    then show ?thesis using upt_add_eq_append [of 0 "m * w" "min w (blocks b c - m * w)"]
      by (simp add: min_def add.commute split: if_splits)
  qed simp
  moreover have "map (\<lambda>i. i * w) [0..<Suc m] = map (\<lambda>i. i * w) [0..<m] @ [m * w]" by simp
  moreover have "block_pkts client c b (xs @ ys) = block_pkts client c b xs @ block_pkts client c b ys" for xs ys by (simp add: block_pkts_def)
  ultimately show ?case by (simp only: sent_simps) metis
qed


definition demo_tq_env :: tq_env where
  "demo_tq_env = \<lparr>te_tr = demo_tr, te_sock = 5, te_connect = 0, te_fd = 6, te_malloc = (\<lambda>_. True), te_send = (\<lambda>_ pkt. int (length pkt)),
     te_pread = True, te_write = (\<lambda>bs. int (length bs))\<rparr>"

definition demo_client :: tftp_client where
  "demo_client = \<lparr>csq = \<lparr>sq_family = 42, sq_node = 0, sq_port = 9\<rparr>, csock = 5, cfd = 6, cblksize = 2, crsize = 0, cwsize = 2, ctimeoutms = 1000\<rparr>"

definition demo_tq :: tq where
  "demo_tq = \<lparr>readers = [demo_client], writers = [], tq_fds = [6 \<mapsto> (str ''f'', 0)], tq_disk = (\<lambda>_. [1, 2, 3, 4, 5]), tq_sent = []\<rparr>"

lemma demo_reading: "reading demo_tq_env demo_client [1, 2, 3, 4, 5] 2 2 demo_tq"
  by (simp add: reading_def demo_tq_env_def demo_client_def demo_tq_def)


section \<open>Transfers that do not end\<close>

lemma window_diverges:
  assumes "reading env client c b w st" "65535 < l + w" "l < 65536" "65536 * b \<le> length c"
  shows "send_window env client (of_nat l) block st = None"
proof -
  have "lst = of_nat l \<longrightarrow> \<not> reading env client c b w st" if "send_window env client lst block st = Some r" for env client lst block st r
  proof (rule send_window.raw_induct [OF _ that])
    fix f :: "tq_env \<Rightarrow> tftp_client \<Rightarrow> u16 \<Rightarrow> u16 \<Rightarrow> tq \<Rightarrow> tq cres option" and env client lst block st r
    assume ih: "\<And>env client lst block st r. f env client lst block st = Some r \<Longrightarrow> lst = of_nat l \<longrightarrow> \<not> reading env client c b w st"
      and e: "(if (ucast block :: u64) < ucast lst + cwsize client then
         (case tftp_send_data env client (ucast block + 1) (ucast block * cblksize client) st of
            Ok r \<Rightarrow> if fst r \<le> 0 then Some (Ok (snd r)) else f env client lst (block + 1) (snd r)
          | _ \<Rightarrow> Some UB)
       else Some (Ok st)) = Some r"
    show "lst = of_nat l \<longrightarrow> \<not> reading env client c b w st"
    proof (intro impI notI)
      assume l: "lst = of_nat l" and r: "reading env client c b w st"
      let ?k = "unat block"
      have "?k < 2 ^ LENGTH(16)" by (rule unsigned_less)
      then have k: "?k < 65536" "of_nat ?k = block" by simp_all
      have "?k * b < 65536 * b" using k(1) r by (simp add: reading_def)
      then have "?k * b < length c" using assms(4) by linarith
      then have n: "\<not> blocks b c \<le> ?k" using blocks_iff [of b ?k c] r by (simp add: reading_def)
      have s: "tftp_send_data env client (ucast block + 1) (ucast block * cblksize client) st =
          Ok (4 + int (length (file_block b c ?k)), sent st [(csock client, data_pkt (Suc ?k) (file_block b c ?k))])"
        unfolding u16_counter [OF k(1), unfolded k(2)] send_block [OF r k(1)] if_not_P [OF n] by (rule refl)
      have "(ucast block :: u64) < ucast lst + cwsize client"
        using window_guard [OF k(1) assms(3), of "cwsize client"] assms(2) k l r by (auto simp: reading_def)
      with e s have "f env client lst (block + 1) (sent st [(csock client, data_pkt (Suc ?k) (file_block b c ?k))]) = Some r" by simp
      from ih [OF this] l r show False by simp
    qed
  qed
  then show ?thesis using assms(1) by (cases "send_window env client (of_nat l) block st") auto
qed

text \<open>
  C32: transfers that the server cannot finish. Without the option \<open>wsize\<close> the window is 0 blocks and every
  acknowledgement of the client is answered with nothing: a plain TFTP read ends after its first block.
  And when a window reaches beyond block 65535 of a file that is at least 65536 blocks long, the counter
  wraps around before it gets to the end of the window: the server sends the file again and again and never
  returns to its other clients.
\<close>

theorem reader_stuck:
  assumes "reading env client c b w st" "l < 65536"
  shows "(w = 0 \<longrightarrow> handle_reader env client (Inr (ack_pkt l, csq client)) stale st = Some (Ok (1, st))) \<and>
    (65535 < l + w \<and> 65536 * b \<le> length c \<longrightarrow> handle_reader env client (Inr (ack_pkt l, csq client)) stale st = None)"
proof (intro conjI impI)
  assume w: "w = 0"
  then have "send_window env client (of_nat l) (of_nat l) st = Some (Ok (sent st (block_pkts client c b [l..<min l (blocks b c)])))"
    using window_ok [OF assms(1), of l l] assms(2) by simp
  moreover have "[l..<min l (blocks b c)] = []" by simp
  ultimately show "handle_reader env client (Inr (ack_pkt l, csq client)) stale st = Some (Ok (1, st))"
    unfolding reader_ack [OF assms(2)] by (simp add: block_pkts_def)
next
  assume "65535 < l + w \<and> 65536 * b \<le> length c"
  then show "handle_reader env client (Inr (ack_pkt l, csq client)) stale st = None"
    using window_diverges [OF assms(1) _ assms(2)] unfolding reader_ack [OF assms(2)] by simp
qed

definition big_tq :: tq where
  "big_tq = demo_tq\<lparr>tq_disk := (\<lambda>_. replicate 131072 7)\<rparr>"

theorem reader_stuck_witness:
  "handle_reader demo_tq_env (demo_client\<lparr>cwsize := 0\<rparr>) (Inr (ack_pkt 1, csq demo_client)) [] demo_tq = Some (Ok (1, demo_tq)) \<and>
   handle_reader demo_tq_env demo_client (Inr (ack_pkt 65534, csq demo_client)) [] big_tq = None"
proof -
  have "reading demo_tq_env (demo_client\<lparr>cwsize := 0\<rparr>) [1, 2, 3, 4, 5] 2 0 demo_tq"
    by (simp add: reading_def demo_tq_env_def demo_client_def demo_tq_def)
  from reader_stuck [OF this, of 1 "[]"]
  have "handle_reader demo_tq_env (demo_client\<lparr>cwsize := 0\<rparr>) (Inr (ack_pkt 1, csq demo_client)) [] demo_tq = Some (Ok (1, demo_tq))" by simp
  moreover have "reading demo_tq_env demo_client (replicate 131072 7) 2 2 big_tq"
    by (simp add: reading_def demo_tq_env_def demo_client_def demo_tq_def big_tq_def)
  from reader_stuck [OF this, of 65534 "[]"] have "handle_reader demo_tq_env demo_client (Inr (ack_pkt 65534, csq demo_client)) [] big_tq = None" by simp
  ultimately show ?thesis ..
qed

section \<open>Writing a file\<close>

text \<open>The server while the client sends packets with these numbers and data, until the server closes the transfer.\<close>

fun data_run :: "tq_env \<Rightarrow> tftp_client \<Rightarrow> bytes \<Rightarrow> (nat \<times> bytes) list \<Rightarrow> tq \<Rightarrow> (int list \<times> tq) cres" where
  "data_run env client stale [] st = Ok ([], st)"
| "data_run env client stale ((n, bs) # ds) st =
    cbind (handle_writer env client (Inr (data_pkt n bs, csq client)) stale st) (\<lambda>(ret, st).
      if ret \<le> 0 then Ok ([ret], st) else cbind (data_run env client stale ds st) (\<lambda>(rets, st). Ok (ret # rets, st)))"

definition writing :: "tq_env \<Rightarrow> tftp_client \<Rightarrow> bytes \<Rightarrow> nat \<Rightarrow> tq \<Rightarrow> bool" where
  "writing env client p pos st \<longleftrightarrow> tq_fds st (cfd client) = Some (p, pos) \<and> (\<forall>bs. te_write env bs = int (length bs)) \<and>
     (\<forall>sock pkt. te_send env sock pkt = int (length pkt))"

lemma overwrite_0: "overwrite c 0 bs = bs @ drop (length bs) c"
  by (simp add: overwrite_def)

lemma overwrite_next: "overwrite (overwrite c 0 as) (length as) bs = overwrite c 0 (as @ bs)"
  by (simp add: overwrite_def add.commute)

lemma ack_bytes: "[0, 4, ucast (drop_bit 8 (of_nat n :: u16)), ucast (of_nat n :: u16)] = ack_pkt n" if "n < 65536"
proof -
  have u: "unat (of_nat n :: u16) = n" using that by (simp add: unat_of_nat take_bit_nat_eq_self)
  have d: "unat (drop_bit 8 (of_nat n :: u16)) = n div 256" using u that by (simp add: unsigned_drop_bit_eq drop_bit_nat_def take_bit_nat_def)
  have "ucast (drop_bit 8 (of_nat n :: u16)) = (of_nat (n div 256) :: u8)" by (metis d of_nat_unat)
  moreover have "ucast (of_nat n :: u16) = (of_nat n :: u8)" by (metis u of_nat_unat)
  ultimately show ?thesis by (simp add: ack_pkt_def)
qed

lemma writer_step:
  assumes "writing env client p (length as) st" "tq_disk st p = overwrite c 0 as" "n < 65536"
  shows "\<exists>st'. handle_writer env client (Inr (data_pkt n bs, csq client)) stale st = Ok (if length bs = 512 then 1 else 0, st') \<and>
    writing env client p (length (as @ bs)) st' \<and> tq_disk st' = (tq_disk st)(p := overwrite c 0 (as @ bs)) \<and>
    tq_sent st' = tq_sent st @ [(csock client, ack_pkt n)] \<and> readers st' = readers st \<and> writers st' = writers st"
proof -
  have o: "be16 (data_pkt n bs @ zs) 2 = of_nat n" "be16 (data_pkt n bs @ zs) 0 = 3" for zs
    using be16_pkt [of 0 3 n "bs @ zs"] by (simp_all add: data_pkt_def be16_def)
  have l: "drop 4 (data_pkt n bs) = bs" "\<not> length (data_pkt n bs) < 4" by (simp_all add: data_pkt_def)
  show ?thesis using assms(1,2) ack_bytes [OF assms(3)] overwrite_next [of c as bs]
    by (simp add: handle_writer_def o l write_file_def writing_def tftp_send_ack_def sys_send_def)
qed

lemma writer_run:
  "writing env client p (length as) st \<Longrightarrow> tq_disk st p = overwrite c 0 as \<Longrightarrow> ds \<noteq> [] \<Longrightarrow> \<forall>(n, bs) \<in> set ds. n < 65536 \<Longrightarrow>
    \<forall>(n, bs) \<in> set (butlast ds). length bs = 512 \<Longrightarrow> length (snd (last ds)) < 512 \<Longrightarrow>
    \<exists>st'. data_run env client stale ds st = Ok (replicate (length ds - 1) 1 @ [0], st') \<and>
      tq_disk st' = (tq_disk st)(p := overwrite c 0 (as @ concat (map snd ds))) \<and>
      tq_sent st' = tq_sent st @ map (\<lambda>(n, bs). (csock client, ack_pkt n)) ds"
proof (induction ds arbitrary: as st)
  case (Cons d ds)
  obtain n bs where d: "d = (n, bs)" by (cases d)
  obtain st1 where s: "handle_writer env client (Inr (data_pkt n bs, csq client)) stale st = Ok (if length bs = 512 then 1 else 0, st1)"
      "writing env client p (length (as @ bs)) st1" "tq_disk st1 = (tq_disk st)(p := overwrite c 0 (as @ bs))"
      "tq_sent st1 = tq_sent st @ [(csock client, ack_pkt n)]"
    using writer_step [OF Cons.prems(1,2), of n bs stale] Cons.prems(4) d by auto
  show ?case
  proof (cases "ds = []")
    case True
    then show ?thesis using s d Cons.prems(6) by auto
  next
    case False
    then have "length bs = 512" using Cons.prems(5) d by simp
    moreover have r: "tq_disk st1 p = overwrite c 0 (as @ bs)" "\<forall>(n, bs) \<in> set ds. n < 65536"
        "\<forall>(n, bs) \<in> set (butlast ds). length bs = 512" "length (snd (last ds)) < 512"
      using s(3) Cons.prems(4-6) False by simp_all
    obtain st' where "data_run env client stale ds st1 = Ok (replicate (length ds - 1) 1 @ [0], st')"
        "tq_disk st' = (tq_disk st1)(p := overwrite c 0 ((as @ bs) @ concat (map snd ds)))"
        "tq_sent st' = tq_sent st1 @ map (\<lambda>(n, bs). (csock client, ack_pkt n)) ds"
      using Cons.IH [OF s(2) r(1) False r(2-4)] by blast
    moreover have "replicate (length ds) 1 = (1 :: int) # replicate (length ds - 1) 1" using False by (cases ds) auto
    ultimately show ?thesis using s d by (simp add: fun_eq_iff)
  qed
qed simp

text \<open>
  C16: a client that writes leaves its data in the file: full blocks of 512 bytes and then a shorter one
  are stored one behind the other from the beginning of the file, each is acknowledged with its number,
  and the transfer is closed after the last. The numbers are not looked at: a block that the client
  repeats is stored twice. What the file had before behind the new data stays there.
\<close>

theorem writer_stores:
  assumes "writing env client p 0 st" "ds \<noteq> []" "\<forall>(n, bs) \<in> set ds. n < 65536"
    "\<forall>(n, bs) \<in> set (butlast ds). length bs = 512" "length (snd (last ds)) < 512"
  shows "\<exists>st'. data_run env client stale ds st = Ok (replicate (length ds - 1) 1 @ [0], st') \<and>
    tq_disk st' = (tq_disk st)(p := concat (map snd ds) @ drop (length (concat (map snd ds))) (tq_disk st p)) \<and>
    tq_sent st' = tq_sent st @ map (\<lambda>(n, bs). (csock client, ack_pkt n)) ds"
proof -
  have "tq_disk st p = overwrite (tq_disk st p) 0 []" by (simp add: overwrite_def)
  from writer_run [OF _ this assms(2-5), of env client] assms(1) show ?thesis by (simp add: overwrite_0)
qed

theorem writer_stores_witness:
  "\<exists>st'. data_run demo_tq_env demo_client [] [(1, replicate 512 7), (1, replicate 512 7), (2, [9])] demo_tq = Ok ([1, 1, 0], st') \<and>
    tq_disk st' (str ''f'') = replicate 512 7 @ replicate 512 7 @ [9]"
proof -
  have "writing demo_tq_env demo_client (str ''f'') 0 demo_tq"
    by (simp add: writing_def demo_tq_env_def demo_client_def demo_tq_def)
  moreover define ds :: "(nat \<times> bytes) list" where "ds = [(1, replicate 512 7), (1, replicate 512 7), (2, [9])]"
  have "ds \<noteq> []" "\<forall>(n, bs) \<in> set ds. n < 65536" "\<forall>(n, bs) \<in> set (butlast ds). length bs = 512" "length (snd (last ds)) < 512"
    by (simp_all add: ds_def)
  ultimately obtain st' where "data_run demo_tq_env demo_client [] ds demo_tq = Ok (replicate (length ds - 1) 1 @ [0], st')"
      "tq_disk st' (str ''f'') = concat (map snd ds) @ drop (length (concat (map snd ds))) (tq_disk demo_tq (str ''f''))"
    using writer_stores [of demo_tq_env demo_client "str ''f''" demo_tq ds "[]"] by force
  moreover have "replicate (length ds - 1) 1 @ [0] = [1, 1, 0 :: int]" by (simp add: ds_def numeral_2_eq_2)
  moreover have "concat (map snd ds) = replicate 512 7 @ replicate 512 7 @ [9]" by (simp add: ds_def)
  moreover have "length (tq_disk demo_tq (str ''f'')) = 5" by (simp add: demo_tq_def)
  ultimately show ?thesis unfolding ds_def [symmetric] by (intro exI [of _ st']) simp
qed

end
