(* ===== verification/Tqftp_Server.thy ===== *)
theory Tqftp_Server
  imports Tqftp_Transfer
begin

text \<open>
  The clients of the file server over its rounds: every client has its own socket and an open file of
  its own, and none of them is the control port.
\<close>

section \<open>The invariant\<close>

definition clients :: "tq \<Rightarrow> tftp_client list" where
  "clients st = readers st @ writers st"

definition tq_ok :: "tq \<Rightarrow> bool" where
  "tq_ok st \<longleftrightarrow> distinct (map csock (clients st)) \<and> distinct (map cfd (clients st)) \<and>
     (\<forall>c \<in> set (clients st). sq_port (csq c) \<noteq> QRTR_PORT_CTRL \<and> cfd c \<in> dom (tq_fds st))"

text \<open>The kernel hands out descriptors that are not in use.\<close>

definition fresh_env :: "tq \<Rightarrow> tq_env \<Rightarrow> bool" where
  "fresh_env st env \<longleftrightarrow> te_sock env \<notin> csock ` set (clients st) \<and> te_fd env \<notin> dom (tq_fds st)"

text \<open>A step that keeps the clients and the set of open files, and one that only takes away from them.\<close>

definition framed :: "tq \<Rightarrow> tq \<Rightarrow> bool" where
  "framed st st' \<longleftrightarrow> readers st' = readers st \<and> writers st' = writers st \<and> dom (tq_fds st') = dom (tq_fds st)"

definition shrunk :: "tq \<Rightarrow> tq \<Rightarrow> bool" where
  "shrunk st st' \<longleftrightarrow> set (readers st') \<subseteq> set (readers st) \<and> set (writers st') \<subseteq> set (writers st) \<and> dom (tq_fds st') \<subseteq> dom (tq_fds st)"

lemma framed_refl [simp]: "framed st st"
  by (simp add: framed_def)

lemma framed_trans: "framed st st1 \<Longrightarrow> framed st1 st2 \<Longrightarrow> framed st st2"
  by (simp add: framed_def)

lemma framed_ok: "framed st st' \<Longrightarrow> tq_ok st \<Longrightarrow> tq_ok st'"
  unfolding framed_def tq_ok_def clients_def by metis

lemma framed_shrunk: "framed st st' \<Longrightarrow> shrunk st st'"
  by (simp add: framed_def shrunk_def)

lemma shrunk_trans: "shrunk st st1 \<Longrightarrow> shrunk st1 st2 \<Longrightarrow> shrunk st st2"
  unfolding shrunk_def by (meson subset_trans)

lemma shrunk_fresh: "shrunk st st' \<Longrightarrow> fresh_env st env \<Longrightarrow> fresh_env st' env"
  unfolding shrunk_def fresh_env_def clients_def set_append by blast

section \<open>Handlers\<close>

lemma framed_send [simp]: "framed st (snd (sys_send env sock pkt st))"
  by (simp add: sys_send_def framed_def Let_def)

lemma framed_simple [simp]:
  "framed st (snd (tftp_send_ack env sock block st))" "framed st (snd (tftp_send_error env sock code msg st))"
  "tftp_send_data env client n off st = Ok r \<Longrightarrow> framed st (snd r)"
  "tftp_send_oack env sock a b c d e st = Ok r \<Longrightarrow> framed st (snd r)"
  by (auto simp: tftp_send_ack_def tftp_send_error_def tftp_send_data_def tftp_send_oack_def Let_def split: option.splits if_splits)

lemma framed_write: "framed st (snd (write_file env fd bs st))"
  by (auto simp: write_file_def framed_def Let_def split: option.splits)

lemma framed_window: "send_window env client lst block st = Some r \<Longrightarrow> r = Ok st' \<Longrightarrow> framed st st'"
proof -
  have "\<forall>st'. r = Ok st' \<longrightarrow> framed st st'" if "send_window env client lst block st = Some r" for env client lst block st r
  proof (rule send_window.raw_induct [OF _ that])
    fix f :: "tq_env \<Rightarrow> tftp_client \<Rightarrow> u16 \<Rightarrow> u16 \<Rightarrow> tq \<Rightarrow> tq cres option" and env client lst block st r
    assume ih: "\<And>env client lst block st r. f env client lst block st = Some r \<Longrightarrow> \<forall>st'. r = Ok st' \<longrightarrow> framed st st'"
      and e: "(if (ucast block :: u64) < ucast lst + cwsize client then
         (case tftp_send_data env client (ucast block + 1) (ucast block * cblksize client) st of
            Ok r \<Rightarrow> if fst r \<le> 0 then Some (Ok (snd r)) else f env client lst (block + 1) (snd r)
          | _ \<Rightarrow> Some UB)
       else Some (Ok st)) = Some r"
    show "\<forall>st'. r = Ok st' \<longrightarrow> framed st st'"
      using e ih by (fastforce split: if_splits cres.splits dest: framed_simple(3) intro: framed_trans)
  qed
  then show "send_window env client lst block st = Some r \<Longrightarrow> r = Ok st' \<Longrightarrow> framed st st'" by blast
qed

lemma framed_write_result: "write_file env fd bs st = (ret, st1) \<Longrightarrow> framed st st1"
  using framed_write by (metis snd_conv)

lemma framed_ack: "write_file env fd bs st = (ret, st1) \<Longrightarrow> framed st (snd (tftp_send_ack env sock block st1))"
  using framed_trans [OF framed_write framed_simple(1)] by (metis snd_conv)

lemma framed_writer: "handle_writer env client recv stale st = Ok (ret, st') \<Longrightarrow> framed st st'"
  by (auto simp: handle_writer_def Let_def split: sum.splits prod.splits if_splits intro: framed_write_result framed_ack)

lemma framed_reader: "handle_reader env client recv stale st = Some (Ok (ret, st')) \<Longrightarrow> framed st st'"
  by (auto simp: handle_reader_def Let_def split: sum.splits prod.splits if_splits dest: framed_window)

section \<open>Closing\<close>

lemma close_ok:
  assumes "tq_ok st" "c \<in> set (if w then writers st else readers st)"
  shows "tq_ok (client_close_and_free w c st)" "shrunk st (client_close_and_free w c st)"
    "set (if w then writers st else readers st) - {c} \<subseteq> set (if w then writers (client_close_and_free w c st) else readers (client_close_and_free w c st))"
proof -
  have d: "inj_on cfd (set (clients st))" "distinct (clients st)" "inj_on csock (set (clients st))"
    using assms(1) by (auto simp: tq_ok_def distinct_map)
  let ?st = "client_close_and_free w c st"
  have s: "set (clients ?st) = set (clients st) - {c}" "distinct (clients ?st)"
    using d(2) assms(2) by (auto simp: clients_def client_close_and_free_def close_fd_def set_remove1_eq split: if_splits)
  then have "distinct (map cfd (clients ?st))" "distinct (map csock (clients ?st))"
    using d by (auto simp: distinct_map intro: inj_on_subset)
  moreover have "cfd c' \<in> dom (tq_fds ?st)" if "c' \<in> set (clients st) - {c}" for c'
  proof -
    have "c \<in> set (clients st)" using assms(2) by (auto simp: clients_def split: if_splits)
    then have "cfd c' \<noteq> cfd c" using that d(1) by (auto dest: inj_onD)
    moreover have "cfd c' \<in> dom (tq_fds st)" using that assms(1) by (simp add: tq_ok_def)
    ultimately show ?thesis by (auto simp: client_close_and_free_def close_fd_def)
  qed
  ultimately show "tq_ok ?st" using assms(1) unfolding tq_ok_def s(1) by blast
  show "shrunk st ?st" by (auto simp: shrunk_def client_close_and_free_def close_fd_def dest: in_set_remove1 [THEN iffD1, rotated] notin_set_remove1 split: if_splits)
  show "set (if w then writers st else readers st) - {c} \<subseteq> set (if w then writers ?st else readers ?st)"
    by (auto simp: client_close_and_free_def close_fd_def) (metis in_set_remove1)+
qed

lemma close_other:
  "readers (client_close_and_free True c st) = readers st" "writers (client_close_and_free False c st) = writers st"
  by (simp_all add: client_close_and_free_def close_fd_def)

section \<open>Rounds\<close>

text \<open>What a pass over the clients of one kind keeps: the invariant, and the clients still to visit.\<close>

lemma served_ok:
  assumes "tq_ok st" "framed st st1" "c \<notin> set cs" "set (c # cs) \<subseteq> set (if w then writers st else readers st)"
    and st2_def: "st2 = (if closing then client_close_and_free w c st1 else st1)"
  shows "tq_ok st2" "shrunk st st2" "set cs \<subseteq> set (if w then writers st2 else readers st2)"
proof -
  have e: "writers st1 = writers st" "readers st1 = readers st" using assms(2) by (simp_all add: framed_def)
  have ok: "tq_ok st1" "shrunk st st1" "set (c # cs) \<subseteq> set (if w then writers st1 else readers st1)"
    using framed_ok [OF assms(2,1)] framed_shrunk [OF assms(2)] assms(4) unfolding e by blast+
  then have c: "c \<in> set (if w then writers st1 else readers st1)" by (simp only: list.set_intros subsetD)
  note k = close_ok [OF ok(1) c]
  show "tq_ok st2" using ok(1) k(1) by (simp add: st2_def)
  show "shrunk st st2" using ok(2) shrunk_trans [OF ok(2) k(2)] by (simp add: st2_def)
  have "set cs \<subseteq> set (if w then writers st1 else readers st1) - {c}" using ok(3) assms(3) by auto
  then have "set cs \<subseteq> set (if w then writers (client_close_and_free w c st1) else readers (client_close_and_free w c st1))"
    using k(3) by (rule subset_trans)
  then show "set cs \<subseteq> set (if w then writers st2 else readers st2)" using ok(3) by (auto simp: st2_def)
qed

lemma shrunk_refl [simp]: "shrunk st st"
  by (simp add: shrunk_def)

lemma writer_pass_ok:
  "writer_pass inp cs st = Ok st' \<Longrightarrow> tq_ok st \<Longrightarrow> distinct cs \<Longrightarrow> set cs \<subseteq> set (writers st) \<Longrightarrow> tq_ok st' \<and> shrunk st st'"
proof (induction cs arbitrary: st)
  case (Cons c cs)
  show ?case
  proof (cases "inp (csock c)")
    case (Some x)
    obtain env recv stale where x: "x = (env, recv, stale)" by (cases x)
    from Cons.prems(1) Some x obtain ret st1 where h: "handle_writer env c recv stale st = Ok (ret, st1)"
        "writer_pass inp cs (if ret \<le> 0 then client_close_and_free True c st1 else st1) = Ok st'"
      by (cases "handle_writer env c recv stale st") auto
    have k: "c \<notin> set cs" "set (c # cs) \<subseteq> set (if True then writers st else readers st)" using Cons.prems(3,4) by simp_all
    note s = served_ok [OF Cons.prems(2) framed_writer [OF h(1)] k refl, of "ret \<le> 0"]
    have "distinct cs" using Cons.prems(3) by simp
    from Cons.IH [OF h(2) s(1) this] s(2,3) show ?thesis by (simp only: if_True) (blast intro: shrunk_trans)
  qed (use Cons in simp)
qed simp

lemma reader_pass_ok:
  "reader_pass inp cs st = Some (Ok st') \<Longrightarrow> tq_ok st \<Longrightarrow> distinct cs \<Longrightarrow> set cs \<subseteq> set (readers st) \<Longrightarrow> tq_ok st' \<and> shrunk st st'"
proof (induction cs arbitrary: st)
  case (Cons c cs)
  show ?case
  proof (cases "inp (csock c)")
    case (Some x)
    obtain env recv stale where x: "x = (env, recv, stale)" by (cases x)
    from Cons.prems(1) Some x obtain ret st1 where h: "handle_reader env c recv stale st = Some (Ok (ret, st1))"
        "reader_pass inp cs (if ret \<le> 0 then client_close_and_free False c st1 else st1) = Some (Ok st')"
      by (auto split: option.splits cres.splits)
    have k: "c \<notin> set cs" "set (c # cs) \<subseteq> set (if False then writers st else readers st)" using Cons.prems(3,4) by simp_all
    note s = served_ok [OF Cons.prems(2) framed_reader [OF h(1)] k refl, of "ret \<le> 0"]
    have "distinct cs" using Cons.prems(3) by simp
    from Cons.IH [OF h(2) s(1) this] s(2,3) show ?thesis by (simp only: if_False) (blast intro: shrunk_trans)
  qed (use Cons in simp)
qed simp

section \<open>The listening socket\<close>

lemma drop_writers_fold:
  "tq_ok st \<Longrightarrow> distinct cs \<Longrightarrow> set cs \<subseteq> set (writers st) \<Longrightarrow>
   st' = fold (\<lambda>c st. if P c then client_close_and_free True c st else st) cs st \<Longrightarrow>
   tq_ok st' \<and> set (writers st') = set (writers st) - {c \<in> set cs. P c} \<and> readers st' = readers st"
proof (induction cs arbitrary: st)
  case (Cons c cs)
  let ?st = "if P c then client_close_and_free True c st else st"
  have k: "c \<notin> set cs" "set (c # cs) \<subseteq> set (if True then writers st else readers st)" using Cons.prems(2,3) by simp_all
  note s = served_ok [OF Cons.prems(1) framed_refl k refl, of "P c", unfolded if_True]
  have d: "distinct (writers st)" using Cons.prems(1) by (auto simp: tq_ok_def clients_def distinct_map)
  have "distinct cs" using Cons.prems(2) by simp
  from Cons.IH [OF s(1) this s(3)] Cons.prems(4)
  have "tq_ok st' \<and> set (writers st') = set (writers ?st) - {c \<in> set cs. P c} \<and> readers st' = readers ?st" by simp
  moreover have "set (writers ?st) = set (writers st) - (if P c then {c} else {})" "readers ?st = readers st"
    using d by (auto simp: client_close_and_free_def close_fd_def)
  ultimately show ?case by auto
qed simp

lemma drop_writers_ok:
  assumes "tq_ok st"
  shows "tq_ok (drop_writers P st) \<and> set (writers (drop_writers P st)) = {c \<in> set (writers st). \<not> P c} \<and>
    readers (drop_writers P st) = readers st"
proof -
  have "distinct (writers st)" using assms by (auto simp: tq_ok_def clients_def distinct_map)
  from drop_writers_fold [OF assms this subset_refl drop_writers_def [of P st]] show ?thesis by auto
qed

lemma added_ok:
  assumes "tq_ok st" "fresh_env st env" "sq_port sq \<noteq> QRTR_PORT_CTRL" "csq c = sq" "csock c = te_sock env" "cfd c = te_fd env"
    and "tq_fds st' = (tq_fds st)(te_fd env \<mapsto> pos)" "readers st' @ writers st' = rs @ c # ws" "clients st = rs @ ws"
  shows "tq_ok st'"
proof -
  have "te_fd env \<notin> cfd ` set (clients st)" using assms(1,2) by (auto simp: tq_ok_def fresh_env_def)
  then show ?thesis using assms by (auto simp: tq_ok_def fresh_env_def clients_def [of st'])
qed

definition yields :: "('a \<Rightarrow> bool) \<Rightarrow> 'a cres \<Rightarrow> bool" where
  "yields P r \<longleftrightarrow> (\<forall>x. r = Ok x \<longrightarrow> P x)"

lemma yields_bind [intro!]: "(\<And>a. r = Ok a \<Longrightarrow> yields P (f a)) \<Longrightarrow> yields P (cbind r f)"
  by (auto simp: yields_def)

lemma yields_Ok [simp]: "yields P (Ok x) = P x"
  by (simp add: yields_def)

lemma handle_rrq_ok:
  assumes "handle_rrq env buf len sq st = Ok st'" "tq_ok st" "fresh_env st env" "sq_port sq \<noteq> QRTR_PORT_CTRL"
  shows "tq_ok st'"
proof -
  have added: "tq_ok (st\<lparr>tq_fds := (tq_fds st)(te_fd env \<mapsto> (path, 0)), readers := readers st @ [c]\<rparr>)"
    if "csq c = sq" "csock c = te_sock env" "cfd c = te_fd env" for c path
    by (rule added_ok [OF assms(2,3,4) that]) (simp_all add: clients_def)
  have sent: "framed (st\<lparr>tq_fds := (tq_fds st)(te_fd env \<mapsto> (path, 0)), readers := readers st @ [c]\<rparr>) st1 \<Longrightarrow> tq_ok st1"
    if "csq c = sq" "csock c = te_sock env" "cfd c = te_fd env" for c path st1
    using added [OF that] framed_ok by blast
  have err: "tq_ok (snd (tftp_send_error env sock code msg st))" for sock code msg
    using framed_ok [OF framed_simple(2) assms(2)] by blast
  have "yields tq_ok (handle_rrq env buf len sq st)"
    unfolding handle_rrq_def Let_def
    by (auto split: prod.split option.split if_split_asm simp: assms(2) err dest!: framed_simple(3,4))
      (erule sent [rotated 3], simp_all)+
  with assms(1) show ?thesis by (simp add: yields_def)
qed

lemma handle_wrq_ok:
  assumes "handle_wrq env buf sq st = Ok st'" "tq_ok st" "fresh_env st env" "sq_port sq \<noteq> QRTR_PORT_CTRL"
  shows "tq_ok st'"
proof -
  have opened: "tq_ok (st\<lparr>tq_fds := (tq_fds st)(te_fd env \<mapsto> (path, 0))\<rparr>)" for path
    using assms(2) by (auto simp: tq_ok_def clients_def)
  have closed: "tq_ok (close_fd (te_fd env) st1)" if "framed (st\<lparr>tq_fds := (tq_fds st)(te_fd env \<mapsto> (path, 0))\<rparr>) st1" for st1 path
    using assms(2,3) that by (auto simp: tq_ok_def clients_def framed_def fresh_env_def close_fd_def)
  have added: "tq_ok (st1\<lparr>writers := writers st1 @ [c]\<rparr>)"
    if "framed (st\<lparr>tq_fds := (tq_fds st)(te_fd env \<mapsto> (path, 0))\<rparr>) st1" "csq c = sq" "csock c = te_sock env" "cfd c = te_fd env" for st1 path c
  proof -
    have "tq_ok (st\<lparr>tq_fds := (tq_fds st)(te_fd env \<mapsto> (path, 0)), writers := writers st @ [c]\<rparr>)"
      by (rule added_ok [OF assms(2,3,4) that(2-4), where rs = "clients st" and ws = "[]"]) (simp_all add: clients_def)
    then show ?thesis using that(1) by (simp add: tq_ok_def clients_def framed_def)
  qed
  have ack: "tftp_send_ack env sock b st0 = (ret, st1) \<Longrightarrow> framed st0 st1" for sock b st0 ret st1
    using framed_simple(1) by (metis snd_conv)
  have "yields tq_ok (handle_wrq env buf sq st)" unfolding handle_wrq_def Let_def
    by (auto split: prod.split option.split simp: assms(2) opened dest!: ack)
      (erule closed, erule added, simp_all)
  with assms(1) show ?thesis by (simp add: yields_def)
qed

lemma listen_socket_ok:
  "listen_socket env recv stale pkt st = Ok (ret, st') \<Longrightarrow> tq_ok st \<Longrightarrow> fresh_env st env \<Longrightarrow> tq_ok st'"
  unfolding listen_socket_def Let_def
  by (auto split: sum.splits prod.splits if_splits simp: drop_writers_ok intro: handle_rrq_ok handle_wrq_ok)

text \<open>
  C15: every round of the main loop keeps the clients of the file server in order: each has a socket of its
  own and an open file of its own, and none is the control port, when the kernel hands out descriptors
  that are not in use. No transfer ever reads, writes or closes the file of another one.
\<close>

theorem tq_round_clients:
  assumes "tq_ok st" "case listen of None \<Rightarrow> True | Some (env, _) \<Rightarrow> fresh_env st env"
    and "tq_round inp listen st = Some (Ok (ret, st'))"
  shows "tq_ok st'"
proof -
  from assms(3) obtain st1 st2 where p: "writer_pass inp (writers st) st = Ok st1" "reader_pass inp (readers st1) st1 = Some (Ok st2)"
      "(case listen of None \<Rightarrow> Some (Ok (None, st2)) | Some (env, recv, stale, pkt) \<Rightarrow> Some (listen_socket env recv stale pkt st2))
        = Some (Ok (ret, st'))"
    by (auto simp: tq_round_def split: cres.splits option.splits)
  have "distinct (writers st)" using assms(1) by (auto simp: tq_ok_def clients_def distinct_map)
  with writer_pass_ok [OF p(1) assms(1)] have 1: "tq_ok st1" "shrunk st st1" by auto
  then have "distinct (readers st1)" by (auto simp: tq_ok_def clients_def distinct_map)
  with reader_pass_ok [OF p(2) 1(1)] have 2: "tq_ok st2" "shrunk st1 st2" by auto
  show ?thesis
    using p(3) 2(1) assms(2) shrunk_fresh [OF shrunk_trans [OF 1(2) 2(2)]]
    by (auto split: option.splits intro: listen_socket_ok)
qed

definition demo_wrq :: bytes where
  "demo_wrq = [0, 2] @ str ''/readwrite//etc/hosts'' @ [0] @ str ''octet'' @ [0]"

definition other_env :: tq_env where
  "other_env = demo_tq_env\<lparr>te_sock := 7, te_fd := 8\<rparr>"

definition other_client :: tftp_client where
  "other_client = \<lparr>csq = \<lparr>sq_family = 42, sq_node = 3, sq_port = 11\<rparr>, csock = 7, cfd = 8, cblksize = 0, crsize = 0, cwsize = 0, ctimeoutms = 0\<rparr>"

lemma demo_wrq_strings:
  "next_str demo_wrq 2 = Ok (str ''/readwrite//etc/hosts'', 24)" "next_str demo_wrq 24 = Ok (str ''octet'', 30)"
  "is_octet (str ''octet'')" "translate_open demo_tr (str ''/readwrite//etc/hosts'') True = Ok (Some (str ''/etc/hosts''))"
  by (simp_all add: next_str_def demo_wrq_def str_def of_char_def is_octet_def lower_def
      translate_open_def translate_readwrite_def openat_path_def demo_tr_def Let_def)

lemma demo_tq_ok: "tq_ok demo_tq"
  by (simp add: tq_ok_def clients_def demo_tq_def demo_client_def QRTR_PORT_CTRL_def)

theorem tq_round_clients_witness:
  "\<exists>st'. tq_round (\<lambda>_. None) (Some (other_env, Inr (demo_wrq, csq other_client), [], no_packet)) demo_tq = Some (Ok (None, st')) \<and>
    tq_ok st' \<and> readers st' = [demo_client] \<and> writers st' = [other_client]"
proof -
  have f: "fresh_env demo_tq other_env"
    by (simp add: fresh_env_def clients_def demo_tq_def other_env_def demo_client_def)
  have w: "take 2 demo_wrq = [0, 2]" "\<not> length demo_wrq < 2" "unat (be16 demo_wrq 0) = 2"
    by (simp_all add: demo_wrq_def be16_def)
  have h: "handle_wrq other_env demo_wrq (csq other_client) demo_tq = Ok (demo_tq
      \<lparr>tq_fds := (tq_fds demo_tq)(8 \<mapsto> (str ''/etc/hosts'', 0)), tq_sent := [(7, [0, 4, 0, 0])], writers := [other_client]\<rparr>)"
    by (simp add: handle_wrq_def demo_wrq_strings other_env_def demo_tq_env_def tftp_send_ack_def sys_send_def other_client_def demo_tq_def)
  then obtain st' where e: "tq_round (\<lambda>_. None) (Some (other_env, Inr (demo_wrq, csq other_client), [], no_packet)) demo_tq = Some (Ok (None, st'))"
      "readers st' = [demo_client]" "writers st' = [other_client]"
    using w by (simp add: tq_round_def listen_socket_def demo_tq_def other_client_def QRTR_PORT_CTRL_def)
  from tq_round_clients [OF demo_tq_ok _ e(1)] f e show ?thesis by auto
qed

text \<open>
  C30: control packets. The exit of a node ends exactly its uploads and no download, although a download of
  that node can never be continued. The exit of a single client ends nothing at all: the address compared is
  that of the control port, which no client has.
\<close>

theorem control_packets:
  assumes "tq_ok st" "sq_port sq = QRTR_PORT_CTRL" "qrtr_decode pkt bs sq = (0, pkt')"
  shows "\<exists>st'. listen_socket env (Inr (bs, sq)) stale pkt st = Ok (None, st') \<and> readers st' = readers st \<and>
    set (writers st') = {c \<in> set (writers st). \<not> (ptype pkt' = 3 \<and> sq_node (csq c) = sq_node sq)}"
proof -
  have "csq c \<noteq> sq" if "c \<in> set (writers st)" for c using that assms(1,2) by (auto simp: tq_ok_def clients_def)
  then show ?thesis
    using assms(2,3) drop_writers_ok [OF assms(1)] by (auto simp: listen_socket_def)
qed

definition demo_bye :: bytes where
  "demo_bye = pkt_bytes \<lparr>cmd = QRTR_TYPE_BYE, word0 = 3, word1 = 0, word2 = 0, word3 = 0\<rparr>"

definition two_clients :: tq where
  "two_clients = demo_tq\<lparr>writers := [other_client], tq_fds := [6 \<mapsto> (str ''f'', 0), 8 \<mapsto> (str ''g'', 0)]\<rparr>"

theorem control_packets_witness:
  "\<exists>st'. listen_socket demo_tq_env (Inr (demo_bye, \<lparr>sq_family = 42, sq_node = 3, sq_port = QRTR_PORT_CTRL\<rparr>)) [] no_packet
      two_clients = Ok (None, st') \<and> readers st' = [demo_client] \<and> writers st' = []"
proof -
  have "tq_ok two_clients"
    by (simp add: tq_ok_def clients_def two_clients_def demo_tq_def demo_client_def other_client_def QRTR_PORT_CTRL_def)
  moreover have "qrtr_decode no_packet demo_bye \<lparr>sq_family = 42, sq_node = 3, sq_port = QRTR_PORT_CTRL\<rparr> = (0, no_packet\<lparr>ptype := 3, pnode := 3\<rparr>)"
    by (simp add: qrtr_decode_def demo_bye_def pkt_views)
  ultimately have "\<exists>st'. listen_socket demo_tq_env (Inr (demo_bye, \<lparr>sq_family = 42, sq_node = 3, sq_port = QRTR_PORT_CTRL\<rparr>)) [] no_packet two_clients = Ok (None, st') \<and>
      readers st' = readers two_clients \<and>
      set (writers st') = {c \<in> set (writers two_clients). \<not> (ptype (no_packet\<lparr>ptype := 3, pnode := 3\<rparr>) = 3 \<and> sq_node (csq c) = 3)}"
    using control_packets [of two_clients "\<lparr>sq_family = 42, sq_node = 3, sq_port = QRTR_PORT_CTRL\<rparr>" no_packet demo_bye
      "no_packet\<lparr>ptype := 3, pnode := 3\<rparr>" demo_tq_env "[]"] by simp
  moreover have "readers two_clients = [demo_client]" "writers two_clients = [other_client]" "sq_node (csq other_client) = 3"
    by (simp_all add: two_clients_def demo_tq_def other_client_def)
  ultimately show ?thesis by (auto simp: set_eq_iff) (metis list.set_intros(1) neq_Nil_conv)
qed

end
