(* ===== verification/Spec2Isabelle.thy ===== *)
theory Spec2Isabelle
  imports Qrtr_Hash Qrtr_Map Qrtr_List Qrtr_Ns Qrtr_Ns_View Qrtr_Lib Qmi_Codec Qmi_Roundtrip Pd_Mapper
    Rmtfs_Storage Rmtfs_Mem Rmtfs_Qmi Rmtfs_Msg Rmtfs_Run Rmtfs_Util Tqftp_Server
begin

text \<open>
  Verification of the user-space services of the Xiaomi beryllium device tree.
\<close>

end
